(* ===== verification/IDB_Prelude.thy ===== *)
theory IDB_Prelude
  imports Main "HOL-Library.Word" "HOL-Library.List_Lexorder" "HOL-Library.Signed_Division"
begin

text \<open>
  Shared vocabulary of the development: bytes and byte strings, the error type of
  \<^verbatim>\<open>idb-core/src/common/error.rs\<close>, the result type with its propagation operator (the
  \<^verbatim>\<open>?\<close> of the source), the three-way comparison of the Rust standard library, fixed-width
  little- and big-endian encodings of machine integers, and the lexicographic order on
  byte strings (\<^verbatim>\<open>Ord\<close> of \<^verbatim>\<open>[u8]\<close>), with the generic facts about them that the component
  theories share.
\<close>

unbundle bit_operations_syntax

named_theorems result_simps \<open>case distinctions on results\<close>
named_theorems codec_simps \<open>lengths and round trips of byte encodings\<close>

section \<open>Errors and results\<close>

type_synonym byte = "8 word"
type_synonym bytes = "byte list"

text \<open>
  The error values the modelled code returns. The human-readable message a variant carries
  is dropped, identifiers are kept. \<^verbatim>\<open>Panic\<close> is a failed \<^verbatim>\<open>assert!\<close> or an out-of-range slice index.
\<close>

datatype error =
    Io
  | PageNotFound nat
  | NoFreeFrames
  | PageNotPinned nat
  | KeyNotFound
  | StorageCorrupted
  | KeyTooLarge nat
  | ValueTooLarge nat
  | TxnNotActive "64 word"
  | TxnLimit nat
  | LockTimeout
  | Deadlock "64 word"
  | TxnReadOnly "64 word"
  | TxnNotSupported
  | WriteConflict "64 word"
  | DecimalArithmetic
  | Internal
  | Panic

type_synonym 'a result = "error + 'a"

definition and_then :: "'a result \<Rightarrow> ('a \<Rightarrow> 'b result) \<Rightarrow> 'b result" where
  "and_then r f = (case r of Inl e \<Rightarrow> Inl e | Inr x \<Rightarrow> f x)"

lemma and_then_Inl [simp]: "and_then (Inl e) f = Inl e"
  by (simp add: and_then_def)

lemma and_then_Inr [simp]: "and_then (Inr x) f = f x"
  by (simp add: and_then_def)

lemma and_then_eq_Inr [result_simps]: "and_then r f = Inr y \<longleftrightarrow> (\<exists>x. r = Inr x \<and> f x = Inr y)"
  by (cases r) auto

lemma and_then_cong [fundef_cong]:
  "r = r' \<Longrightarrow> (\<And>x. r' = Inr x \<Longrightarrow> f x = g x) \<Longrightarrow> and_then r f = and_then r' g"
  by (cases r') auto

fun ok_or :: "error \<Rightarrow> 'a option \<Rightarrow> 'a result" where
  "ok_or e None = Inl e"
| "ok_or e (Some x) = Inr x"

lemma ok_or_eq_Inr [result_simps]: "ok_or e x = Inr y \<longleftrightarrow> x = Some y"
  by (cases x) auto

section \<open>Three-way comparison\<close>

datatype ordering = Less | Equal | Greater

definition cmp :: "'a::linorder \<Rightarrow> 'a \<Rightarrow> ordering" where
  "cmp a b = (if a < b then Less else if a = b then Equal else Greater)"

fun ordering_reverse :: "ordering \<Rightarrow> ordering" where
  "ordering_reverse Less = Greater"
| "ordering_reverse Equal = Equal"
| "ordering_reverse Greater = Less"

lemma cmp_simps [simp]:
  "cmp a b = Less \<longleftrightarrow> a < b" "cmp a b = Equal \<longleftrightarrow> a = b" "cmp a b = Greater \<longleftrightarrow> b < a"
  by (auto simp: cmp_def)

lemma cmp_reverse [simp]: "ordering_reverse (cmp a b) = cmp b a"
  by (auto simp: cmp_def)

lemma ordering_reverse_reverse [simp]: "ordering_reverse (ordering_reverse c) = c"
  by (cases c) auto

lemma cmp_eq_cmp_iff:
  "cmp a b = cmp c d \<longleftrightarrow> (a < b \<longleftrightarrow> c < d) \<and> (a = b \<longleftrightarrow> c = d)"
  by (auto simp: cmp_def)

section \<open>Wrap-around arithmetic on signed integers\<close>

text \<open>
  \<^verbatim>\<open>wrap_i n\<close> reads an integer as an \<^verbatim>\<open>n\<close>-bit two's complement value, which is what an
  \<^verbatim>\<open>as i32\<close>, \<^verbatim>\<open>as i64\<close> or \<^verbatim>\<open>as i128\<close> conversion and unchecked arithmetic give.
\<close>

definition in_i :: "nat \<Rightarrow> int \<Rightarrow> bool" where
  "in_i n x \<longleftrightarrow> - (2 ^ (n - 1)) \<le> x \<and> x < 2 ^ (n - 1)"

definition wrap_i :: "nat \<Rightarrow> int \<Rightarrow> int" where
  "wrap_i n x = signed_take_bit (n - 1) x"

definition wrap_u :: "nat \<Rightarrow> int \<Rightarrow> int" where
  "wrap_u n x = take_bit n x"

definition checked_i :: "nat \<Rightarrow> int \<Rightarrow> int option" where
  "checked_i n x = (if in_i n x then Some x else None)"

lemma wrap_i_id: "in_i n x \<Longrightarrow> wrap_i n x = x"
  unfolding wrap_i_def in_i_def by (intro signed_take_bit_int_eq_self) auto

lemma wrap_u_id: "0 \<le> x \<Longrightarrow> x < 2 ^ n \<Longrightarrow> wrap_u n x = x"
  unfolding wrap_u_def by (rule take_bit_int_eq_self)

lemma checked_i_Some [simp]: "checked_i n x = Some y \<longleftrightarrow> in_i n x \<and> y = x"
  by (auto simp: checked_i_def)

lemma checked_i_None [simp]: "checked_i n x = None \<longleftrightarrow> \<not> in_i n x"
  by (auto simp: checked_i_def)

lemma in_i_sint64 [simp]: "in_i 64 (sint (w :: 64 word))"
  using sint_ge [of w] sint_lt [of w] by (simp add: in_i_def)

lemma in_i_sint32 [simp]: "in_i 32 (sint (w :: 32 word))"
  using sint_ge [of w] sint_lt [of w] by (simp add: in_i_def)

lemma sint_of_int64: "in_i 64 x \<Longrightarrow> sint (word_of_int x :: 64 word) = x"
  by (simp add: in_i_def signed_of_int signed_take_bit_int_eq_self)

lemma sint_of_int32: "in_i 32 x \<Longrightarrow> sint (word_of_int x :: 32 word) = x"
  by (simp add: in_i_def signed_of_int signed_take_bit_int_eq_self)

section \<open>Byte order of machine integers\<close>

primrec le_bytes :: "nat \<Rightarrow> nat \<Rightarrow> bytes" where
  "le_bytes 0 x = []"
| "le_bytes (Suc n) x = of_nat x # le_bytes n (x div 256)"

primrec le_val :: "bytes \<Rightarrow> nat" where
  "le_val [] = 0"
| "le_val (b # bs) = unat b + 256 * le_val bs"

definition be_bytes :: "nat \<Rightarrow> nat \<Rightarrow> bytes" where
  "be_bytes n x = rev (le_bytes n x)"

definition be_val :: "bytes \<Rightarrow> nat" where
  "be_val bs = le_val (rev bs)"

lemma length_le_bytes [simp]: "length (le_bytes n x) = n"
  by (induction n arbitrary: x) auto

lemma length_be_bytes [simp]: "length (be_bytes n x) = n"
  by (simp add: be_bytes_def)

lemma unat_of_nat_byte: "unat (of_nat x :: byte) = x mod 256"
  by (simp add: unat_of_nat)

lemma unat_byte_less: "unat (b :: byte) < 256"
  using unsigned_less [of b, where ?'a = nat] by simp

lemma le_val_le_bytes: "le_val (le_bytes n x) = x mod 256 ^ n"
proof (induction n arbitrary: x)
  case (Suc n)
  have "le_val (le_bytes (Suc n) x) = x mod 256 + 256 * (x div 256 mod 256 ^ n)"
    by (simp add: unat_of_nat_byte Suc.IH)
  also have "\<dots> = x mod (256 * 256 ^ n)"
    by (simp add: mod_mult2_eq)
  finally show ?case by simp
qed simp

lemma le_val_less: "le_val bs < 256 ^ length bs"
proof (induction bs)
  case (Cons b bs)
  have "unat b + 256 * le_val bs < 256 * (le_val bs + 1)"
    using unat_byte_less [of b] by simp
  also have "\<dots> \<le> 256 * 256 ^ length bs"
    using Cons.IH by simp
  finally show ?case by simp
qed simp

lemma le_bytes_le_val [codec_simps]: "le_bytes (length bs) (le_val bs) = bs"
proof (induction bs)
  case (Cons b bs)
  have "(unat b + 256 * le_val bs) div 256 = le_val bs"
    using unat_byte_less [of b] by simp
  moreover have "(of_nat (unat b + 256 * le_val bs) :: byte) = b"
    by (rule word_unat_eq_iff [THEN iffD2])
      (simp only: unat_of_nat_byte mod_mult_self2 mod_less unat_byte_less)
  ultimately show ?case using Cons.IH by simp
qed simp

lemma be_val_be_bytes: "be_val (be_bytes n x) = x mod 256 ^ n"
  by (simp add: be_val_def be_bytes_def le_val_le_bytes)

lemma be_bytes_be_val [codec_simps]: "be_bytes (length bs) (be_val bs) = bs"
  using le_bytes_le_val [of "rev bs"] by (simp add: be_val_def be_bytes_def)

lemma be_bytes_Suc: "be_bytes (Suc n) x = be_bytes n (x div 256) @ [of_nat x]"
  by (simp add: be_bytes_def)

lemma of_nat_mod_unat:
  "n = LENGTH('a::len) \<Longrightarrow> (of_nat (unat (w :: 'a word) mod 2 ^ n) :: 'a word) = w"
  using unsigned_less [of w, where ?'a = nat] by simp

lemma le_val_word64 [codec_simps]: "of_nat (le_val (le_bytes 8 (unat (w :: 64 word)))) = w"
  using of_nat_mod_unat [of 64 w] by (simp add: le_val_le_bytes)

lemma le_val_word32 [codec_simps]: "of_nat (le_val (le_bytes 4 (unat (w :: 32 word)))) = w"
  using of_nat_mod_unat [of 32 w] by (simp add: le_val_le_bytes)

lemma be_val_word64 [codec_simps]: "of_nat (be_val (be_bytes 8 (unat (w :: 64 word)))) = w"
  using of_nat_mod_unat [of 64 w] by (simp add: be_val_be_bytes)

lemma be_val_word32 [codec_simps]: "of_nat (be_val (be_bytes 4 (unat (w :: 32 word)))) = w"
  using of_nat_mod_unat [of 32 w] by (simp add: be_val_be_bytes)

lemma le_val_le_bytes_small [codec_simps]: "x < 256 ^ n \<Longrightarrow> le_val (le_bytes n x) = x"
  by (simp add: le_val_le_bytes)

lemma be_val_be_bytes_small [codec_simps]: "x < 256 ^ n \<Longrightarrow> be_val (be_bytes n x) = x"
  by (simp add: be_val_be_bytes)

section \<open>Lexicographic order on byte strings\<close>

text \<open>The order of \<^verbatim>\<open>[u8]\<close> is the library's lexicographic \<^verbatim>\<open><\<close> on lists of words.\<close>

lemma append_less_same [simp]: "(xs @ ys < xs @ zs) = (ys < (zs :: 'a::linorder list))"
  by (induction xs) auto

lemma append_less_same_length:
  "length xs = length ys \<Longrightarrow>
   (xs @ us < ys @ vs) = (xs < ys \<or> xs = ys \<and> us < (vs :: 'a::linorder list))"
  by (induction xs ys rule: list_induct2) auto

lemma not_less_Nil_list [simp]: "\<not> (xs :: 'a::linorder list) < []"
  by (cases xs) auto

lemma append_greater_self: "ys \<noteq> [] \<Longrightarrow> xs < xs @ (ys :: 'a::linorder list)"
  using append_less_same [of xs "[]" ys] by (cases ys) auto

lemma of_nat_byte_less: "((of_nat x :: byte) < of_nat y) = (x mod 256 < y mod 256)"
  by (simp add: word_less_nat_alt unat_of_nat_byte)

lemma of_nat_byte_eq: "((of_nat x :: byte) = of_nat y) = (x mod 256 = y mod 256)"
  by (simp add: word_unat_eq_iff unat_of_nat_byte)

text \<open>Big-endian strings of equal width compare like the numbers they denote.\<close>

lemma be_bytes_less_iff:
  "x < 256 ^ n \<Longrightarrow> y < 256 ^ n \<Longrightarrow> be_bytes n x < be_bytes n y \<longleftrightarrow> x < y"
proof (induction n arbitrary: x y)
  case (Suc n)
  have bounds: "x div 256 < 256 ^ n" "y div 256 < 256 ^ n"
    using Suc.prems by (auto simp: div_less_iff_less_mult mult.commute)
  have eq: "be_bytes n (x div 256) = be_bytes n (y div 256) \<longleftrightarrow> x div 256 = y div 256"
    using be_val_be_bytes_small [OF bounds(1)] be_val_be_bytes_small [OF bounds(2)] by metis
  have "be_bytes (Suc n) x < be_bytes (Suc n) y \<longleftrightarrow>
      x div 256 < y div 256 \<or> x div 256 = y div 256 \<and> x mod 256 < y mod 256"
    by (simp add: be_bytes_Suc append_less_same_length Suc.IH [OF bounds] eq of_nat_byte_less)
  also have "\<dots> \<longleftrightarrow> x < y"
    using div_mult_mod_eq [of x 256] div_mult_mod_eq [of y 256]
      mod_less_divisor [of 256 x] mod_less_divisor [of 256 y] by linarith
  finally show ?case .
qed (simp add: be_bytes_def)

lemma be_bytes_eq_iff:
  "x < 256 ^ n \<Longrightarrow> y < 256 ^ n \<Longrightarrow> be_bytes n x = be_bytes n y \<longleftrightarrow> x = y"
  by (metis be_val_be_bytes_small)

end
