(* ===== verification/Decimals.thy ===== *)
theory Decimals
  imports Complex_Main IDB_Prelude
begin

text \<open>
  The fixed-scale decimal type of \<^verbatim>\<open>idb-core/src/types/decimal.rs\<close>: a record of an \<^verbatim>\<open>i64\<close>
  mantissa and a \<^verbatim>\<open>u8\<close> scale, its checked addition, subtraction, multiplication and
  half-away-from-zero division. The lemmas relate every operation to exact rational
  arithmetic on the denoted number \<^verbatim>\<open>dec_val\<close> and say when an operation fails.
\<close>

section \<open>Model\<close>

record decimal =
  mantissa :: "64 word"
  scale :: "8 word"

definition MAX_SCALE :: "8 word" where
  "MAX_SCALE = 18"

definition MAX_PRECISION :: "8 word" where
  "MAX_PRECISION = 18"

definition from_i64_with_scale :: "64 word \<Rightarrow> 8 word \<Rightarrow> decimal result" where
  "from_i64_with_scale m s = (if s \<le> MAX_SCALE then Inr \<lparr>mantissa = m, scale = s\<rparr> else Inl Panic)"

definition matches_scale :: "decimal \<Rightarrow> 8 word \<Rightarrow> bool" where
  "matches_scale d s \<longleftrightarrow> scale d = s"

definition exceeds_precision :: "decimal \<Rightarrow> 8 word \<Rightarrow> bool" where
  "exceeds_precision d precision =
    (if mantissa d = 0 then False
     else let abs' = nat \<bar>sint (mantissa d)\<bar>;
              bound = (if (10::nat) ^ unat precision < 2 ^ 64 then 10 ^ unat precision else 2 ^ 64 - 1)
          in bound \<le> abs')"

definition decimal_add :: "decimal \<Rightarrow> decimal \<Rightarrow> decimal result" where
  "decimal_add a b =
    (if scale a \<noteq> scale b then Inl DecimalArithmetic
     else case checked_i 64 (sint (mantissa a) + sint (mantissa b)) of
       None \<Rightarrow> Inl DecimalArithmetic
     | Some m \<Rightarrow> Inr \<lparr>mantissa = word_of_int m, scale = scale a\<rparr>)"

definition decimal_sub :: "decimal \<Rightarrow> decimal \<Rightarrow> decimal result" where
  "decimal_sub a b =
    (if scale a \<noteq> scale b then Inl DecimalArithmetic
     else case checked_i 64 (sint (mantissa a) - sint (mantissa b)) of
       None \<Rightarrow> Inl DecimalArithmetic
     | Some m \<Rightarrow> Inr \<lparr>mantissa = word_of_int m, scale = scale a\<rparr>)"

definition decimal_mul :: "decimal \<Rightarrow> decimal \<Rightarrow> decimal result" where
  "decimal_mul a b =
    (if unat (scale a) + unat (scale b) \<ge> 2 ^ 8 then Inl DecimalArithmetic
     else let result_scale = scale a + scale b in
       if result_scale > MAX_SCALE then Inl DecimalArithmetic
       else let product = wrap_i 128 (sint (mantissa a) * sint (mantissa b)) in
         if product > 2 ^ 63 - 1 \<or> product < - (2 ^ 63) then Inl DecimalArithmetic
         else Inr \<lparr>mantissa = word_of_int product, scale = result_scale\<rparr>)"

definition rescale_mantissa :: "64 word \<Rightarrow> 8 word \<Rightarrow> 8 word \<Rightarrow> int result" where
  "rescale_mantissa m from_scale to_scale =
    ok_or DecimalArithmetic
      (checked_i 128 (sint m * wrap_i 128 (10 ^ unat (to_scale - from_scale))))"

definition div_i128_round_half_away :: "int \<Rightarrow> int \<Rightarrow> int" where
  "div_i128_round_half_away num den =
    (let quotient = num sdiv den; remainder = num smod den in
     if wrap_i 128 (2 * \<bar>remainder\<bar>) \<ge> \<bar>den\<bar>
     then if (num < 0) = (den < 0) then quotient + 1 else quotient - 1
     else quotient)"

definition decimal_div :: "decimal \<Rightarrow> decimal \<Rightarrow> decimal result" where
  "decimal_div a b =
    (if mantissa b = 0 then Inl DecimalArithmetic
     else let result_scale = max (scale a) (scale b) in
       and_then (rescale_mantissa (mantissa a) (scale a) result_scale) (\<lambda>a_scaled.
       and_then (rescale_mantissa (mantissa b) (scale b) result_scale) (\<lambda>b_scaled.
       and_then (ok_or DecimalArithmetic
           (checked_i 128 (a_scaled * wrap_i 128 (10 ^ unat result_scale)))) (\<lambda>numerator.
       and_then (ok_or DecimalArithmetic
           (checked_i 64 (div_i128_round_half_away numerator b_scaled))) (\<lambda>m.
       Inr \<lparr>mantissa = word_of_int m, scale = result_scale\<rparr>)))))"

section \<open>The denoted number\<close>

definition dec_ok :: "decimal \<Rightarrow> bool" where
  "dec_ok d \<longleftrightarrow> scale d \<le> MAX_SCALE"

definition dec_val :: "decimal \<Rightarrow> rat" where
  "dec_val d = of_int (sint (mantissa d)) / 10 ^ unat (scale d)"

lemma dec_ok_unat: "dec_ok d \<longleftrightarrow> unat (scale d) \<le> 18"
  by (simp add: dec_ok_def MAX_SCALE_def word_le_nat_alt)

lemma unat_scale_add:
  "unat (s :: 8 word) + unat t < 256 \<Longrightarrow> unat (s + t) = unat s + unat t"
  using unat_add_lem [of s t] by simp

lemma power10_le_18: "n \<le> 18 \<Longrightarrow> (10::int) ^ n \<le> 10 ^ 18"
  by (rule power_increasing) auto

lemma abs_sint64: "\<bar>sint (w :: 64 word)\<bar> \<le> 2 ^ 63"
  using sint_ge [of w] sint_lt [of w] by (simp add: abs_if)

lemma mult_pow10_in_i128:
  assumes "\<bar>x\<bar> \<le> 2 ^ 63" "n \<le> 18"
  shows "in_i 128 (x * 10 ^ n)"
proof -
  have "\<bar>x * 10 ^ n\<bar> = \<bar>x\<bar> * 10 ^ n" by (simp add: abs_mult)
  also have "\<dots> \<le> 2 ^ 63 * 10 ^ 18"
    using assms power10_le_18 by (intro mult_mono) auto
  also have "\<dots> < 2 ^ 127" by simp
  finally show ?thesis by (auto simp: in_i_def abs_if split: if_splits)
qed

lemma pow10_in_i128: "n \<le> 18 \<Longrightarrow> in_i 128 (10 ^ n)"
  using mult_pow10_in_i128 [of 1 n] by simp

lemma mult_in_i128:
  assumes "\<bar>x\<bar> \<le> 2 ^ 63" "\<bar>y\<bar> \<le> 2 ^ 63"
  shows "in_i 128 (x * y)"
proof -
  have "\<bar>x * y\<bar> = \<bar>x\<bar> * \<bar>y\<bar>" by (simp add: abs_mult)
  also have "\<dots> \<le> 2 ^ 63 * 2 ^ 63" using assms by (intro mult_mono) auto
  also have "\<dots> < 2 ^ 127" by simp
  finally show ?thesis by (auto simp: in_i_def abs_if split: if_splits)
qed

lemma sint64_arith:
  "in_i 64 (sint a + sint b) \<Longrightarrow> sint (a + b :: 64 word) = sint a + sint b"
  "in_i 64 (sint a - sint b) \<Longrightarrow> sint (a - b :: 64 word) = sint a - sint b"
  "in_i 64 (sint a * sint b) \<Longrightarrow> sint (a * b :: 64 word) = sint a * sint b"
  using sint_of_int64 [of "sint a + sint b"] sint_of_int64 [of "sint a - sint b"]
    sint_of_int64 [of "sint a * sint b"] by simp_all

declare of_int_sint [simp del]

lemma of_int_sint64 [simp]: "(word_of_int (sint (w :: 64 word)) :: 64 word) = w"
  by (simp add: of_int_sint)

section \<open>Exactness of addition, subtraction and multiplication\<close>

lemma decimal_add_val:
  "decimal_add a b = Inr r \<Longrightarrow> dec_val r = dec_val a + dec_val b \<and> scale r = scale a"
  by (auto simp: decimal_add_def dec_val_def sint64_arith add_divide_distrib
      split: if_splits option.splits)

lemma decimal_sub_val:
  "decimal_sub a b = Inr r \<Longrightarrow> dec_val r = dec_val a - dec_val b \<and> scale r = scale a"
  by (auto simp: decimal_sub_def dec_val_def sint64_arith diff_divide_distrib
      split: if_splits option.splits)

lemma decimal_mul_eq:
  "decimal_mul a b =
    (if unat (scale a) + unat (scale b) \<le> 18 \<and> in_i 64 (sint (mantissa a) * sint (mantissa b))
     then Inr \<lparr>mantissa = word_of_int (sint (mantissa a) * sint (mantissa b)),
               scale = scale a + scale b\<rparr>
     else Inl DecimalArithmetic)"
proof -
  have w: "wrap_i 128 (sint (mantissa a) * sint (mantissa b)) = sint (mantissa a) * sint (mantissa b)"
    by (intro wrap_i_id mult_in_i128 abs_sint64)
  show ?thesis
    by (auto simp: decimal_mul_def Let_def w MAX_SCALE_def word_less_nat_alt unat_scale_add in_i_def)
qed

lemma decimal_mul_val:
  "decimal_mul a b = Inr r \<Longrightarrow>
   dec_val r = dec_val a * dec_val b \<and> unat (scale r) = unat (scale a) + unat (scale b)"
  by (auto simp: decimal_mul_eq dec_val_def sint64_arith unat_scale_add power_add split: if_splits)

lemma decimal_add_Inr_iff:
  "(\<exists>r. decimal_add a b = Inr r) \<longleftrightarrow> scale a = scale b \<and> in_i 64 (sint (mantissa a) + sint (mantissa b))"
  by (simp add: decimal_add_def checked_i_def)

lemma decimal_sub_Inr_iff:
  "(\<exists>r. decimal_sub a b = Inr r) \<longleftrightarrow> scale a = scale b \<and> in_i 64 (sint (mantissa a) - sint (mantissa b))"
  by (simp add: decimal_sub_def checked_i_def)

lemma decimal_mul_Inr_iff:
  "(\<exists>r. decimal_mul a b = Inr r) \<longleftrightarrow>
    unat (scale a) + unat (scale b) \<le> 18 \<and> in_i 64 (sint (mantissa a) * sint (mantissa b))"
  by (simp add: decimal_mul_eq)

section \<open>Rounding division\<close>

definition round_half_away :: "rat \<Rightarrow> int" where
  "round_half_away x = (if x < 0 then - \<lfloor>- x + 1 / 2\<rfloor> else \<lfloor>x + 1 / 2\<rfloor>)"

lemma double_div_half:
  assumes "0 < (d::int)"
  shows "(2 * n + d) div (2 * d) = n div d + (if d \<le> 2 * (n mod d) then 1 else 0)"
proof -
  define q r where "q = n div d" and "r = n mod d"
  have n: "n = d * q + r" and r: "0 \<le> r" "r < d"
    using assms by (auto simp: q_def r_def)
  have "(2 * n + d) div (2 * d) = (2 * d * q + (2 * r + d)) div (2 * d)"
    by (simp add: n algebra_simps)
  also have "\<dots> = q + (2 * r + d) div (2 * d)"
    using assms by simp
  also have "(2 * r + d) div (2 * d) = (if d \<le> 2 * r then 1 else 0)"
  proof (cases "d \<le> 2 * r")
    case True
    then have "2 * r + d = 2 * d * 1 + (2 * r - d)" by simp
    then show ?thesis using True r by (subst int_div_pos_eq [where q = 1 and r = "2 * r - d"]) auto
  next
    case False
    then show ?thesis using r by simp
  qed
  finally show ?thesis by (simp add: q_def r_def)
qed

lemma floor_half_quotient:
  assumes "0 < (d::int)"
  shows "\<lfloor>(of_int n / of_int d :: rat) + 1 / 2\<rfloor> = n div d + (if d \<le> 2 * (n mod d) then 1 else 0)"
proof -
  have "(of_int n / of_int d :: rat) + 1 / 2 = of_int (2 * n + d) / of_int (2 * d)"
    using assms by (simp add: field_simps)
  then show ?thesis
    by (simp only: floor_divide_of_int_eq double_div_half [OF assms])
qed

lemma div_i128_round_half_away_eq:
  assumes "den \<noteq> 0" and "\<bar>den\<bar> \<le> 2 ^ 126"
  shows "div_i128_round_half_away num den = round_half_away (of_int num / of_int den)"
proof -
  let ?n = "\<bar>num\<bar>" and ?d = "\<bar>den\<bar>"
  have d: "0 < ?d" using assms by simp
  have "?n mod ?d < ?d" "0 \<le> ?n mod ?d" using d by auto
  then have w: "wrap_i 128 (2 * (?n mod ?d)) = 2 * (?n mod ?d)"
    using assms(2) by (intro wrap_i_id) (simp add: in_i_def)
  have rem: "\<bar>num smod den\<bar> = ?n mod ?d"
    using d by (cases "num = 0") (auto simp: signed_modulo_int_def abs_mult abs_sgn_eq)
  have quot: "num sdiv den = sgn num * sgn den * (?n div ?d)"
    by (simp add: signed_divide_int_def)
  define x where "x = (of_int ?n / of_int ?d :: rat)"
  have fl: "\<lfloor>x + 1 / 2\<rfloor> = ?n div ?d + (if ?d \<le> 2 * (?n mod ?d) then 1 else 0)"
    unfolding x_def by (rule floor_half_quotient [OF d])
  have x0: "0 \<le> x" by (simp add: x_def)
  consider (zero) "num = 0" | (pos) "num \<noteq> 0" "(num < 0) = (den < 0)" | (neg) "num \<noteq> 0" "(num < 0) \<noteq> (den < 0)"
    by blast
  then show ?thesis
  proof cases
    case zero
    then show ?thesis
      using d by (simp add: div_i128_round_half_away_def round_half_away_def wrap_i_id in_i_def floor_eq_iff)
  next
    case pos
    have "of_int num / of_int den = x"
      using pos assms(1) by (auto simp: abs_if x_def)
    then have "round_half_away (of_int num / of_int den) = \<lfloor>x + 1 / 2\<rfloor>"
      using x0 by (simp add: round_half_away_def)
    moreover have "sgn num * sgn den = 1"
      using pos assms(1) by (auto simp: sgn_if split: if_splits)
    ultimately show ?thesis
      using pos by (simp add: div_i128_round_half_away_def rem quot w fl Let_def)
  next
    case neg
    have "of_int num / of_int den = - x"
      using neg assms(1) by (auto simp: abs_if x_def)
    moreover have "0 < x" using neg assms(1) by (simp add: x_def)
    ultimately have "round_half_away (of_int num / of_int den) = - \<lfloor>x + 1 / 2\<rfloor>"
      by (simp add: round_half_away_def)
    moreover have "sgn num * sgn den = - 1"
      using neg assms(1) by (auto simp: sgn_if split: if_splits)
    ultimately show ?thesis
      using neg by (simp add: div_i128_round_half_away_def rem quot w fl Let_def)
  qed
qed

lemma rescale_mantissa_eq:
  assumes "to_scale \<le> MAX_SCALE" "from_scale \<le> to_scale"
  shows "rescale_mantissa m from_scale to_scale =
    Inr (sint m * 10 ^ (unat to_scale - unat from_scale))"
proof -
  have "unat (to_scale - from_scale) = unat to_scale - unat from_scale"
    using assms(2) by (simp add: unat_sub_if_size word_le_nat_alt)
  moreover have "unat to_scale \<le> 18"
    using assms(1) by (simp add: MAX_SCALE_def word_le_nat_alt)
  ultimately show ?thesis
    using mult_pow10_in_i128 [OF abs_sint64, of "unat to_scale - unat from_scale" m]
    by (simp add: rescale_mantissa_def wrap_i_id pow10_in_i128 checked_i_def)
qed

lemma scaled_mantissa_val:
  "unat (scale d) \<le> s \<Longrightarrow>
   (of_int (sint (mantissa d) * 10 ^ (s - unat (scale d))) :: rat) = dec_val d * 10 ^ s"
  using power_diff [of "10::rat" "unat (scale d)" s] by (simp add: dec_val_def)

lemma round_half_away_bound: "\<bar>x\<bar> - 1 / 2 \<le> of_int \<bar>round_half_away x\<bar>"
proof -
  have "y - 1 / 2 \<le> of_int \<bar>\<lfloor>y + 1 / 2\<rfloor>\<bar>" if "0 \<le> y" for y :: rat
    using that floor_correct [of "y + 1 / 2"] by linarith
  from this [of x] this [of "- x"] show ?thesis by (auto simp: round_half_away_def)
qed

text \<open>
  The scaled numerator leaves the 128-bit range only when the quotient is far outside the
  64-bit range, so that check never rejects a representable quotient.
\<close>

lemma numerator_overflow:
  fixes ma mb :: "64 word"
  assumes "sa \<le> s" "sb \<le> s" "s = sa \<or> s = sb" "s \<le> 18" "sint mb \<noteq> 0"
    and over: "\<not> in_i 128 (sint ma * 10 ^ (s - sa) * 10 ^ s)"
  shows "\<not> in_i 64 (round_half_away
    (of_int (sint ma * 10 ^ (s - sa) * 10 ^ s) / of_int (sint mb * 10 ^ (s - sb))))"
proof -
  let ?n = "sint ma * 10 ^ (s - sa) * 10 ^ s"
  have "s \<noteq> sa" using over mult_pow10_in_i128 [OF abs_sint64, of s ma] assms(4) by auto
  then have sb: "s = sb" using assms(3) by simp
  have n: "2 ^ 127 \<le> \<bar>?n\<bar>" using over by (auto simp: in_i_def)
  have b: "\<bar>sint mb\<bar> \<le> 2 ^ 63" "0 < \<bar>sint mb\<bar>" using abs_sint64 assms(5) by auto
  have "2 ^ 64 * \<bar>sint mb\<bar> \<le> \<bar>?n\<bar>" using n b by simp
  then have "(of_int (2 ^ 64 * \<bar>sint mb\<bar>) :: rat) \<le> of_int \<bar>?n\<bar>" by (simp only: of_int_le_iff)
  then have "(2 ^ 64 :: rat) \<le> \<bar>of_int ?n / of_int (sint mb)\<bar>"
    using b(2) by (simp add: abs_divide field_simps)
  then have "(2 ^ 64 - 1 / 2 :: rat) \<le> of_int \<bar>round_half_away (of_int ?n / of_int (sint mb))\<bar>"
    using round_half_away_bound [of "of_int ?n / of_int (sint mb)"] by linarith
  then have "(of_int (2 ^ 63) :: rat) < of_int \<bar>round_half_away (of_int ?n / of_int (sint mb))\<bar>"
    by (rule less_le_trans [rotated]) simp
  then have "2 ^ 63 < \<bar>round_half_away (of_int ?n / of_int (sint mb))\<bar>" by (simp only: of_int_less_iff)
  then show ?thesis by (auto simp: in_i_def sb)
qed

lemma decimal_div_eq:
  assumes "dec_ok a" "dec_ok b"
  shows "decimal_div a b =
    (let s = max (scale a) (scale b);
         q = round_half_away (dec_val a / dec_val b * 10 ^ unat s) in
     if mantissa b \<noteq> 0 \<and> in_i 64 q then Inr \<lparr>mantissa = word_of_int q, scale = s\<rparr>
     else Inl DecimalArithmetic)"
proof (cases "mantissa b = 0")
  case False
  let ?s = "max (scale a) (scale b)"
  let ?as = "sint (mantissa a) * 10 ^ (unat ?s - unat (scale a))"
  let ?bs = "sint (mantissa b) * 10 ^ (unat ?s - unat (scale b))"
  have s: "?s \<le> MAX_SCALE" using assms by (simp add: dec_ok_def)
  then have s18: "unat ?s \<le> 18" by (simp add: MAX_SCALE_def word_le_nat_alt)
  have le: "unat (scale a) \<le> unat ?s" "unat (scale b) \<le> unat ?s"
    by (simp_all add: word_le_nat_alt [symmetric])
  have bnz: "sint (mantissa b) \<noteq> 0" "?bs \<noteq> 0" using False by (simp_all add: signed_eq_0_iff)
  have "\<bar>?bs\<bar> \<le> 2 ^ 63 * 10 ^ 18"
    using abs_sint64 [of "mantissa b"] power10_le_18 [of "unat ?s - unat (scale b)"] s18
    by (simp only: abs_mult) (intro mult_mono, auto)
  then have b126: "\<bar>?bs\<bar> \<le> 2 ^ 126" by simp
  have q: "(of_int (?as * 10 ^ unat ?s) / of_int ?bs :: rat) = dec_val a / dec_val b * 10 ^ unat ?s"
    using scaled_mantissa_val [OF le(1)] scaled_mantissa_val [OF le(2)] by simp
  define n d x where "n = ?as * 10 ^ unat ?s" and "d = ?bs" and "x = dec_val a / dec_val b * 10 ^ unat ?s"
  have "unat ?s = unat (scale a) \<or> unat ?s = unat (scale b)" by (simp add: max_def)
  then have over: "\<not> in_i 128 n \<Longrightarrow> \<not> in_i 64 (round_half_away x)"
    using numerator_overflow [OF le _ s18 bnz(1), of "mantissa a"] unfolding n_def x_def q [symmetric] by blast
  have div: "div_i128_round_half_away n d = round_half_away x"
    using div_i128_round_half_away_eq [OF bnz(2) b126] unfolding n_def x_def d_def q [symmetric] by blast
  have "decimal_div a b = and_then (ok_or DecimalArithmetic (checked_i 128 n)) (\<lambda>num.
      and_then (ok_or DecimalArithmetic (checked_i 64 (div_i128_round_half_away num d))) (\<lambda>m.
        Inr \<lparr>mantissa = word_of_int m, scale = ?s\<rparr>))"
    unfolding n_def d_def using False s
    by (simp add: decimal_div_def Let_def rescale_mantissa_eq wrap_i_id pow10_in_i128 s18)
  then show ?thesis
    unfolding Let_def x_def [symmetric] using False over div
    by (cases "in_i 128 n") (simp_all add: checked_i_def)
qed (simp add: decimal_div_def)

section \<open>Properties\<close>

text \<open>
  C24. Addition, subtraction and multiplication of decimals are exact: each succeeds precisely
  when the operands' scales are admissible and the exact result fits the 64-bit mantissa, and
  then denotes the exact sum, difference or product.
\<close>

theorem decimal_arith_exact:
  "((\<exists>r. decimal_add a b = Inr r) \<longleftrightarrow>
      scale a = scale b \<and> in_i 64 (sint (mantissa a) + sint (mantissa b))) \<and>
   ((\<exists>r. decimal_sub a b = Inr r) \<longleftrightarrow>
      scale a = scale b \<and> in_i 64 (sint (mantissa a) - sint (mantissa b))) \<and>
   ((\<exists>r. decimal_mul a b = Inr r) \<longleftrightarrow>
      unat (scale a) + unat (scale b) \<le> 18 \<and> in_i 64 (sint (mantissa a) * sint (mantissa b))) \<and>
   (\<forall>r. decimal_add a b = Inr r \<longrightarrow> dec_val r = dec_val a + dec_val b) \<and>
   (\<forall>r. decimal_sub a b = Inr r \<longrightarrow> dec_val r = dec_val a - dec_val b) \<and>
   (\<forall>r. decimal_mul a b = Inr r \<longrightarrow> dec_val r = dec_val a * dec_val b)"
  by (intro conjI)
    (simp_all add: decimal_add_Inr_iff decimal_sub_Inr_iff decimal_mul_Inr_iff
      decimal_add_val decimal_sub_val decimal_mul_val)

theorem decimal_arith_exact_witness:
  "\<exists>r. decimal_add \<lparr>mantissa = 150, scale = 2\<rparr> \<lparr>mantissa = 275, scale = 2\<rparr> = Inr r \<and>
    dec_val r = dec_val \<lparr>mantissa = 150, scale = 2\<rparr> + dec_val \<lparr>mantissa = 275, scale = 2\<rparr>"
  using decimal_arith_exact [of "\<lparr>mantissa = 150, scale = 2\<rparr>" "\<lparr>mantissa = 275, scale = 2\<rparr>"]
  by (auto simp: in_i_def)

text \<open>
  C23. Division of decimals: the result has the larger of the two scales and its mantissa is the
  exact quotient at that scale, rounded half away from zero; the operation fails precisely for
  a zero divisor and when the rounded quotient does not fit the 64-bit mantissa. In particular
  the intermediate 128-bit overflow checks never reject a representable quotient.
\<close>

theorem decimal_div_rounds:
  assumes "dec_ok a" "dec_ok b"
  shows "decimal_div a b =
    (let s = max (scale a) (scale b);
         q = round_half_away (dec_val a / dec_val b * 10 ^ unat s) in
     if mantissa b \<noteq> 0 \<and> in_i 64 q then Inr \<lparr>mantissa = word_of_int q, scale = s\<rparr>
     else Inl DecimalArithmetic)"
  using assms by (rule decimal_div_eq)

theorem decimal_div_rounds_witness:
  "dec_ok \<lparr>mantissa = 200, scale = 2\<rparr> \<and> dec_ok \<lparr>mantissa = 3, scale = 0\<rparr> \<and>
   decimal_div \<lparr>mantissa = 200, scale = 2\<rparr> \<lparr>mantissa = 3, scale = 0\<rparr> = Inr \<lparr>mantissa = 67, scale = 2\<rparr>"
  using decimal_div_rounds [of "\<lparr>mantissa = 200, scale = 2\<rparr>" "\<lparr>mantissa = 3, scale = 0\<rparr>"]
    floor_eq_iff [of "403 / 6 :: rat" 67]
  by (simp add: dec_ok_def MAX_SCALE_def dec_val_def round_half_away_def max_def in_i_def Let_def)

end
