(* ===== verification/Values.thy ===== *)
theory Values
  imports Decimals
begin

text \<open>
  Column types and runtime values of \<^verbatim>\<open>idb-core/src/types/value.rs\<close>: type matching, the
  canonical SQL comparison \<^verbatim>\<open>compare_sql\<close>, the join-key normal form and value-preserving
  coercion. Strings are their UTF-8 bytes; \<^verbatim>\<open>utf8_valid\<close> is the check of
  \<^verbatim>\<open>String::from_utf8\<close>, and a well-formed value carries valid UTF-8 and a decimal scale the
  constructor accepts.
\<close>

section \<open>UTF-8 validity\<close>

definition utf8_cont :: "byte \<Rightarrow> bool" where
  "utf8_cont b \<longleftrightarrow> 0x80 \<le> b \<and> b \<le> 0xBF"

fun utf8_valid :: "bytes \<Rightarrow> bool" where
  "utf8_valid [] = True"
| "utf8_valid (b # rest) =
    (if b < 0x80 then utf8_valid rest
     else if 0xC2 \<le> b \<and> b \<le> 0xDF then
       (case rest of c # r \<Rightarrow> utf8_cont c \<and> utf8_valid r | _ \<Rightarrow> False)
     else if 0xE0 \<le> b \<and> b \<le> 0xEF then
       (case rest of c # d # r \<Rightarrow>
          (if b = 0xE0 then 0xA0 \<le> c \<and> c \<le> 0xBF
           else if b = 0xED then 0x80 \<le> c \<and> c \<le> 0x9F else utf8_cont c)
          \<and> utf8_cont d \<and> utf8_valid r
        | _ \<Rightarrow> False)
     else if 0xF0 \<le> b \<and> b \<le> 0xF4 then
       (case rest of c # d # e # r \<Rightarrow>
          (if b = 0xF0 then 0x90 \<le> c \<and> c \<le> 0xBF
           else if b = 0xF4 then 0x80 \<le> c \<and> c \<le> 0x8F else utf8_cont c)
          \<and> utf8_cont d \<and> utf8_cont e \<and> utf8_valid r
        | _ \<Rightarrow> False)
     else False)"

definition from_utf8 :: "bytes \<Rightarrow> bytes result" where
  "from_utf8 bs = (if utf8_valid bs then Inr bs else Inl StorageCorrupted)"

lemma from_utf8_valid [simp]: "utf8_valid bs \<Longrightarrow> from_utf8 bs = Inr bs"
  by (simp add: from_utf8_def)

lemma from_utf8_Inr [result_simps]: "from_utf8 bs = Inr s \<longleftrightarrow> utf8_valid bs \<and> s = bs"
  by (auto simp: from_utf8_def)

section \<open>Column types and values\<close>

datatype column_type =
    TInt32
  | TInt64
  | TVarchar "16 word"
  | TChar "16 word"
  | TBytes "16 word"
  | TDecimal (ty_precision: "8 word") (ty_scale: "8 word")
  | TTimestamp
  | TBoolean
  | TDate

datatype sql_value =
    VInt32 "32 word"
  | VInt64 "64 word"
  | VVarchar bytes
  | VChar bytes
  | VBytes bytes
  | VDecimal decimal
  | VTimestamp "64 word"
  | VBoolean bool
  | VNull
  | VDate "32 word"

definition value_matches :: "sql_value \<Rightarrow> column_type \<Rightarrow> bool" where
  "value_matches v ty =
    (case (v, ty) of
       (VNull, _) \<Rightarrow> True
     | (VInt32 _, TInt32) \<Rightarrow> True
     | (VInt64 _, TInt64) \<Rightarrow> True
     | (VVarchar _, TVarchar _) \<Rightarrow> True
     | (VChar _, TChar _) \<Rightarrow> True
     | (VBytes _, TBytes _) \<Rightarrow> True
     | (VDecimal d, TDecimal _ s) \<Rightarrow> scale d = s
     | (VTimestamp _, TTimestamp) \<Rightarrow> True
     | (VBoolean _, TBoolean) \<Rightarrow> True
     | (VDate _, TDate) \<Rightarrow> True
     | _ \<Rightarrow> False)"

definition saturating_u16 :: "nat \<Rightarrow> 16 word" where
  "saturating_u16 n = of_nat (min n (2 ^ 16 - 1))"

definition type_of :: "sql_value \<Rightarrow> column_type option" where
  "type_of v =
    (case v of
       VNull \<Rightarrow> None
     | VInt32 _ \<Rightarrow> Some TInt32
     | VInt64 _ \<Rightarrow> Some TInt64
     | VVarchar s \<Rightarrow> Some (TVarchar (saturating_u16 (length s)))
     | VChar s \<Rightarrow> Some (TChar (saturating_u16 (length s)))
     | VBytes b \<Rightarrow> Some (TBytes (saturating_u16 (length b)))
     | VDecimal d \<Rightarrow> Some (TDecimal MAX_PRECISION (scale d))
     | VTimestamp _ \<Rightarrow> Some TTimestamp
     | VBoolean _ \<Rightarrow> Some TBoolean
     | VDate _ \<Rightarrow> Some TDate)"

section \<open>SQL comparison\<close>

definition pow10_i128 :: "8 word \<Rightarrow> int" where
  "pow10_i128 s = wrap_i 128 (10 ^ unat s)"

definition compare_decimals :: "decimal \<Rightarrow> decimal \<Rightarrow> ordering" where
  "compare_decimals a b =
    (if scale a = scale b then cmp (sint (mantissa a)) (sint (mantissa b))
     else cmp (wrap_i 128 (sint (mantissa a) * pow10_i128 (scale b)))
              (wrap_i 128 (sint (mantissa b) * pow10_i128 (scale a))))"

definition compare_int_decimal :: "int \<Rightarrow> decimal \<Rightarrow> ordering" where
  "compare_int_decimal i d = cmp (wrap_i 128 (i * pow10_i128 (scale d))) (sint (mantissa d))"

definition compare_sql :: "sql_value \<Rightarrow> sql_value \<Rightarrow> ordering option" where
  "compare_sql v w =
    (case (v, w) of
       (VNull, _) \<Rightarrow> None
     | (_, VNull) \<Rightarrow> None
     | (VInt32 a, VInt32 b) \<Rightarrow> Some (cmp (sint a) (sint b))
     | (VInt64 a, VInt64 b) \<Rightarrow> Some (cmp (sint a) (sint b))
     | (VInt32 a, VInt64 b) \<Rightarrow> Some (cmp (sint a) (sint b))
     | (VInt64 a, VInt32 b) \<Rightarrow> Some (cmp (sint a) (sint b))
     | (VVarchar a, VVarchar b) \<Rightarrow> Some (cmp a b)
     | (VChar a, VChar b) \<Rightarrow> Some (cmp a b)
     | (VVarchar a, VChar b) \<Rightarrow> Some (cmp a b)
     | (VChar a, VVarchar b) \<Rightarrow> Some (cmp a b)
     | (VBytes a, VBytes b) \<Rightarrow> Some (cmp a b)
     | (VBoolean a, VBoolean b) \<Rightarrow> Some (cmp a b)
     | (VTimestamp a, VTimestamp b) \<Rightarrow> Some (cmp (sint a) (sint b))
     | (VDate a, VDate b) \<Rightarrow> Some (cmp (sint a) (sint b))
     | (VDecimal a, VDecimal b) \<Rightarrow> Some (compare_decimals a b)
     | (VInt32 a, VDecimal d) \<Rightarrow> Some (compare_int_decimal (sint a) d)
     | (VInt64 a, VDecimal d) \<Rightarrow> Some (compare_int_decimal (sint a) d)
     | (VDecimal d, VInt32 b) \<Rightarrow> Some (ordering_reverse (compare_int_decimal (sint b) d))
     | (VDecimal d, VInt64 b) \<Rightarrow> Some (ordering_reverse (compare_int_decimal (sint b) d))
     | _ \<Rightarrow> None)"

section \<open>Join keys and exact coercion\<close>

text \<open>The trailing-zero loop of \<^verbatim>\<open>join_key_normalized\<close>; the scale is the loop bound.\<close>

fun strip_zeros :: "int \<Rightarrow> nat \<Rightarrow> int \<times> nat" where
  "strip_zeros m 0 = (m, 0)"
| "strip_zeros m (Suc s) = (if m smod 10 = 0 then strip_zeros (m sdiv 10) s else (m, Suc s))"

definition join_key_normalized :: "sql_value \<Rightarrow> sql_value result" where
  "join_key_normalized v =
    (case v of
       VInt32 a \<Rightarrow> Inr (VInt64 (word_of_int (sint a)))
     | VChar s \<Rightarrow> Inr (VVarchar s)
     | VDecimal d \<Rightarrow>
         (case strip_zeros (sint (mantissa d)) (unat (scale d)) of (m, s) \<Rightarrow>
            if s = 0 then Inr (VInt64 (word_of_int m))
            else and_then (from_i64_with_scale (word_of_int m) (of_nat s)) (\<lambda>d. Inr (VDecimal d)))
     | other \<Rightarrow> Inr other)"

definition int_to_decimal_exact :: "int \<Rightarrow> 8 word \<Rightarrow> sql_value option result" where
  "int_to_decimal_exact i s =
    (case Option.bind (checked_i 64 (10 ^ unat s)) (\<lambda>p. checked_i 64 (i * p)) of
       None \<Rightarrow> Inr None
     | Some m \<Rightarrow> and_then (from_i64_with_scale (word_of_int m) s) (\<lambda>d. Inr (Some (VDecimal d))))"

definition decimal_to_int_exact :: "decimal \<Rightarrow> int option result" where
  "decimal_to_int_exact d =
    (let divisor = wrap_i 64 (10 ^ unat (scale d)) in
     if divisor = 0 then Inl Panic
     else if sint (mantissa d) smod divisor = 0 then Inr (Some (sint (mantissa d) sdiv divisor))
     else Inr None)"

definition rescale_decimal_exact :: "decimal \<Rightarrow> 8 word \<Rightarrow> sql_value option result" where
  "rescale_decimal_exact d s =
    (if s > scale d then
       (case Option.bind (checked_i 64 (10 ^ unat (s - scale d)))
               (\<lambda>factor. checked_i 64 (sint (mantissa d) * factor)) of
          None \<Rightarrow> Inr None
        | Some m \<Rightarrow> and_then (from_i64_with_scale (word_of_int m) s) (\<lambda>d. Inr (Some (VDecimal d))))
     else let factor = wrap_i 64 (10 ^ unat (scale d - s)) in
       if factor = 0 then Inl Panic
       else if sint (mantissa d) smod factor = 0
       then and_then (from_i64_with_scale (word_of_int (sint (mantissa d) sdiv factor)) s)
              (\<lambda>d. Inr (Some (VDecimal d)))
       else Inr None)"

definition i32_try_from :: "int \<Rightarrow> sql_value option" where
  "i32_try_from n = map_option (\<lambda>m. VInt32 (word_of_int m)) (checked_i 32 n)"

definition coerce_exact :: "sql_value \<Rightarrow> column_type \<Rightarrow> sql_value option result" where
  "coerce_exact v ty =
    (case (v, ty) of
       (VInt64 n, TInt32) \<Rightarrow> Inr (i32_try_from (sint n))
     | (VInt32 n, TInt64) \<Rightarrow> Inr (Some (VInt64 (word_of_int (sint n))))
     | (VInt32 n, TDecimal _ s) \<Rightarrow> int_to_decimal_exact (sint n) s
     | (VInt64 n, TDecimal _ s) \<Rightarrow> int_to_decimal_exact (sint n) s
     | (VDecimal d, TInt32) \<Rightarrow>
         and_then (decimal_to_int_exact d) (\<lambda>n. Inr (Option.bind n i32_try_from))
     | (VDecimal d, TInt64) \<Rightarrow>
         and_then (decimal_to_int_exact d) (\<lambda>n. Inr (map_option (\<lambda>n. VInt64 (word_of_int n)) n))
     | (VDecimal d, TDecimal _ s) \<Rightarrow>
         if scale d \<noteq> s then rescale_decimal_exact d s
         else Inr (if value_matches v ty then Some v else None)
     | (VVarchar s, TChar _) \<Rightarrow> Inr (Some (VChar s))
     | (VChar s, TVarchar _) \<Rightarrow> Inr (Some (VVarchar s))
     | _ \<Rightarrow> Inr (if value_matches v ty then Some v else None))"

section \<open>Well-formed values and the number a value denotes\<close>

definition value_ok :: "sql_value \<Rightarrow> bool" where
  "value_ok v = (case v of VVarchar s \<Rightarrow> utf8_valid s | VChar s \<Rightarrow> utf8_valid s
                 | VDecimal d \<Rightarrow> dec_ok d | _ \<Rightarrow> True)"

definition type_ok :: "column_type \<Rightarrow> bool" where
  "type_ok ty = (case ty of TDecimal p s \<Rightarrow> s \<le> MAX_SCALE | _ \<Rightarrow> True)"

definition num_val :: "sql_value \<Rightarrow> rat option" where
  "num_val v = (case v of VInt32 a \<Rightarrow> Some (of_int (sint a)) | VInt64 a \<Rightarrow> Some (of_int (sint a))
                | VDecimal d \<Rightarrow> Some (dec_val d) | _ \<Rightarrow> None)"

lemma cmp_fraction:
  assumes "0 < (p::int)" "0 < (q::int)"
  shows "cmp (a * q) (b * p) = cmp (of_int a / of_int p :: rat) (of_int b / of_int q)"
proof -
  have "(of_int a / of_int p :: rat) < of_int b / of_int q \<longleftrightarrow> (of_int (a * q) :: rat) < of_int (b * p)"
    using assms by (simp add: divide_simps mult.commute)
  moreover have "(of_int a / of_int p :: rat) = of_int b / of_int q \<longleftrightarrow> (of_int (a * q) :: rat) = of_int (b * p)"
    using assms by (simp add: divide_simps mult.commute)
  ultimately show ?thesis
    unfolding cmp_eq_cmp_iff by (simp only: of_int_less_iff of_int_eq_iff)
qed

lemma pow10_i128_eq: "s \<le> MAX_SCALE \<Longrightarrow> pow10_i128 s = 10 ^ unat s"
  by (simp add: pow10_i128_def MAX_SCALE_def word_le_nat_alt wrap_i_id pow10_in_i128)

lemma compare_decimals_val:
  assumes "dec_ok a" "dec_ok b"
  shows "compare_decimals a b = cmp (dec_val a) (dec_val b)"
proof -
  have w: "wrap_i 128 (sint (mantissa c) * pow10_i128 s) = sint (mantissa c) * 10 ^ unat s"
    if "s \<le> MAX_SCALE" for c :: decimal and s
    using that mult_pow10_in_i128 [OF abs_sint64, of "unat s" "mantissa c"]
    by (simp add: pow10_i128_eq wrap_i_id MAX_SCALE_def word_le_nat_alt)
  have c: "cmp (sint (mantissa a) * 10 ^ unat (scale b)) (sint (mantissa b) * 10 ^ unat (scale a)) =
      cmp (dec_val a) (dec_val b)"
    using cmp_fraction [of "10 ^ unat (scale a)" "10 ^ unat (scale b)" "sint (mantissa a)" "sint (mantissa b)"]
    by (simp add: dec_val_def)
  have s: "scale a \<le> MAX_SCALE" "scale b \<le> MAX_SCALE" using assms by (simp_all add: dec_ok_def)
  show ?thesis
    using w [OF s(2), of a] w [OF s(1), of b] c
    by (auto simp: compare_decimals_def cmp_eq_cmp_iff)
qed

lemma compare_int_decimal_val:
  assumes "dec_ok d" "\<bar>i\<bar> \<le> 2 ^ 63"
  shows "compare_int_decimal i d = cmp (of_int i) (dec_val d)"
proof -
  have "wrap_i 128 (i * pow10_i128 (scale d)) = i * 10 ^ unat (scale d)"
    using assms mult_pow10_in_i128 [OF assms(2), of "unat (scale d)"]
    by (simp add: dec_ok_unat pow10_i128_def wrap_i_id pow10_in_i128)
  then show ?thesis
    using cmp_fraction [of 1 "10 ^ unat (scale d)" i "sint (mantissa d)"]
    by (simp add: compare_int_decimal_def dec_val_def)
qed

lemma abs_sint32: "\<bar>sint (w :: 32 word)\<bar> \<le> 2 ^ 63"
  using sint_ge [of w] sint_lt [of w] by (simp add: abs_if)

lemma compare_sql_num:
  assumes "value_ok v" "value_ok w" "num_val v = Some x" "num_val w = Some y"
  shows "compare_sql v w = Some (cmp x y)"
  using assms
  by (cases v; cases w)
    (auto simp: num_val_def value_ok_def compare_sql_def compare_decimals_val
      compare_int_decimal_val [OF _ abs_sint64] compare_int_decimal_val [OF _ abs_sint32] cmp_eq_cmp_iff)

lemma compare_sql_not_num:
  "num_val v = None \<Longrightarrow> num_val w = Some y \<Longrightarrow> compare_sql v w = None"
  "num_val v = Some y \<Longrightarrow> num_val w = None \<Longrightarrow> compare_sql v w = None"
  by (cases v; cases w; auto simp: num_val_def compare_sql_def)+

section \<open>Join keys\<close>

lemma smod_eq_0_iff: "(m::int) smod d = 0 \<longleftrightarrow> d dvd m"
  by (cases "m = 0") (auto simp: signed_modulo_int_def sgn_0_0 simp flip: dvd_eq_mod_eq_0)

lemma sdiv_dvd: "(d::int) dvd m \<Longrightarrow> m sdiv d * d = m"
  using sdiv_mult_smod_eq [of m d] smod_eq_0_iff [of m d] by simp

lemma strip_zeros_spec:
  "strip_zeros m s = (m', s') \<Longrightarrow>
   s' \<le> s \<and> m = m' * 10 ^ (s - s') \<and> (s' = 0 \<or> \<not> 10 dvd m')"
proof (induction m s rule: strip_zeros.induct)
  case (2 m s)
  show ?case
  proof (cases "m smod 10 = 0")
    case True
    then have IH: "s' \<le> s" "m sdiv 10 = m' * 10 ^ (s - s')" "s' = 0 \<or> \<not> 10 dvd m'"
      using 2 by auto
    have "m = m' * 10 ^ (s - s') * 10"
      using True sdiv_dvd [of 10 m] IH(2) by (simp add: smod_eq_0_iff)
    then show ?thesis using IH by (simp add: Suc_diff_le)
  next
    case False
    then show ?thesis using 2 by (auto simp: smod_eq_0_iff)
  qed
qed simp

lemma strip_zeros_in_range:
  "strip_zeros m s = (m', s') \<Longrightarrow> \<bar>m'\<bar> \<le> \<bar>m\<bar>"
  using strip_zeros_spec [of m s m' s'] by (simp add: abs_mult mult_le_cancel_left1)

lemma normal_fraction_unique:
  assumes "(m::int) * 10 ^ t = n * 10 ^ s"
    and "s = 0 \<or> \<not> 10 dvd m" "t = 0 \<or> \<not> 10 dvd n"
  shows "m = n \<and> s = t"
proof -
  have aux: "s = t" if le: "s \<le> t" and eq: "(m::int) * 10 ^ t = n * 10 ^ s" and nf: "t = 0 \<or> \<not> 10 dvd n" for s t m n
  proof (rule ccontr)
    assume ne: "s \<noteq> t"
    then obtain k where t: "t = s + Suc k"
      using le by (auto simp: le_less less_iff_Suc_add)
    then have "n = 10 * (m * 10 ^ k)" using eq by (simp add: power_add)
    then show False using nf t by simp
  qed
  have "s = t"
    using aux [of s t m n] aux [of t s n m] assms by (cases "s \<le> t") auto
  then show ?thesis using assms(1) by simp
qed

definition num_norm :: "sql_value \<Rightarrow> int \<times> nat" where
  "num_norm v = (case v of VInt32 a \<Rightarrow> (sint a, 0) | VInt64 a \<Rightarrow> (sint a, 0)
                 | VDecimal d \<Rightarrow> strip_zeros (sint (mantissa d)) (unat (scale d)) | _ \<Rightarrow> (0, 0))"

definition num_key :: "int \<times> nat \<Rightarrow> sql_value" where
  "num_key p = (if snd p = 0 then VInt64 (word_of_int (fst p))
                else VDecimal \<lparr>mantissa = word_of_int (fst p), scale = of_nat (snd p)\<rparr>)"

lemma word_of_int64_eq_iff:
  "in_i 64 m \<Longrightarrow> in_i 64 n \<Longrightarrow> ((word_of_int m :: 64 word) = word_of_int n) = (m = n)"
  using sint_of_int64 by metis

lemma num_key_inj:
  assumes "in_i 64 (fst p)" "in_i 64 (fst q)" "snd p \<le> 18" "snd q \<le> 18"
  shows "num_key p = num_key q \<longleftrightarrow> p = q"
proof -
  have "((of_nat (snd p) :: 8 word) = of_nat (snd q)) = (snd p = snd q)"
    using assms(3,4) by (simp add: word_unat_eq_iff unat_of_nat)
  then show ?thesis
    using assms by (cases p; cases q) (auto simp: num_key_def word_of_int64_eq_iff)
qed

lemma num_norm_bounds:
  assumes "value_ok v" "num_val v \<noteq> None"
  shows "in_i 64 (fst (num_norm v))" "snd (num_norm v) \<le> 18"
    "snd (num_norm v) = 0 \<or> \<not> 10 dvd fst (num_norm v)"
    "num_val v = Some (of_int (fst (num_norm v)) / 10 ^ snd (num_norm v))"
proof -
  consider (i32) a where "v = VInt32 a" | (i64) a where "v = VInt64 a" | (dec) d where "v = VDecimal d"
    using assms(2) by (cases v) (auto simp: num_val_def)
  then have "in_i 64 (fst (num_norm v)) \<and> snd (num_norm v) \<le> 18 \<and>
    (snd (num_norm v) = 0 \<or> \<not> 10 dvd fst (num_norm v)) \<and>
    num_val v = Some (of_int (fst (num_norm v)) / 10 ^ snd (num_norm v))"
  proof cases
    case i32
    then show ?thesis using in_i_sint32 [of a] by (simp add: num_norm_def num_val_def in_i_def)
  next
    case i64
    then show ?thesis using in_i_sint64 [of a] by (simp add: num_norm_def num_val_def)
  next
    case dec
    obtain m s where ms: "strip_zeros (sint (mantissa d)) (unat (scale d)) = (m, s)" by fastforce
    note sp = strip_zeros_spec [OF ms]
    have ok: "unat (scale d) \<le> 18" using assms(1) dec by (simp add: value_ok_def dec_ok_unat)
    have "in_i 64 m"
    proof (cases "unat (scale d) = s")
      case True
      then show ?thesis using sp in_i_sint64 [of "mantissa d"] by simp
    next
      case False
      then have "10 * \<bar>m\<bar> \<le> \<bar>m\<bar> * 10 ^ (unat (scale d) - s)"
        using sp by (cases "unat (scale d) - s") (auto simp: mult_le_cancel_left1 simp flip: mult.assoc)
      also have "\<dots> = \<bar>sint (mantissa d)\<bar>" using sp by (simp add: abs_mult)
      also have "\<dots> \<le> 2 ^ 63" by (rule abs_sint64)
      finally show ?thesis by (simp add: in_i_def abs_if split: if_splits)
    qed
    moreover have "dec_val d = of_int m / 10 ^ s"
      using sp power_diff [of "10::rat" s "unat (scale d)"] by (simp add: dec_val_def)
    ultimately show ?thesis
      using dec ms sp ok by (auto simp: num_norm_def num_val_def)
  qed
  then show "in_i 64 (fst (num_norm v))" "snd (num_norm v) \<le> 18"
    "snd (num_norm v) = 0 \<or> \<not> 10 dvd fst (num_norm v)"
    "num_val v = Some (of_int (fst (num_norm v)) / 10 ^ snd (num_norm v))" by auto
qed

lemma join_key_num:
  assumes "value_ok v" "num_val v \<noteq> None"
  shows "join_key_normalized v = Inr (num_key (num_norm v))"
proof -
  have "snd (num_norm v) \<le> 18" by (rule num_norm_bounds [OF assms])
  then have "(of_nat (snd (num_norm v)) :: 8 word) \<le> MAX_SCALE"
    by (simp add: MAX_SCALE_def word_le_nat_alt unat_of_nat)
  then show ?thesis
    using assms(2) by (cases v)
      (auto simp: num_val_def join_key_normalized_def num_norm_def num_key_def from_i64_with_scale_def
        split: prod.splits)
qed

lemma num_key_eq_iff:
  assumes "value_ok v" "value_ok w" "num_val v \<noteq> None" "num_val w \<noteq> None"
  shows "num_key (num_norm v) = num_key (num_norm w) \<longleftrightarrow> num_val v = num_val w"
proof -
  obtain m s n t where nv: "num_norm v = (m, s)" and nw: "num_norm w = (n, t)" by fastforce
  note bv = num_norm_bounds [OF assms(1,3), unfolded nv fst_conv snd_conv]
  note bw = num_norm_bounds [OF assms(2,4), unfolded nw fst_conv snd_conv]
  have "(of_int m / 10 ^ s :: rat) = of_int n / 10 ^ t \<longleftrightarrow> (of_int (m * 10 ^ t) :: rat) = of_int (n * 10 ^ s)"
    by (simp add: divide_simps mult.commute)
  then have "num_val v = num_val w \<longleftrightarrow> m * 10 ^ t = n * 10 ^ s"
    using bv(4) bw(4) by (simp only: of_int_eq_iff option.inject)
  also have "\<dots> \<longleftrightarrow> m = n \<and> s = t"
    using normal_fraction_unique [OF _ bv(3) bw(3)] by auto
  also have "\<dots> \<longleftrightarrow> num_key (num_norm v) = num_key (num_norm w)"
    using num_key_inj [of "(m, s)" "(n, t)"] bv(1,2) bw(1,2) by (simp add: nv nw)
  finally show ?thesis by simp
qed

lemma join_key_other:
  "num_val v = None \<Longrightarrow> join_key_normalized v = Inr (case v of VChar s \<Rightarrow> VVarchar s | _ \<Rightarrow> v)"
  by (cases v) (auto simp: num_val_def join_key_normalized_def)

lemma join_key_shape:
  "value_ok v \<Longrightarrow> \<exists>u. join_key_normalized v = Inr u \<and> (num_val u = None \<longleftrightarrow> num_val v = None)"
  using join_key_num [of v] join_key_other [of v]
  by (cases "num_val v = None"; cases v) (auto simp: num_val_def num_key_def)

lemma compare_sql_Equal_iff_join_key:
  assumes "value_ok v" "value_ok w"
  shows "compare_sql v w = Some Equal \<longleftrightarrow>
    v \<noteq> VNull \<and> join_key_normalized v = join_key_normalized w"
proof (cases "num_val v = None \<or> num_val w = None")
  case False
  then obtain x y where xy: "num_val v = Some x" "num_val w = Some y" by auto
  then have "v \<noteq> VNull" by (auto simp: num_val_def)
  then show ?thesis
    using xy assms compare_sql_num [OF assms xy] num_key_eq_iff [OF assms] by (simp add: join_key_num)
next
  case True
  show ?thesis
  proof (cases "num_val v = None \<and> num_val w = None")
    case True
    then show ?thesis
      by (cases v; cases w) (auto simp: num_val_def compare_sql_def join_key_normalized_def simp flip: word_eq_iff_signed)
  next
    case False
    with True have "join_key_normalized v \<noteq> join_key_normalized w"
      using join_key_shape [OF assms(1)] join_key_shape [OF assms(2)] by auto
    moreover have "compare_sql v w = None"
      using True False compare_sql_not_num by (cases "num_val v"; cases "num_val w") auto
    ultimately show ?thesis by simp
  qed
qed

section \<open>Exact coercion\<close>

lemma in_i64_pow10: "in_i 64 (10 ^ n) \<longleftrightarrow> n \<le> 18"
proof
  assume "in_i 64 (10 ^ n)"
  then have "(10::int) ^ n < 10 ^ 19" by (simp add: in_i_def)
  then have "n < 19" by (rule power_less_imp_less_exp [rotated]) simp
  then show "n \<le> 18" by simp
next
  assume "n \<le> 18"
  then have "(10::int) ^ n \<le> 10 ^ 18" by (rule power10_le_18)
  moreover have "- (2 ^ 63) \<le> (10::int) ^ n" by (rule order_trans [of _ 0]) simp_all
  ultimately show "in_i 64 (10 ^ n)" by (simp add: in_i_def)
qed

lemma unat_MAX_SCALE: "s \<le> MAX_SCALE \<longleftrightarrow> unat s \<le> 18"
  by (simp add: MAX_SCALE_def word_le_nat_alt)

lemma dec_val_eq_of_int: "dec_val d = of_int i \<longleftrightarrow> sint (mantissa d) = i * 10 ^ unat (scale d)"
proof -
  have "dec_val d = of_int i \<longleftrightarrow> (of_int (sint (mantissa d)) :: rat) = of_int (i * 10 ^ unat (scale d))"
    by (simp add: dec_val_def divide_eq_eq)
  then show ?thesis by (simp only: of_int_eq_iff)
qed

lemma dec_val_eq:
  assumes "unat (scale a) \<le> unat (scale b)"
  shows "dec_val a = dec_val b \<longleftrightarrow>
    sint (mantissa b) = sint (mantissa a) * 10 ^ (unat (scale b) - unat (scale a))"
proof -
  let ?k = "unat (scale b) - unat (scale a)"
  have "dec_val a = of_int (sint (mantissa a) * 10 ^ ?k) / 10 ^ unat (scale b)"
    using assms power_diff [of "10::rat" "unat (scale a)" "unat (scale b)"] by (simp add: dec_val_def)
  then have "dec_val a = dec_val b \<longleftrightarrow>
      (of_int (sint (mantissa b)) :: rat) = of_int (sint (mantissa a) * 10 ^ ?k)"
    by (auto simp: dec_val_def)
  then show ?thesis by (simp only: of_int_eq_iff)
qed

definition coercion_correct :: "sql_value \<Rightarrow> column_type \<Rightarrow> sql_value option result \<Rightarrow> bool" where
  "coercion_correct v ty r \<longleftrightarrow>
    (case r of
       Inl _ \<Rightarrow> False
     | Inr (Some w) \<Rightarrow> value_matches w ty \<and> value_ok w \<and>
         (if v = VNull then w = VNull else compare_sql v w = Some Equal)
     | Inr None \<Rightarrow> \<forall>w. value_ok w \<longrightarrow> value_matches w ty \<longrightarrow> compare_sql v w \<noteq> Some Equal)"

lemma compare_sql_num_Equal:
  assumes "value_ok v" "value_ok w" "num_val v = Some x" "num_val w = Some y"
  shows "compare_sql v w = Some Equal \<longleftrightarrow> x = y"
  using compare_sql_num [OF assms] by simp

lemma int_to_decimal_correct:
  assumes "num_val v = Some (of_int i)" "value_ok v" "s \<le> MAX_SCALE"
  shows "coercion_correct v (TDecimal p s) (int_to_decimal_exact i s)"
proof -
  have v: "v \<noteq> VNull" using assms(1) by (auto simp: num_val_def)
  have p: "in_i 64 (10 ^ unat s)" using assms(3) by (simp add: in_i64_pow10 unat_MAX_SCALE)
  have eq: "compare_sql v (VDecimal d) = Some Equal \<longleftrightarrow> sint (mantissa d) = i * 10 ^ unat s"
    if "scale d = s" for d
    using compare_sql_num_Equal [OF assms(2) _ assms(1), of "VDecimal d" "dec_val d"] that assms(3)
      dec_val_eq_of_int [of d i] by (auto simp: value_ok_def dec_ok_def num_val_def)
  have notdec: "compare_sql v VNull = None" by (cases v) (auto simp: compare_sql_def)
  show ?thesis
  proof (cases "in_i 64 (i * 10 ^ unat s)")
    case True
    then show ?thesis
      using p assms(3) v eq sint_of_int64 [OF True]
      by (simp add: coercion_correct_def int_to_decimal_exact_def checked_i_def
          from_i64_with_scale_def value_matches_def value_ok_def dec_ok_def)
  next
    case False
    then have "sint x \<noteq> i * 10 ^ unat s" for x :: "64 word" by (metis in_i_sint64)
    then have "compare_sql v w \<noteq> Some Equal" if "value_matches w (TDecimal p s)" for w
      using that eq notdec by (cases w) (auto simp: value_matches_def)
    then show ?thesis using False p
      by (simp add: coercion_correct_def int_to_decimal_exact_def checked_i_def)
  qed
qed

lemma wrap_i64_pow10: "n \<le> 18 \<Longrightarrow> wrap_i 64 (10 ^ n) = 10 ^ n"
  by (simp add: wrap_i_id in_i64_pow10)

lemma sdiv_pow10_in_i64:
  assumes "(10 ^ n :: int) dvd sint (w :: 64 word)"
  shows "in_i 64 (sint w sdiv 10 ^ n)"
proof -
  define q where "q = sint w sdiv 10 ^ n"
  have w: "sint w = q * 10 ^ n" using sdiv_dvd [OF assms] by (simp add: q_def)
  have "\<bar>q\<bar> \<le> \<bar>sint w\<bar>" "q \<le> 0 \<longleftrightarrow> sint w \<le> 0"
    by (simp_all add: w abs_mult mult_le_cancel_left1 mult_le_0_iff power_le_zero_eq)
  then show ?thesis
    using in_i_sint64 [of w] by (simp add: in_i_def abs_if q_def [symmetric] split: if_splits)
qed

lemma decimal_to_int_exact_eq:
  assumes "dec_ok d"
  shows "decimal_to_int_exact d =
    Inr (if 10 ^ unat (scale d) dvd sint (mantissa d)
         then Some (sint (mantissa d) sdiv 10 ^ unat (scale d)) else None)"
  using assms by (simp add: decimal_to_int_exact_def dec_ok_unat wrap_i64_pow10 smod_eq_0_iff)

lemma compare_dec_int:
  assumes "dec_ok d" "value_ok w" "num_val w = Some (of_int i)"
  shows "compare_sql (VDecimal d) w = Some Equal \<longleftrightarrow> sint (mantissa d) = i * 10 ^ unat (scale d)"
  using compare_sql_num_Equal [of "VDecimal d" w "dec_val d" "of_int i"] assms dec_val_eq_of_int
  by (simp add: value_ok_def num_val_def)

lemma decimal_to_i64_correct:
  assumes "dec_ok d"
  shows "coercion_correct (VDecimal d) TInt64 (coerce_exact (VDecimal d) TInt64)"
proof (cases "10 ^ unat (scale d) dvd sint (mantissa d)")
  case True
  let ?q = "sint (mantissa d) sdiv 10 ^ unat (scale d)"
  have "compare_sql (VDecimal d) (VInt64 (word_of_int ?q)) = Some Equal"
    using compare_dec_int [OF assms, of "VInt64 (word_of_int ?q)" ?q] sdiv_dvd [OF True]
    by (simp add: value_ok_def num_val_def sint_of_int64 sdiv_pow10_in_i64 [OF True])
  then show ?thesis
    using True assms by (simp add: coercion_correct_def coerce_exact_def decimal_to_int_exact_eq
        value_matches_def value_ok_def)
next
  case False
  then have "compare_sql (VDecimal d) w \<noteq> Some Equal" if "value_matches w TInt64" for w
    using that compare_dec_int [OF assms, of w]
    by (cases w) (auto simp: value_matches_def value_ok_def num_val_def compare_sql_def)
  then show ?thesis
    using False assms by (simp add: coercion_correct_def coerce_exact_def decimal_to_int_exact_eq)
qed

lemma decimal_to_i32_correct:
  assumes "dec_ok d"
  shows "coercion_correct (VDecimal d) TInt32 (coerce_exact (VDecimal d) TInt32)"
proof -
  let ?q = "sint (mantissa d) sdiv 10 ^ unat (scale d)"
  have eq: "compare_sql (VDecimal d) (VInt32 w) = Some Equal \<longleftrightarrow> sint (mantissa d) = sint w * 10 ^ unat (scale d)" for w
    using compare_dec_int [OF assms, of "VInt32 w" "sint w"] by (simp add: value_ok_def num_val_def)
  show ?thesis
  proof (cases "10 ^ unat (scale d) dvd sint (mantissa d) \<and> in_i 32 ?q")
    case True
    then show ?thesis
      using assms eq sdiv_dvd [of "10 ^ unat (scale d)" "sint (mantissa d)"]
      by (simp add: coercion_correct_def coerce_exact_def decimal_to_int_exact_eq i32_try_from_def
          checked_i_def value_matches_def value_ok_def sint_of_int32)
  next
    case False
    have "sint (mantissa d) \<noteq> sint w * 10 ^ unat (scale d)" for w :: "32 word"
    proof
      assume a: "sint (mantissa d) = sint w * 10 ^ unat (scale d)"
      then have dv: "10 ^ unat (scale d) dvd sint (mantissa d)" by simp
      have "?q * 10 ^ unat (scale d) = sint w * 10 ^ unat (scale d)"
        using sdiv_dvd [OF dv] a by simp
      then have "?q = sint w" by simp
      then show False using False dv by simp
    qed
    then have "compare_sql (VDecimal d) w \<noteq> Some Equal" if "value_matches w TInt32" for w
      using that eq by (cases w) (auto simp: value_matches_def compare_sql_def)
    then show ?thesis
      using False assms by (auto simp: coercion_correct_def coerce_exact_def decimal_to_int_exact_eq
          i32_try_from_def checked_i_def)
  qed
qed

lemma compare_dec_dec:
  assumes "dec_ok a" "dec_ok b" "unat (scale a) \<le> unat (scale b)"
  shows "compare_sql (VDecimal a) (VDecimal b) = Some Equal \<longleftrightarrow>
      sint (mantissa b) = sint (mantissa a) * 10 ^ (unat (scale b) - unat (scale a))"
    and "compare_sql (VDecimal b) (VDecimal a) = Some Equal \<longleftrightarrow>
      sint (mantissa b) = sint (mantissa a) * 10 ^ (unat (scale b) - unat (scale a))"
  using assms dec_val_eq [OF assms(3)] by (auto simp: compare_sql_def compare_decimals_val)

lemma unat_scale_diff: "s \<le> t \<Longrightarrow> unat (t - s :: 8 word) = unat t - unat s"
  by (simp add: unat_sub_if_size word_le_nat_alt)

lemma value_matches_TDecimal:
  "value_matches w (TDecimal p s) \<longleftrightarrow> w = VNull \<or> (\<exists>d. w = VDecimal d \<and> scale d = s)"
  by (cases w) (auto simp: value_matches_def)

lemma rescale_decimal_correct:
  assumes "dec_ok d" "s \<le> MAX_SCALE"
  shows "coercion_correct (VDecimal d) (TDecimal p s) (rescale_decimal_exact d s)"
proof (cases "s > scale d")
  case True
  define k where "k = unat s - unat (scale d)"
  have k: "k \<le> 18" "unat (s - scale d) = k"
    using assms(2) True by (auto simp: k_def unat_MAX_SCALE unat_scale_diff)
  have eq: "compare_sql (VDecimal d) (VDecimal e) = Some Equal \<longleftrightarrow> sint (mantissa e) = sint (mantissa d) * 10 ^ k"
    if "scale e = s" for e
    using compare_dec_dec(1) [of d e] that assms True
    by (simp add: k_def dec_ok_def word_less_nat_alt)
  show ?thesis
  proof (cases "in_i 64 (sint (mantissa d) * 10 ^ k)")
    case inr: True
    then show ?thesis
      using True assms k eq sint_of_int64 [OF inr]
      by (simp add: coercion_correct_def rescale_decimal_exact_def checked_i_def in_i64_pow10
          from_i64_with_scale_def value_matches_def value_ok_def dec_ok_def)
  next
    case False
    then have "sint x \<noteq> sint (mantissa d) * 10 ^ k" for x :: "64 word" by (metis in_i_sint64)
    then have "compare_sql (VDecimal d) w \<noteq> Some Equal" if "value_matches w (TDecimal p s)" for w
      using that eq by (auto simp: value_matches_TDecimal compare_sql_def)
    then show ?thesis
      using True False k by (simp add: coercion_correct_def rescale_decimal_exact_def checked_i_def in_i64_pow10)
  qed
next
  case False
  define k where "k = unat (scale d) - unat s"
  have k: "k \<le> 18" "unat (scale d - s) = k"
    using assms(1) False by (auto simp: k_def dec_ok_unat unat_scale_diff not_less)
  have eq: "compare_sql (VDecimal d) (VDecimal e) = Some Equal \<longleftrightarrow> sint (mantissa d) = sint (mantissa e) * 10 ^ k"
    if "scale e = s" for e
    using compare_dec_dec(2) [of e d] that assms False
    by (simp add: k_def dec_ok_def not_less word_le_nat_alt)
  have nz: "wrap_i 64 (10 ^ k) = (10::int) ^ k" by (rule wrap_i64_pow10 [OF k(1)])
  show ?thesis
  proof (cases "10 ^ k dvd sint (mantissa d)")
    case dv: True
    define e where "e = \<lparr>mantissa = word_of_int (sint (mantissa d) sdiv 10 ^ k), scale = s\<rparr>"
    have "compare_sql (VDecimal d) (VDecimal e) = Some Equal"
      using eq [of e] sdiv_dvd [OF dv] by (simp add: e_def sint_of_int64 sdiv_pow10_in_i64 [OF dv])
    moreover have "rescale_decimal_exact d s = Inr (Some (VDecimal e))"
      using False dv assms(2) by (simp add: rescale_decimal_exact_def k nz smod_eq_0_iff
          from_i64_with_scale_def e_def)
    ultimately show ?thesis
      using assms(2) by (simp add: coercion_correct_def value_matches_TDecimal value_ok_def dec_ok_def e_def)
  next
    case ndv: False
    have "compare_sql (VDecimal d) w \<noteq> Some Equal" if "value_matches w (TDecimal p s)" for w
      using that eq ndv by (auto simp: value_matches_TDecimal compare_sql_def)
    then show ?thesis
      using False ndv by (simp add: coercion_correct_def rescale_decimal_exact_def k nz smod_eq_0_iff)
  qed
qed

lemma i64_to_i32_correct: "coercion_correct (VInt64 n) TInt32 (Inr (i32_try_from (sint n)))"
proof (cases "in_i 32 (sint n)")
  case True
  then show ?thesis
    by (simp add: coercion_correct_def i32_try_from_def checked_i_def value_matches_def value_ok_def
        compare_sql_def sint_of_int32)
next
  case False
  have "compare_sql (VInt64 n) w \<noteq> Some Equal" if "value_matches w TInt32" for w
    using that False in_i_sint32 by (cases w) (auto simp: value_matches_def compare_sql_def)
  then show ?thesis using False
    by (simp add: coercion_correct_def i32_try_from_def checked_i_def)
qed

lemma i32_to_i64_correct: "coercion_correct (VInt32 n) TInt64 (coerce_exact (VInt32 n) TInt64)"
proof -
  have "in_i 64 (sint n)" using in_i_sint32 [of n] by (simp add: in_i_def)
  then have "sint (word_of_int (sint n) :: 64 word) = sint n" by (rule sint_of_int64)
  then show ?thesis
    by (simp add: coercion_correct_def coerce_exact_def value_matches_def value_ok_def compare_sql_def)
qed

lemma compare_sql_refl_Equal: "value_ok v \<Longrightarrow> v \<noteq> VNull \<Longrightarrow> compare_sql v v = Some Equal"
  using compare_sql_Equal_iff_join_key [of v v] by simp

definition comparison_class :: "column_type \<Rightarrow> nat" where
  "comparison_class ty = (case ty of TInt32 \<Rightarrow> 0 | TInt64 \<Rightarrow> 0 | TDecimal _ _ \<Rightarrow> 0 | TVarchar _ \<Rightarrow> 1
    | TChar _ \<Rightarrow> 1 | TBytes _ \<Rightarrow> 2 | TTimestamp \<Rightarrow> 3 | TBoolean \<Rightarrow> 4 | TDate \<Rightarrow> 5)"

lemma compare_sql_comparison_class:
  "compare_sql v w = Some c \<Longrightarrow> map_option comparison_class (type_of v) = map_option comparison_class (type_of w)"
  by (cases v; cases w) (auto simp: compare_sql_def comparison_class_def type_of_def)

lemma value_matches_comparison_class:
  "value_matches w ty \<Longrightarrow> w = VNull \<or> map_option comparison_class (type_of w) = Some (comparison_class ty)"
  by (cases w; cases ty) (auto simp: value_matches_def comparison_class_def type_of_def)

lemma compare_sql_VNull [simp]: "compare_sql v VNull = None" "compare_sql VNull v = None"
  by (cases v; simp add: compare_sql_def)+

lemma coerce_exact_pass:
  assumes "value_ok v" "coerce_exact v ty = Inr (if value_matches v ty then Some v else None)"
    and "value_matches v ty \<or> map_option comparison_class (type_of v) \<noteq> Some (comparison_class ty)"
  shows "coercion_correct v ty (coerce_exact v ty)"
proof -
  have "compare_sql v w \<noteq> Some Equal" if "value_matches w ty" "\<not> value_matches v ty" for w
    using that assms(3) compare_sql_comparison_class [of v w] value_matches_comparison_class [of w ty]
    by force
  then show ?thesis
    using assms(1,2) compare_sql_refl_Equal [OF assms(1)] by (auto simp: coercion_correct_def)
qed

lemma int_coerce_correct:
  assumes "type_ok ty"
  shows "coercion_correct (VInt32 n) ty (coerce_exact (VInt32 n) ty)"
    and "coercion_correct (VInt64 m) ty (coerce_exact (VInt64 m) ty)"
proof -
  show "coercion_correct (VInt32 n) ty (coerce_exact (VInt32 n) ty)"
  proof (cases "(\<exists>p s. ty = TDecimal p s) \<or> ty = TInt64")
    case True
    then show ?thesis
      using assms int_to_decimal_correct [of "VInt32 n" "sint n"] i32_to_i64_correct
      by (auto simp: coerce_exact_def num_val_def value_ok_def type_ok_def)
  next
    case False
    then show ?thesis
      by (intro coerce_exact_pass; cases ty)
        (auto simp: coerce_exact_def value_ok_def value_matches_def comparison_class_def type_of_def)
  qed
  show "coercion_correct (VInt64 m) ty (coerce_exact (VInt64 m) ty)"
  proof (cases "(\<exists>p s. ty = TDecimal p s) \<or> ty = TInt32")
    case True
    then show ?thesis
      using assms int_to_decimal_correct [of "VInt64 m" "sint m"] i64_to_i32_correct
      by (auto simp: coerce_exact_def num_val_def value_ok_def type_ok_def)
  next
    case False
    then show ?thesis
      by (intro coerce_exact_pass; cases ty)
        (auto simp: coerce_exact_def value_ok_def value_matches_def comparison_class_def type_of_def)
  qed
qed

lemma decimal_coerce_correct:
  assumes "type_ok ty" "dec_ok d"
  shows "coercion_correct (VDecimal d) ty (coerce_exact (VDecimal d) ty)"
proof (cases "(\<exists>p s. ty = TDecimal p s \<and> scale d \<noteq> s) \<or> ty = TInt32 \<or> ty = TInt64")
  case True
  then show ?thesis
    using assms rescale_decimal_correct [OF assms(2)] decimal_to_i32_correct [OF assms(2)]
      decimal_to_i64_correct [OF assms(2)]
    by (auto simp: coerce_exact_def type_ok_def)
next
  case False
  then show ?thesis using assms
    by (intro coerce_exact_pass; cases ty)
      (auto simp: coerce_exact_def value_ok_def value_matches_def comparison_class_def type_of_def)
qed

lemma string_coerce_correct:
  assumes "utf8_valid s"
  shows "coercion_correct (VVarchar s) ty (coerce_exact (VVarchar s) ty)"
    and "coercion_correct (VChar s) ty (coerce_exact (VChar s) ty)"
  using assms
  by (cases ty; simp add: coercion_correct_def coerce_exact_def value_matches_def value_ok_def compare_sql_def
      split: sql_value.splits)+

lemma coerce_exact_correct:
  assumes "value_ok v" "type_ok ty"
  shows "coercion_correct v ty (coerce_exact v ty)"
proof -
  have "coercion_correct v ty (coerce_exact v ty)"
    if "num_val v = None" "\<forall>s. v \<noteq> VVarchar s" "\<forall>s. v \<noteq> VChar s"
    using that assms(1) by (intro coerce_exact_pass; cases v; cases ty)
      (auto simp: coerce_exact_def value_matches_def comparison_class_def type_of_def num_val_def)
  then show ?thesis
    using assms int_coerce_correct decimal_coerce_correct string_coerce_correct
    by (cases v) (auto simp: value_ok_def num_val_def)
qed

section \<open>Properties\<close>

text \<open>
  C22. SQL comparison of two numeric values, of the same or of different types (32-bit, 64-bit,
  decimal at any scale), compares the numbers they denote exactly: no rounding and no overflow.
\<close>

theorem compare_sql_exact:
  assumes "value_ok v" "value_ok w" "num_val v = Some x" "num_val w = Some y"
  shows "compare_sql v w = Some (cmp x y)"
  using assms by (rule compare_sql_num)

theorem compare_sql_exact_witness:
  "compare_sql (VInt32 2) (VDecimal \<lparr>mantissa = 199, scale = 2\<rparr>) = Some Greater"
  using compare_sql_exact [of "VInt32 2" "VDecimal \<lparr>mantissa = 199, scale = 2\<rparr>" 2 "199 / 100"]
  by (simp add: value_ok_def dec_ok_def MAX_SCALE_def num_val_def dec_val_def cmp_def)



text \<open>
  C20. Exact coercion to a column type is sound and complete: a coerced value matches the column
  and compares equal to the original (NULL stays NULL), and when coercion declines, no value of
  the column type compares equal to the original. It never fails with an error.
\<close>

theorem coerce_exact_sound_complete:
  assumes "value_ok v" "type_ok ty"
  shows "case coerce_exact v ty of
      Inl _ \<Rightarrow> False
    | Inr (Some w) \<Rightarrow> value_matches w ty \<and> value_ok w \<and>
        (if v = VNull then w = VNull else compare_sql v w = Some Equal)
    | Inr None \<Rightarrow> \<forall>w. value_ok w \<longrightarrow> value_matches w ty \<longrightarrow> compare_sql v w \<noteq> Some Equal"
  using coerce_exact_correct [OF assms] by (simp add: coercion_correct_def)

theorem coerce_exact_sound_complete_witness:
  "coerce_exact (VDecimal \<lparr>mantissa = 150, scale = 2\<rparr>) TInt32 = Inr None \<and>
   compare_sql (VDecimal \<lparr>mantissa = 150, scale = 2\<rparr>) (VInt32 1) \<noteq> Some Equal"
proof -
  have "coerce_exact (VDecimal \<lparr>mantissa = 150, scale = 2\<rparr>) TInt32 = Inr None" by code_simp
  then show ?thesis
    using coerce_exact_sound_complete [of "VDecimal \<lparr>mantissa = 150, scale = 2\<rparr>" TInt32]
    by (simp add: value_ok_def type_ok_def dec_ok_def MAX_SCALE_def value_matches_def)
qed

end
