(* ===== verification/Key_Encoding.thy ===== *)
theory Key_Encoding
  imports Values "HOL-Library.Sublist"
begin

text \<open>
  The order-preserving composite-key encoder of \<^verbatim>\<open>idb-core/src/types/keyenc.rs\<close>. A component
  is a presence sentinel followed by a per-type body; a body is described by the locale
  \<^verbatim>\<open>key_codec\<close>, whose laws are the round trip with arbitrary trailing bytes and the order
  law that lets components be concatenated. The locale is interpreted for every body encoder
  of the source and for the tagged component, and the composite encoder inherits both laws.
  The last part is about the range bounds \<^verbatim>\<open>byte_increment\<close> and \<^verbatim>\<open>prefix_increment\<close>.
\<close>

section \<open>Model\<close>

definition NULL_SENTINEL :: byte where "NULL_SENTINEL = 0x00"

definition PRESENT_SENTINEL :: byte where "PRESENT_SENTINEL = 0x01"

definition INT32_SIGN_MASK :: "32 word" where "INT32_SIGN_MASK = 0x80000000"

definition INT64_SIGN_MASK :: "64 word" where "INT64_SIGN_MASK = 0x8000000000000000"

definition encode_int32 :: "32 word \<Rightarrow> bytes \<Rightarrow> bytes" where
  "encode_int32 n out = out @ be_bytes 4 (unat (n XOR INT32_SIGN_MASK))"

definition decode_int32 :: "bytes \<Rightarrow> (32 word \<times> nat) result" where
  "decode_int32 bs =
    (if length bs < 4 then Inl StorageCorrupted
     else Inr (of_nat (be_val (take 4 bs)) XOR INT32_SIGN_MASK, 4))"

definition encode_boolean :: "bool \<Rightarrow> bytes \<Rightarrow> bytes" where
  "encode_boolean b out = out @ [if b then 0x01 else 0x00]"

definition decode_boolean :: "bytes \<Rightarrow> (bool \<times> nat) result" where
  "decode_boolean bs =
    (case bs of
       [] \<Rightarrow> Inl StorageCorrupted
     | b # _ \<Rightarrow> if b = 0x00 then Inr (False, 1) else if b = 0x01 then Inr (True, 1)
                else Inl StorageCorrupted)"

definition encode_int64 :: "64 word \<Rightarrow> bytes \<Rightarrow> bytes" where
  "encode_int64 n out = out @ be_bytes 8 (unat (n XOR INT64_SIGN_MASK))"

definition decode_int64 :: "bytes \<Rightarrow> (64 word \<times> nat) result" where
  "decode_int64 bs =
    (if length bs < 8 then Inl StorageCorrupted
     else Inr (of_nat (be_val (take 8 bs)) XOR INT64_SIGN_MASK, 8))"

definition encode_char :: "bytes \<Rightarrow> 16 word \<Rightarrow> bytes \<Rightarrow> bytes result" where
  "encode_char s target_len out =
    (if 0x00 \<in> set s then Inl StorageCorrupted
     else if length s > unat target_len then Inl StorageCorrupted
     else Inr (out @ s @ replicate (unat target_len - length s) 0x00))"

text \<open>Everything up to the last byte that is not \<^verbatim>\<open>0x00\<close> (the \<^verbatim>\<open>rposition\<close> of the source).\<close>

definition strip_trailing_nul :: "bytes \<Rightarrow> bytes" where
  "strip_trailing_nul raw = rev (dropWhile (\<lambda>b. b = 0x00) (rev raw))"

definition decode_char :: "bytes \<Rightarrow> 16 word \<Rightarrow> (bytes \<times> nat) result" where
  "decode_char bs target_len =
    (let n = unat target_len in
     if length bs < n then Inl StorageCorrupted
     else and_then (from_utf8 (strip_trailing_nul (take n bs))) (\<lambda>s. Inr (s, n)))"

primrec escape_bytes :: "bytes \<Rightarrow> bytes" where
  "escape_bytes [] = []"
| "escape_bytes (b # bs) = (if b = 0x00 then [0x00, 0xFF] else [b]) @ escape_bytes bs"

definition encode_escaped :: "bytes \<Rightarrow> bytes \<Rightarrow> bytes" where
  "encode_escaped input out = out @ escape_bytes input @ [0x00, 0x00]"

fun decode_escaped_loop :: "bytes \<Rightarrow> bytes \<Rightarrow> nat \<Rightarrow> (bytes \<times> nat) result" where
  "decode_escaped_loop [] out i = Inl StorageCorrupted"
| "decode_escaped_loop (b # rest) out i =
    (if b = 0x00 then
       (case rest of
          [] \<Rightarrow> Inl StorageCorrupted
        | c # rest' \<Rightarrow>
            if c = 0x00 then Inr (out, i + 2)
            else if c = 0xFF then decode_escaped_loop rest' (out @ [0x00]) (i + 2)
            else Inl StorageCorrupted)
     else decode_escaped_loop rest (out @ [b]) (i + 1))"

definition decode_escaped :: "bytes \<Rightarrow> (bytes \<times> nat) result" where
  "decode_escaped bs = decode_escaped_loop bs [] 0"

definition encode_one :: "sql_value \<Rightarrow> column_type \<Rightarrow> bytes \<Rightarrow> bytes result" where
  "encode_one v ty out =
    (case (v, ty) of
       (VNull, _) \<Rightarrow> Inr (out @ [NULL_SENTINEL])
     | (VInt32 n, TInt32) \<Rightarrow> Inr (encode_int32 n (out @ [PRESENT_SENTINEL]))
     | (VDate days, TDate) \<Rightarrow> Inr (encode_int32 days (out @ [PRESENT_SENTINEL]))
     | (VBoolean b, TBoolean) \<Rightarrow> Inr (encode_boolean b (out @ [PRESENT_SENTINEL]))
     | (VInt64 n, TInt64) \<Rightarrow> Inr (encode_int64 n (out @ [PRESENT_SENTINEL]))
     | (VTimestamp t, TTimestamp) \<Rightarrow> Inr (encode_int64 t (out @ [PRESENT_SENTINEL]))
     | (VDecimal d, TDecimal _ _) \<Rightarrow> Inr (encode_int64 (mantissa d) (out @ [PRESENT_SENTINEL]))
     | (VChar s, TChar n) \<Rightarrow> encode_char s n (out @ [PRESENT_SENTINEL])
     | (VVarchar s, TVarchar _) \<Rightarrow> Inr (encode_escaped s (out @ [PRESENT_SENTINEL]))
     | (VBytes b, TBytes _) \<Rightarrow> Inr (encode_escaped b (out @ [PRESENT_SENTINEL]))
     | _ \<Rightarrow> Inl StorageCorrupted)"

fun encode_components :: "(sql_value \<times> column_type) list \<Rightarrow> bytes \<Rightarrow> bytes result" where
  "encode_components [] out = Inr out"
| "encode_components ((v, t) # vts) out = and_then (encode_one v t out) (encode_components vts)"

definition encode_key_components :: "sql_value list \<Rightarrow> column_type list \<Rightarrow> bytes result" where
  "encode_key_components values types =
    (if length values \<noteq> length types then Inl StorageCorrupted
     else encode_components (zip values types) [])"

definition decode_one :: "bytes \<Rightarrow> column_type \<Rightarrow> (sql_value \<times> nat) result" where
  "decode_one bs ty =
    (case bs of
       [] \<Rightarrow> Inl StorageCorrupted
     | sentinel # body \<Rightarrow>
         if sentinel = NULL_SENTINEL then Inr (VNull, 1)
         else if sentinel \<noteq> PRESENT_SENTINEL then Inl StorageCorrupted
         else (case ty of
             TInt32 \<Rightarrow> and_then (decode_int32 body) (\<lambda>(n, c). Inr (VInt32 n, 1 + c))
           | TDate \<Rightarrow> and_then (decode_int32 body) (\<lambda>(n, c). Inr (VDate n, 1 + c))
           | TBoolean \<Rightarrow> and_then (decode_boolean body) (\<lambda>(b, c). Inr (VBoolean b, 1 + c))
           | TInt64 \<Rightarrow> and_then (decode_int64 body) (\<lambda>(n, c). Inr (VInt64 n, 1 + c))
           | TTimestamp \<Rightarrow> and_then (decode_int64 body) (\<lambda>(n, c). Inr (VTimestamp n, 1 + c))
           | TDecimal _ s \<Rightarrow> and_then (decode_int64 body) (\<lambda>(m, c).
               and_then (from_i64_with_scale m s) (\<lambda>d. Inr (VDecimal d, 1 + c)))
           | TChar n \<Rightarrow> and_then (decode_char body n) (\<lambda>(s, c). Inr (VChar s, 1 + c))
           | TVarchar _ \<Rightarrow> and_then (decode_escaped body) (\<lambda>(raw, c).
               and_then (from_utf8 raw) (\<lambda>s. Inr (VVarchar s, 1 + c)))
           | TBytes _ \<Rightarrow> and_then (decode_escaped body) (\<lambda>(raw, c). Inr (VBytes raw, 1 + c))))"

fun decode_components :: "bytes \<Rightarrow> column_type list \<Rightarrow> nat \<Rightarrow> (sql_value list \<times> nat) result" where
  "decode_components bs [] cursor = Inr ([], cursor)"
| "decode_components bs (ty # tys) cursor =
    (if cursor > length bs then Inl Panic
     else and_then (decode_one (drop cursor bs) ty) (\<lambda>(v, consumed).
       and_then (decode_components bs tys (cursor + consumed)) (\<lambda>(vs, c). Inr (v # vs, c))))"

definition decode_key_components :: "bytes \<Rightarrow> column_type list \<Rightarrow> sql_value list result" where
  "decode_key_components bs types =
    and_then (decode_components bs types 0) (\<lambda>(out, cursor).
      if cursor \<noteq> length bs then Inl StorageCorrupted else Inr out)"

definition byte_increment :: "bytes \<Rightarrow> bytes" where
  "byte_increment bs = bs @ [0x00]"

text \<open>The \<^verbatim>\<open>while let Some(last)\<close> loop, on the reversed buffer.\<close>

fun prefix_increment_loop :: "bytes \<Rightarrow> bytes option" where
  "prefix_increment_loop [] = None"
| "prefix_increment_loop (b # bs) = (if b < 0xFF then Some ((b + 1) # bs) else prefix_increment_loop bs)"

definition prefix_increment :: "bytes \<Rightarrow> bytes option" where
  "prefix_increment bs = map_option rev (prefix_increment_loop (rev bs))"

section \<open>Body codecs\<close>

locale key_codec =
  fixes enc :: "'a \<Rightarrow> bytes"
    and dec :: "bytes \<Rightarrow> ('a \<times> nat) result"
    and ok :: "'a \<Rightarrow> bool"
    and lt :: "'a \<Rightarrow> 'a \<Rightarrow> bool"
  assumes dec_enc: "ok a \<Longrightarrow> dec (enc a @ rest) = Inr (a, length (enc a))"
    and enc_order: "ok a \<Longrightarrow> ok b \<Longrightarrow> enc a @ x < enc b @ y \<longleftrightarrow> lt a b \<or> a = b \<and> x < y"
begin

lemma enc_prefix_free:
  assumes "ok a" "ok b" "enc a @ x = enc b @ y"
  shows "a = b" "x = y"
proof -
  show "a = b" using dec_enc [OF assms(1), of x] dec_enc [OF assms(2), of y] assms(3) by simp
  then show "x = y" using assms(3) by simp
qed

lemma enc_less: "ok a \<Longrightarrow> ok b \<Longrightarrow> enc a < enc b \<longleftrightarrow> lt a b"
  using enc_order [of a b "[]" "[]"] by simp

end

subsection \<open>Sign-flipped big-endian integers\<close>

lemma unat_eq_iff_word: "unat a = unat b \<longleftrightarrow> a = b"
  by (simp add: word_unat_eq_iff)

lemma xor_sign_mask32: "(w :: 32 word) XOR INT32_SIGN_MASK = w + 0x80000000"
proof -
  have "w XOR INT32_SIGN_MASK = flip_bit 31 w" by (simp add: flip_bit_eq_xor INT32_SIGN_MASK_def)
  also have "\<dots> = w + 0x80000000"
  proof (cases "bit w 31")
    case True
    have "unset_bit 31 w = w - 2 ^ 31" using True by (simp add: unset_bit_eq)
    also have "\<dots> = w + 0x80000000" by simp
    finally show ?thesis using True by (simp add: flip_bit_eq_if)
  next
    case False
    then show ?thesis by (simp add: flip_bit_eq_if set_bit_eq)
  qed
  finally show ?thesis .
qed

lemma unat_sign_flip32: "unat ((w :: 32 word) XOR INT32_SIGN_MASK) = nat (sint w + 2 ^ 31)"
proof -
  have "w + 0x80000000 = word_of_int (sint w + 2 ^ 31)" by (simp add: of_int_sint)
  moreover have "0 \<le> sint w + 2 ^ 31" "sint w + 2 ^ 31 < 2 ^ 32"
    using sint_ge [of w] sint_lt [of w] by simp_all
  ultimately have "uint (w + 0x80000000) = sint w + 2 ^ 31"
    by (simp only: uint_word_of_int_eq take_bit_int_eq_self) (simp add: take_bit_int_eq_self)
  then show ?thesis by (metis unat_eq_nat_uint xor_sign_mask32)
qed

lemma sign_flip_less32:
  "unat ((a :: 32 word) XOR INT32_SIGN_MASK) < unat (b XOR INT32_SIGN_MASK) \<longleftrightarrow> sint a < sint b"
  using sint_ge [of a] sint_ge [of b] by (auto simp: unat_sign_flip32)

lemma sign_flip_eq32:
  "unat ((a :: 32 word) XOR INT32_SIGN_MASK) = unat (b XOR INT32_SIGN_MASK) \<longleftrightarrow> a = b"
  by (simp add: unat_eq_iff_word xor_sign_mask32)

lemma xor_sign_mask64: "(w :: 64 word) XOR INT64_SIGN_MASK = w + 0x8000000000000000"
proof -
  have "w XOR INT64_SIGN_MASK = flip_bit 63 w" by (simp add: flip_bit_eq_xor INT64_SIGN_MASK_def)
  also have "\<dots> = w + 0x8000000000000000"
  proof (cases "bit w 63")
    case True
    have "unset_bit 63 w = w - 2 ^ 63" using True by (simp add: unset_bit_eq)
    also have "\<dots> = w + 0x8000000000000000" by simp
    finally show ?thesis using True by (simp add: flip_bit_eq_if)
  next
    case False
    then show ?thesis by (simp add: flip_bit_eq_if set_bit_eq)
  qed
  finally show ?thesis .
qed

lemma unat_sign_flip64: "unat ((w :: 64 word) XOR INT64_SIGN_MASK) = nat (sint w + 2 ^ 63)"
proof -
  have "w + 0x8000000000000000 = word_of_int (sint w + 2 ^ 63)" by (simp add: of_int_sint)
  moreover have "0 \<le> sint w + 2 ^ 63" "sint w + 2 ^ 63 < 2 ^ 64"
    using sint_ge [of w] sint_lt [of w] by simp_all
  ultimately have "uint (w + 0x8000000000000000) = sint w + 2 ^ 63"
    by (simp only: uint_word_of_int_eq take_bit_int_eq_self) (simp add: take_bit_int_eq_self)
  then show ?thesis by (metis unat_eq_nat_uint xor_sign_mask64)
qed

lemma sign_flip_less64:
  "unat ((a :: 64 word) XOR INT64_SIGN_MASK) < unat (b XOR INT64_SIGN_MASK) \<longleftrightarrow> sint a < sint b"
  using sint_ge [of a] sint_ge [of b] by (auto simp: unat_sign_flip64)

lemma sign_flip_eq64:
  "unat ((a :: 64 word) XOR INT64_SIGN_MASK) = unat (b XOR INT64_SIGN_MASK) \<longleftrightarrow> a = b"
  by (simp add: unat_eq_iff_word xor_sign_mask64)

lemma unat_lt_256_4: "unat (w :: 32 word) < 256 ^ 4"
  using unsigned_less [of w, where ?'a = nat] by simp

lemma unat_lt_256_8: "unat (w :: 64 word) < 256 ^ 8"
  using unsigned_less [of w, where ?'a = nat] by simp

lemma xor_mask_cancel [simp]: "(x XOR m) XOR m = (x :: 'a::len word)"
  by (simp add: xor.assoc)

interpretation int32: key_codec "\<lambda>n. encode_int32 n []" decode_int32 "\<lambda>_. True" "\<lambda>a b. sint a < sint b"
proof (unfold_locales, goal_cases)
  case (1 a rest)
  then show ?case by (simp add: encode_int32_def decode_int32_def codec_simps)
next
  case (2 a b x y)
  show ?case
    by (simp add: encode_int32_def append_less_same_length be_bytes_less_iff be_bytes_eq_iff
        unat_lt_256_4 [simplified] sign_flip_less32 sign_flip_eq32)
qed

interpretation int64: key_codec "\<lambda>n. encode_int64 n []" decode_int64 "\<lambda>_. True" "\<lambda>a b. sint a < sint b"
proof (unfold_locales, goal_cases)
  case (1 a rest)
  then show ?case by (simp add: encode_int64_def decode_int64_def codec_simps)
next
  case (2 a b x y)
  show ?case
    by (simp add: encode_int64_def append_less_same_length be_bytes_less_iff be_bytes_eq_iff
        unat_lt_256_8 [simplified] sign_flip_less64 sign_flip_eq64)
qed

interpretation boolean: key_codec "\<lambda>b. encode_boolean b []" decode_boolean "\<lambda>_. True" "(<)"
  by unfold_locales (auto simp: encode_boolean_def decode_boolean_def)

subsection \<open>Padded strings\<close>

lemma strip_trailing_nul_pad:
  "0 \<notin> set s \<Longrightarrow> strip_trailing_nul (s @ replicate k 0) = s"
proof -
  assume "0 \<notin> set s"
  then have "dropWhile (\<lambda>b. b = 0) (rev s) = rev s" by (cases s rule: rev_cases) auto
  moreover have "dropWhile (\<lambda>b. b = 0) (replicate k (0::byte) @ rev s) = dropWhile (\<lambda>b. b = 0) (rev s)"
    by (rule dropWhile_append2) auto
  ultimately show ?thesis by (simp add: strip_trailing_nul_def)
qed

definition pad_to :: "nat \<Rightarrow> bytes \<Rightarrow> bytes" where
  "pad_to n s = s @ replicate (n - length s) 0"

lemma length_pad_to: "length s \<le> n \<Longrightarrow> length (pad_to n s) = n"
  by (simp add: pad_to_def)

lemma replicate_zero_least: "\<not> xs < replicate (length xs) (0::byte)"
  by (induction xs) auto

lemma pad_to_less:
  "0 \<notin> set s \<Longrightarrow> 0 \<notin> set t \<Longrightarrow> length s \<le> n \<Longrightarrow> length t \<le> n \<Longrightarrow> pad_to n s < pad_to n t \<longleftrightarrow> s < t"
proof (induction s t arbitrary: n rule: list_induct2')
  case (2 x xs)
  then show ?case by (cases n) (auto simp: pad_to_def word_neq_0_conv)
next
  case (3 y ys)
  then show ?case by (cases n) (auto simp: pad_to_def word_neq_0_conv)
next
  case (4 x xs y ys)
  then show ?case by (cases n) (auto simp: pad_to_def)
qed simp

lemma pad_to_inj:
  "0 \<notin> set s \<Longrightarrow> 0 \<notin> set t \<Longrightarrow> pad_to n s = pad_to n t \<longleftrightarrow> s = t"
  by (metis pad_to_def strip_trailing_nul_pad)

definition char_enc :: "16 word \<Rightarrow> bytes \<Rightarrow> bytes" where
  "char_enc n s = pad_to (unat n) s"

definition char_ok :: "16 word \<Rightarrow> bytes \<Rightarrow> bool" where
  "char_ok n s \<longleftrightarrow> utf8_valid s \<and> 0 \<notin> set s \<and> length s \<le> unat n"

lemma encode_char_eq: "char_ok n s \<Longrightarrow> encode_char s n out = Inr (out @ char_enc n s)"
  by (simp add: encode_char_def char_ok_def char_enc_def pad_to_def)

interpretation char: key_codec "char_enc n" "\<lambda>bs. decode_char bs n" "char_ok n" "(<)" for n
proof (unfold_locales, goal_cases)
  case (1 a rest)
  then have "take (unat n) (char_enc n a @ rest) = a @ replicate (unat n - length a) 0"
    by (simp add: char_enc_def char_ok_def pad_to_def)
  with 1 show ?case
    by (simp add: decode_char_def Let_def char_ok_def strip_trailing_nul_pad char_enc_def length_pad_to)
next
  case (2 a b x y)
  then show ?case
    by (simp add: char_ok_def char_enc_def append_less_same_length length_pad_to pad_to_less pad_to_inj)
qed

subsection \<open>Escaped byte strings\<close>

lemma byte_FF_neq_0: "(0xFF :: byte) \<noteq> 0"
  by simp

lemma decode_escaped_loop_escape:
  "decode_escaped_loop (escape_bytes a @ 0x00 # 0x00 # rest) out i =
     Inr (out @ a, i + length (escape_bytes a) + 2)"
  by (induction a arbitrary: out i) (simp_all add: byte_FF_neq_0)

lemma escape_bytes_order:
  "escape_bytes a @ 0x00 # 0x00 # x < escape_bytes b @ 0x00 # 0x00 # y \<longleftrightarrow> a < b \<or> a = b \<and> x < y"
  by (induction a b rule: list_induct2') (auto simp: word_neq_0_conv)

interpretation escaped: key_codec "\<lambda>b. encode_escaped b []" decode_escaped "\<lambda>_. True" "(<)"
  by unfold_locales
    (simp_all add: encode_escaped_def decode_escaped_def decode_escaped_loop_escape escape_bytes_order)

section \<open>Tagged components\<close>

definition value_less :: "sql_value \<Rightarrow> sql_value \<Rightarrow> bool" where
  "value_less v w = (if v = VNull then w \<noteq> VNull else compare_sql v w = Some Less)"

definition key_ok :: "column_type \<Rightarrow> sql_value \<Rightarrow> bool" where
  "key_ok ty v \<longleftrightarrow> value_ok v \<and> value_matches v ty \<and>
    (case (v, ty) of (VChar s, TChar n) \<Rightarrow> 0 \<notin> set s \<and> length s \<le> unat n | _ \<Rightarrow> True)"

definition key_enc :: "column_type \<Rightarrow> sql_value \<Rightarrow> bytes" where
  "key_enc ty v = (case encode_one v ty [] of Inl _ \<Rightarrow> [] | Inr bs \<Rightarrow> bs)"

lemma encode_char_Inr: "encode_char s n out = Inr r \<longleftrightarrow>
    0 \<notin> set s \<and> length s \<le> unat n \<and> r = out @ char_enc n s"
  by (auto simp: encode_char_def char_enc_def pad_to_def)

lemma sentinel_simps:
  "NULL_SENTINEL < PRESENT_SENTINEL" "\<not> PRESENT_SENTINEL < NULL_SENTINEL"
  "NULL_SENTINEL \<noteq> PRESENT_SENTINEL" "PRESENT_SENTINEL \<noteq> NULL_SENTINEL"
  by (simp_all add: NULL_SENTINEL_def PRESENT_SENTINEL_def)

text \<open>The body bytes of a present value.\<close>

definition body_enc :: "column_type \<Rightarrow> sql_value \<Rightarrow> bytes" where
  "body_enc ty v = (case v of
     VInt32 n \<Rightarrow> encode_int32 n [] | VDate n \<Rightarrow> encode_int32 n []
   | VInt64 n \<Rightarrow> encode_int64 n [] | VTimestamp n \<Rightarrow> encode_int64 n []
   | VDecimal d \<Rightarrow> encode_int64 (mantissa d) [] | VBoolean b \<Rightarrow> encode_boolean b []
   | VChar s \<Rightarrow> (case ty of TChar n \<Rightarrow> char_enc n s | _ \<Rightarrow> [])
   | VVarchar s \<Rightarrow> encode_escaped s [] | VBytes b \<Rightarrow> encode_escaped b [] | VNull \<Rightarrow> [])"

lemma key_ok_types:
  "key_ok TInt32 v \<longleftrightarrow> v = VNull \<or> (\<exists>n. v = VInt32 n)"
  "key_ok TInt64 v \<longleftrightarrow> v = VNull \<or> (\<exists>n. v = VInt64 n)"
  "key_ok TTimestamp v \<longleftrightarrow> v = VNull \<or> (\<exists>n. v = VTimestamp n)"
  "key_ok TDate v \<longleftrightarrow> v = VNull \<or> (\<exists>n. v = VDate n)"
  "key_ok TBoolean v \<longleftrightarrow> v = VNull \<or> (\<exists>b. v = VBoolean b)"
  "key_ok (TBytes k) v \<longleftrightarrow> v = VNull \<or> (\<exists>b. v = VBytes b)"
  "key_ok (TVarchar k) v \<longleftrightarrow> v = VNull \<or> (\<exists>s. v = VVarchar s \<and> utf8_valid s)"
  "key_ok (TChar k) v \<longleftrightarrow> v = VNull \<or> (\<exists>s. v = VChar s \<and> char_ok k s)"
  "key_ok (TDecimal p c) v \<longleftrightarrow> v = VNull \<or> (\<exists>d. v = VDecimal d \<and> scale d = c \<and> dec_ok d)"
  by (cases v; auto simp: key_ok_def value_ok_def value_matches_def char_ok_def)+

lemma encode_one_key_ok:
  assumes "key_ok ty v"
  shows "encode_one v ty out =
    Inr (out @ (if v = VNull then [NULL_SENTINEL] else PRESENT_SENTINEL # body_enc ty v))"
  using assms
  by (cases ty)
    (auto simp: key_ok_types encode_one_def body_enc_def encode_char_eq encode_int32_def
      encode_int64_def encode_boolean_def encode_escaped_def)

lemma encode_one_Inr_key_ok:
  "encode_one v ty out = Inr r \<Longrightarrow> value_ok v \<Longrightarrow> value_matches v ty \<Longrightarrow> key_ok ty v"
  by (cases v; cases ty)
    (auto simp: key_ok_def value_matches_def encode_one_def encode_char_Inr)

lemma key_enc_eq:
  "key_ok ty v \<Longrightarrow> key_enc ty v = (if v = VNull then [NULL_SENTINEL] else PRESENT_SENTINEL # body_enc ty v)"
  by (simp add: key_enc_def encode_one_key_ok)

lemma decode_one_key_enc:
  assumes "key_ok ty v"
  shows "decode_one (key_enc ty v @ rest) ty = Inr (v, length (key_enc ty v))"
proof (cases "v = VNull")
  case True
  then show ?thesis using assms by (simp add: key_enc_eq decode_one_def)
next
  case False
  then show ?thesis
    using assms int32.dec_enc int64.dec_enc boolean.dec_enc escaped.dec_enc char.dec_enc
    by (cases ty)
      (auto simp: key_enc_eq key_ok_types decode_one_def sentinel_simps body_enc_def
        dec_ok_def from_i64_with_scale_def)
qed

lemma same_scale_decimals:
  assumes "scale d = scale (e :: decimal)"
  shows "compare_decimals d e = cmp (sint (mantissa d)) (sint (mantissa e))"
    and "d = e \<longleftrightarrow> mantissa d = mantissa e"
  using assms by (cases d; cases e; simp add: compare_decimals_def)+

lemma body_enc_order:
  assumes "key_ok ty v" "key_ok ty w" "v \<noteq> VNull" "w \<noteq> VNull"
  shows "body_enc ty v @ x < body_enc ty w @ y \<longleftrightarrow> compare_sql v w = Some Less \<or> v = w \<and> x < y"
  using assms
  by (cases ty)
    (auto simp: key_ok_types body_enc_def compare_sql_def same_scale_decimals int32.enc_order
      int64.enc_order boolean.enc_order escaped.enc_order char.enc_order)

interpretation component: key_codec "key_enc ty" "\<lambda>bs. decode_one bs ty" "key_ok ty" value_less for ty
proof (unfold_locales, goal_cases)
  case (1 a rest)
  then show ?case by (rule decode_one_key_enc)
next
  case (2 a b x y)
  then show ?case
    using body_enc_order [of ty a b x y]
    by (cases "a = VNull"; cases "b = VNull") (auto simp: key_enc_eq sentinel_simps value_less_def)
qed

section \<open>Composite keys\<close>

fun key_less :: "sql_value list \<Rightarrow> sql_value list \<Rightarrow> bool" where
  "key_less (v # vs) (w # ws) = (value_less v w \<or> v = w \<and> key_less vs ws)"
| "key_less _ _ = False"

definition keys_ok :: "sql_value list \<Rightarrow> column_type list \<Rightarrow> bool" where
  "keys_ok vs ts = list_all2 (\<lambda>v t. value_ok v \<and> value_matches v t) vs ts"

lemma encode_components_eq:
  assumes "list_all2 (\<lambda>v t. key_ok t v) vs ts"
  shows "encode_components (zip vs ts) out = Inr (out @ concat (map2 (\<lambda>v t. key_enc t v) vs ts))"
  using assms
  by (induction vs ts arbitrary: out rule: list_all2_induct) (auto simp: encode_one_key_ok key_enc_eq)

lemma encode_components_Inr:
  "encode_components (zip vs ts) out = Inr r \<Longrightarrow> keys_ok vs ts \<Longrightarrow> list_all2 (\<lambda>v t. key_ok t v) vs ts"
  unfolding keys_ok_def
  by (rotate_tac, induction vs ts arbitrary: out rule: list_all2_induct)
    (auto simp: and_then_eq_Inr dest: encode_one_Inr_key_ok)

lemma encode_key_components_Inr:
  assumes "encode_key_components vs ts = Inr bs" "keys_ok vs ts"
  shows "list_all2 (\<lambda>v t. key_ok t v) vs ts \<and> bs = concat (map2 (\<lambda>v t. key_enc t v) vs ts)"
proof -
  have e: "encode_components (zip vs ts) [] = Inr bs"
    using assms(1) by (auto simp: encode_key_components_def split: if_splits)
  have "list_all2 (\<lambda>v t. key_ok t v) vs ts" by (rule encode_components_Inr [OF e assms(2)])
  then show ?thesis using e by (simp add: encode_components_eq)
qed

lemma concat_key_enc_less:
  assumes "list_all2 (\<lambda>v t. key_ok t v) vs ts" "list_all2 (\<lambda>v t. key_ok t v) ws ts"
  shows "concat (map2 (\<lambda>v t. key_enc t v) vs ts) < concat (map2 (\<lambda>v t. key_enc t v) ws ts) \<longleftrightarrow> key_less vs ws"
  using assms
proof (induction vs ts arbitrary: ws rule: list_all2_induct)
  case (Cons v vs t ts)
  then obtain w ws' where "ws = w # ws'" "key_ok t w" "list_all2 (\<lambda>v t. key_ok t v) ws' ts"
    by (auto simp: list_all2_Cons2)
  then show ?case using Cons component.enc_order [of t v w] by simp
qed simp

lemma decode_components_enc:
  assumes "list_all2 (\<lambda>v t. key_ok t v) vs ts"
  shows "decode_components (pre @ concat (map2 (\<lambda>v t. key_enc t v) vs ts)) ts (length pre) =
    Inr (vs, length pre + length (concat (map2 (\<lambda>v t. key_enc t v) vs ts)))"
  using assms
proof (induction vs ts arbitrary: pre rule: list_all2_induct)
  case (Cons v vs t ts)
  then show ?case
    using component.dec_enc [of t v] Cons.IH [of "pre @ key_enc t v"] by simp
qed simp

lemma decode_encode_key:
  assumes "encode_key_components vs ts = Inr bs" "keys_ok vs ts"
  shows "decode_key_components bs ts = Inr vs"
  using encode_key_components_Inr [OF assms] decode_components_enc [of vs ts "[]"]
  by (simp add: decode_key_components_def)

lemma encode_key_less_iff:
  assumes "encode_key_components vs ts = Inr a" "encode_key_components ws ts = Inr b"
    and "keys_ok vs ts" "keys_ok ws ts"
  shows "a < b \<longleftrightarrow> key_less vs ws"
  using encode_key_components_Inr [OF assms(1,3)] encode_key_components_Inr [OF assms(2,4)]
  by (simp add: concat_key_enc_less)

section \<open>Range bounds\<close>

lemma byte_increment_successor: "bs < byte_increment bs \<and> (bs < x \<longrightarrow> byte_increment bs \<le> x)"
proof -
  have "bs < x \<Longrightarrow> bs @ [0x00] \<le> x"
    by (induction bs x rule: list_induct2') (auto simp: word_gt_0)
  then show ?thesis by (simp add: byte_increment_def append_greater_self)
qed

lemma prefix_increment_append:
  "prefix_increment (bs @ [b]) = (if b < 0xFF then Some (bs @ [b + 1]) else prefix_increment bs)"
  by (simp add: prefix_increment_def)

lemma byte_max: "\<not> (b :: byte) < 0xFF \<Longrightarrow> b = 0xFF"
  using unat_byte_less [of b] by (simp add: word_less_nat_alt word_unat_eq_iff)

lemma prefix_increment_None: "prefix_increment bs = None \<longleftrightarrow> set bs \<subseteq> {0xFF}"
  by (induction bs rule: rev_induct)
    (auto simp: prefix_increment_append prefix_increment_def [of "[]"] dest: byte_max)

lemma append_le_iff: "bs @ ys \<le> bs @ (zs :: 'a::linorder list) \<longleftrightarrow> ys \<le> zs"
  by (induction bs) auto

lemma prefix_imp_le: "prefix p x \<Longrightarrow> p \<le> (x :: 'a::linorder list)"
  using append_le_iff [of p "[]"] by (auto elim!: prefixE)

lemma byte_interval:
  assumes "(b :: byte) < 0xFF"
  shows "b \<le> c \<and> c < b + 1 \<longleftrightarrow> b = c"
proof -
  have "unat (b + 1) = unat b + 1"
    using assms by (simp add: word_less_nat_alt unat_word_ariths)
  then show ?thesis by (auto simp: word_less_nat_alt word_le_nat_alt word_unat_eq_iff)
qed

lemma singleton_interval:
  assumes "b < 0xFF"
  shows "[b] \<le> x \<and> x < [b + 1] \<longleftrightarrow> prefix [b :: byte] x"
proof (cases x)
  case (Cons c y)
  have "[b] \<le> x \<and> x < [b + 1] \<longleftrightarrow> (b \<le> c \<and> c < b + 1)"
    using Cons by auto
  then show ?thesis using byte_interval [OF assms, of c] Cons by simp
qed simp

lemma snoc_interval:
  assumes "b < 0xFF"
  shows "bs @ [b] \<le> x \<and> x < bs @ [b + 1] \<longleftrightarrow> prefix (bs @ [b :: byte]) x"
proof (induction bs arbitrary: x)
  case Nil
  show ?case using singleton_interval [OF assms] by simp
next
  case (Cons c bs)
  note IH = Cons.IH
  show ?case
  proof (cases x)
    case (Cons d y)
    then show ?thesis using IH [of y] by simp (metis less_asym)
  qed simp
qed

lemma FF_le_iff: "bs @ [0xFF] \<le> (x :: bytes) \<longleftrightarrow> bs \<le> x \<and> (prefix bs x \<longrightarrow> prefix (bs @ [0xFF]) x)"
proof -
  have top: "\<not> (0xFF :: byte) < c" for c
    using unat_byte_less [of c] by (simp add: word_less_nat_alt)
  show ?thesis
  proof (induction bs arbitrary: x)
    case Nil
    show ?case using top by (cases x) auto
  next
    case (Cons c bs)
    note IH = Cons.IH
    show ?case
    proof (cases x)
      case (Cons d y)
      then show ?thesis using IH [of y] by simp (metis less_irrefl)
    qed simp
  qed
qed

lemma prefix_increment_range:
  "p \<le> x \<and> (case prefix_increment p of None \<Rightarrow> True | Some u \<Rightarrow> x < u) \<longleftrightarrow> prefix p x"
proof (induction p rule: rev_induct)
  case Nil
  show ?case by (simp add: prefix_increment_def)
next
  case (snoc b bs)
  show ?case
  proof (cases "b < 0xFF")
    case True
    then show ?thesis using snoc_interval by (simp add: prefix_increment_append)
  next
    case False
    then have b: "b = 0xFF" by (rule byte_max)
    have "prefix (bs @ [0xFF]) x \<Longrightarrow> prefix bs x" by (rule append_prefixD)
    then show ?thesis
      using snoc FF_le_iff [of bs x] False unfolding b by (auto simp: prefix_increment_append)
  qed
qed

section \<open>Properties\<close>

text \<open>
  C5. The key encoding preserves order: for two rows of key values of the same column types,
  byte-wise comparison of the encodings is the lexicographic SQL comparison of the rows, NULL
  first.
\<close>

theorem key_encoding_order:
  assumes "encode_key_components vs ts = Inr a" "encode_key_components ws ts = Inr b"
    and "keys_ok vs ts" "keys_ok ws ts"
  shows "a < b \<longleftrightarrow> key_less vs ws"
  using assms by (rule encode_key_less_iff)

theorem key_encoding_order_witness:
  "case (encode_key_components [VBoolean True, VVarchar [0x61, 0x00]] [TBoolean, TVarchar 10],
         encode_key_components [VBoolean True, VVarchar [0x61, 0x01]] [TBoolean, TVarchar 10]) of
     (Inr a, Inr b) \<Rightarrow> a < b | _ \<Rightarrow> False"
proof -
  let ?v = "[VBoolean True, VVarchar [0x61, 0x00]]" and ?w = "[VBoolean True, VVarchar [0x61, 0x01]]"
  let ?t = "[TBoolean, TVarchar 10]"
  let ?a = "[0x01, 0x01, 0x01, 0x61, 0x00, 0xFF, 0x00, 0x00] :: bytes"
  let ?b = "[0x01, 0x01, 0x01, 0x61, 0x01, 0x00, 0x00] :: bytes"
  have "encode_key_components ?v ?t = Inr ?a" "encode_key_components ?w ?t = Inr ?b" by code_simp+
  moreover have "keys_ok ?v ?t" "keys_ok ?w ?t" by code_simp+
  moreover have "key_less ?v ?w" by (simp add: value_less_def compare_sql_def cmp_def)
  ultimately show ?thesis using key_encoding_order [of ?v ?t ?a ?w ?b] by simp
qed

text \<open>
  C6. Decoding an encoded row of key values gives the row back.
\<close>

theorem key_encoding_roundtrip:
  assumes "encode_key_components vs ts = Inr bs" "keys_ok vs ts"
  shows "decode_key_components bs ts = Inr vs"
  using assms by (rule decode_encode_key)

theorem key_encoding_roundtrip_witness:
  "decode_key_components [0x01, 0x61, 0x00, 0xFF, 0x00, 0x00] [TVarchar 10] = Inr [VVarchar [0x61, 0x00]]"
proof -
  have "encode_key_components [VVarchar [0x61, 0x00]] [TVarchar 10] = Inr [0x01, 0x61, 0x00, 0xFF, 0x00, 0x00]"
    "keys_ok [VVarchar [0x61, 0x00]] [TVarchar 10]" by code_simp+
  then show ?thesis by (rule key_encoding_roundtrip)
qed

text \<open>
  C25. The scan bounds are exact. The interval from a byte string up to its prefix increment
  (unbounded when every byte is 0xFF) contains precisely the strings that extend it, and the
  byte increment is the least string strictly above its argument.
\<close>

theorem scan_bounds_exact:
  "(p \<le> x \<and> (case prefix_increment p of None \<Rightarrow> True | Some u \<Rightarrow> x < u) \<longleftrightarrow> prefix p x) \<and>
   (p < x \<longleftrightarrow> byte_increment p \<le> x)"
  using prefix_increment_range byte_increment_successor [of p x] by auto

end
