(* ===== verification/Tuple_Encoding.thy ===== *)
theory Tuple_Encoding
  imports Key_Encoding
begin

text \<open>
  The row-blob encoding of \<^verbatim>\<open>idb-core/src/types/tuple.rs\<close>: a null bitmap over all columns
  followed by the present values in schema order. Proved: decoding inverts encoding, and
  \<^verbatim>\<open>decode_column\<close>, which skips the columns before the requested one, agrees with the full
  decoder wherever that succeeds.
\<close>

section \<open>Model\<close>

definition bitmap_byte_count :: "nat \<Rightarrow> nat" where
  "bitmap_byte_count n = (n + 7) div 8"

definition is_null_bit_set :: "bytes \<Rightarrow> nat \<Rightarrow> bool" where
  "is_null_bit_set bitmap col = (drop_bit (col mod 8) (bitmap ! (col div 8)) AND 1 = 1)"

definition encode_value :: "column_type \<Rightarrow> sql_value \<Rightarrow> bytes \<Rightarrow> bytes result" where
  "encode_value ty v out =
    (case (ty, v) of
       (TInt32, VInt32 n) \<Rightarrow> Inr (out @ le_bytes 4 (unat n))
     | (TInt64, VInt64 n) \<Rightarrow> Inr (out @ le_bytes 8 (unat n))
     | (TDate, VDate days) \<Rightarrow> Inr (out @ le_bytes 4 (unat days))
     | (TBoolean, VBoolean b) \<Rightarrow> Inr (out @ [if b then 0x01 else 0x00])
     | (TTimestamp, VTimestamp t) \<Rightarrow> Inr (out @ le_bytes 8 (unat t))
     | (TDecimal _ _, VDecimal d) \<Rightarrow> Inr (out @ le_bytes 8 (unat (mantissa d)))
     | (TChar n, VChar s) \<Rightarrow>
         if 0x00 \<in> set s then Inl StorageCorrupted
         else if length s > unat n then Inl StorageCorrupted
         else Inr (out @ s @ replicate (unat n - length s) 0x00)
     | (TVarchar n, VVarchar s) \<Rightarrow>
         if length s > unat n then Inl StorageCorrupted
         else Inr (out @ le_bytes 2 (length s mod 2 ^ 16) @ s)
     | (TBytes n, VBytes b) \<Rightarrow>
         if length b > unat n then Inl StorageCorrupted
         else Inr (out @ le_bytes 2 (length b mod 2 ^ 16) @ b)
     | _ \<Rightarrow> Inl StorageCorrupted)"

text \<open>
  The loop of \<^verbatim>\<open>encode\<close>: \<^verbatim>\<open>i\<close> is the column index, and \<^verbatim>\<open>out\<close> holds the bitmap followed by the
  value bytes written so far.
\<close>

fun encode_columns :: "(column_type \<times> sql_value) list \<Rightarrow> nat \<Rightarrow> bytes \<Rightarrow> bytes result" where
  "encode_columns [] i out = Inr out"
| "encode_columns ((ty, v) # tvs) i out =
    (if v = VNull then encode_columns tvs (i + 1) (out[i div 8 := out ! (i div 8) OR push_bit (i mod 8) 1])
     else and_then (encode_value ty v out) (encode_columns tvs (i + 1)))"

definition tuple_encode :: "column_type list \<Rightarrow> sql_value list \<Rightarrow> bytes result" where
  "tuple_encode types values =
    (if length types \<noteq> length values then Inl StorageCorrupted
     else encode_columns (zip types values) 0 (replicate (bitmap_byte_count (length types)) 0))"

definition decode_value :: "column_type \<Rightarrow> bytes \<Rightarrow> (sql_value \<times> nat) result" where
  "decode_value ty bs =
    (case ty of
       TInt32 \<Rightarrow> if length bs < 4 then Inl StorageCorrupted
                 else Inr (VInt32 (of_nat (le_val (take 4 bs))), 4)
     | TDate \<Rightarrow> if length bs < 4 then Inl StorageCorrupted
                 else Inr (VDate (of_nat (le_val (take 4 bs))), 4)
     | TInt64 \<Rightarrow> if length bs < 8 then Inl StorageCorrupted
                 else Inr (VInt64 (of_nat (le_val (take 8 bs))), 8)
     | TBoolean \<Rightarrow>
         (case bs of [] \<Rightarrow> Inl StorageCorrupted
          | b # _ \<Rightarrow> if b = 0x00 then Inr (VBoolean False, 1)
                      else if b = 0x01 then Inr (VBoolean True, 1) else Inl StorageCorrupted)
     | TTimestamp \<Rightarrow> if length bs < 8 then Inl StorageCorrupted
                 else Inr (VTimestamp (of_nat (le_val (take 8 bs))), 8)
     | TDecimal _ s \<Rightarrow> if length bs < 8 then Inl StorageCorrupted
                 else and_then (from_i64_with_scale (of_nat (le_val (take 8 bs))) s)
                        (\<lambda>d. Inr (VDecimal d, 8))
     | TChar n \<Rightarrow>
         let len = unat n in
         if length bs < len then Inl StorageCorrupted
         else and_then (from_utf8 (strip_trailing_nul (take len bs))) (\<lambda>s. Inr (VChar s, len))
     | TVarchar _ \<Rightarrow>
         if length bs < 2 then Inl StorageCorrupted
         else let len = le_val (take 2 bs) in
           if length bs < 2 + len then Inl StorageCorrupted
           else and_then (from_utf8 (take len (drop 2 bs))) (\<lambda>s. Inr (VVarchar s, 2 + len))
     | TBytes _ \<Rightarrow>
         if length bs < 2 then Inl StorageCorrupted
         else let len = le_val (take 2 bs) in
           if length bs < 2 + len then Inl StorageCorrupted
           else Inr (VBytes (take len (drop 2 bs)), 2 + len))"

fun decode_columns :: "bytes \<Rightarrow> bytes \<Rightarrow> column_type list \<Rightarrow> nat \<Rightarrow> nat \<Rightarrow> (sql_value list \<times> nat) result" where
  "decode_columns bitmap bs [] i cursor = Inr ([], cursor)"
| "decode_columns bitmap bs (ty # tys) i cursor =
    (if is_null_bit_set bitmap i then
       and_then (decode_columns bitmap bs tys (i + 1) cursor) (\<lambda>(vs, c). Inr (VNull # vs, c))
     else if cursor > length bs then Inl Panic
     else and_then (decode_value ty (drop cursor bs)) (\<lambda>(v, consumed).
       and_then (decode_columns bitmap bs tys (i + 1) (cursor + consumed)) (\<lambda>(vs, c). Inr (v # vs, c))))"

definition tuple_decode :: "column_type list \<Rightarrow> bytes \<Rightarrow> sql_value list result" where
  "tuple_decode types bs =
    (let bitmap_len = bitmap_byte_count (length types) in
     if length bs < bitmap_len then Inl StorageCorrupted
     else and_then (decode_columns (take bitmap_len bs) bs types 0 bitmap_len) (\<lambda>(out, cursor).
       if cursor \<noteq> length bs then Inl StorageCorrupted else Inr out))"

definition value_byte_size :: "column_type \<Rightarrow> bytes \<Rightarrow> nat result" where
  "value_byte_size ty bs =
    (case ty of
       TInt32 \<Rightarrow> Inr 4
     | TDate \<Rightarrow> Inr 4
     | TInt64 \<Rightarrow> Inr 8
     | TTimestamp \<Rightarrow> Inr 8
     | TDecimal _ _ \<Rightarrow> Inr 8
     | TBoolean \<Rightarrow> Inr 1
     | TChar n \<Rightarrow> Inr (unat n)
     | TVarchar _ \<Rightarrow> if length bs < 2 then Inl StorageCorrupted else Inr (2 + le_val (take 2 bs))
     | TBytes _ \<Rightarrow> if length bs < 2 then Inl StorageCorrupted else Inr (2 + le_val (take 2 bs)))"

fun skip_columns :: "bytes \<Rightarrow> bytes \<Rightarrow> column_type list \<Rightarrow> nat \<Rightarrow> nat \<Rightarrow> nat \<Rightarrow> sql_value result" where
  "skip_columns bitmap bs [] i cursor col_idx = Inl Panic"
| "skip_columns bitmap bs (ty # tys) i cursor col_idx =
    (if is_null_bit_set bitmap i then skip_columns bitmap bs tys (i + 1) cursor col_idx
     else if cursor > length bs then Inl StorageCorrupted
     else if i = col_idx then and_then (decode_value ty (drop cursor bs)) (\<lambda>(v, _). Inr v)
     else and_then (value_byte_size ty (drop cursor bs)) (\<lambda>n.
       skip_columns bitmap bs tys (i + 1) (cursor + n) col_idx))"

definition decode_column :: "column_type list \<Rightarrow> bytes \<Rightarrow> nat \<Rightarrow> sql_value result" where
  "decode_column types bs col_idx =
    (if col_idx \<ge> length types then Inl StorageCorrupted
     else let bitmap_len = bitmap_byte_count (length types) in
       if length bs < bitmap_len then Inl StorageCorrupted
       else let bitmap = take bitmap_len bs in
         if is_null_bit_set bitmap col_idx then Inr VNull
         else skip_columns bitmap bs types 0 bitmap_len col_idx)"

section \<open>Single values\<close>

lemma decode_value_size:
  "decode_value ty bs = Inr (v, n) \<Longrightarrow> value_byte_size ty bs = Inr n \<and> n \<le> length bs"
  by (cases ty)
    (auto simp: decode_value_def value_byte_size_def Let_def and_then_eq_Inr split: if_splits list.splits)

definition tuple_ok :: "column_type \<Rightarrow> sql_value \<Rightarrow> bool" where
  "tuple_ok ty v \<longleftrightarrow> value_ok v \<and> value_matches v ty \<and>
    (case (v, ty) of
       (VChar s, TChar n) \<Rightarrow> 0 \<notin> set s \<and> length s \<le> unat n
     | (VVarchar s, TVarchar n) \<Rightarrow> length s \<le> unat n
     | (VBytes b, TBytes n) \<Rightarrow> length b \<le> unat n
     | _ \<Rightarrow> True)"

lemma tuple_ok_types:
  "tuple_ok TInt32 v \<longleftrightarrow> v = VNull \<or> (\<exists>n. v = VInt32 n)"
  "tuple_ok TInt64 v \<longleftrightarrow> v = VNull \<or> (\<exists>n. v = VInt64 n)"
  "tuple_ok TTimestamp v \<longleftrightarrow> v = VNull \<or> (\<exists>n. v = VTimestamp n)"
  "tuple_ok TDate v \<longleftrightarrow> v = VNull \<or> (\<exists>n. v = VDate n)"
  "tuple_ok TBoolean v \<longleftrightarrow> v = VNull \<or> (\<exists>b. v = VBoolean b)"
  "tuple_ok (TBytes k) v \<longleftrightarrow> v = VNull \<or> (\<exists>b. v = VBytes b \<and> length b \<le> unat k)"
  "tuple_ok (TVarchar k) v \<longleftrightarrow> v = VNull \<or> (\<exists>s. v = VVarchar s \<and> utf8_valid s \<and> length s \<le> unat k)"
  "tuple_ok (TChar k) v \<longleftrightarrow> v = VNull \<or> (\<exists>s. v = VChar s \<and> char_ok k s)"
  "tuple_ok (TDecimal p c) v \<longleftrightarrow> v = VNull \<or> (\<exists>d. v = VDecimal d \<and> scale d = c \<and> dec_ok d)"
  by (cases v; auto simp: tuple_ok_def value_ok_def value_matches_def char_ok_def)+

lemma encode_value_Inr_tuple_ok:
  "encode_value ty v out = Inr r \<Longrightarrow> value_ok v \<Longrightarrow> value_matches v ty \<Longrightarrow> tuple_ok ty v"
  by (cases v; cases ty)
    (auto simp: tuple_ok_def value_matches_def encode_value_def split: if_splits)

text \<open>The bytes a column contributes after the bitmap.\<close>

definition val_enc :: "column_type \<Rightarrow> sql_value \<Rightarrow> bytes" where
  "val_enc ty v = (if v = VNull then [] else case encode_value ty v [] of Inl _ \<Rightarrow> [] | Inr bs \<Rightarrow> bs)"

lemma encode_value_eq:
  assumes "tuple_ok ty v" "v \<noteq> VNull"
  shows "encode_value ty v out = Inr (out @ val_enc ty v)"
  using assms by (cases ty) (auto simp: tuple_ok_types encode_value_def val_enc_def char_ok_def)

lemma unat_lt_65536: "unat (n :: 16 word) < 65536"
  using unsigned_less [of n, where ?'a = nat] by simp

lemma u16_length_mod: "length s \<le> unat (n :: 16 word) \<Longrightarrow> length s mod 2 ^ 16 = length s"
  using unat_lt_65536 [of n] by simp

lemma decode_value_val_enc:
  assumes "tuple_ok ty v" "v \<noteq> VNull"
  shows "decode_value ty (val_enc ty v @ rest) = Inr (v, length (val_enc ty v))"
proof -
  note defs = tuple_ok_types val_enc_def encode_value_def decode_value_def codec_simps Let_def
  consider (vc) k where "ty = TVarchar k" | (bs) k where "ty = TBytes k"
    | (other) "\<forall>k. ty \<noteq> TVarchar k" "\<forall>k. ty \<noteq> TBytes k" by blast
  then show ?thesis
  proof cases
    case vc
    then obtain s where "v = VVarchar s" "utf8_valid s" "length s \<le> unat k"
      using assms by (auto simp: tuple_ok_types)
    then show ?thesis using vc u16_length_mod [of s k] unat_lt_65536 [of k] by (simp add: defs)
  next
    case bs
    then obtain b where "v = VBytes b" "length b \<le> unat k"
      using assms by (auto simp: tuple_ok_types)
    then show ?thesis using bs u16_length_mod [of b k] unat_lt_65536 [of k] by (simp add: defs)
  next
    case other
    then show ?thesis using assms
      by (cases ty)
        (auto simp: defs from_i64_with_scale_def dec_ok_def char_ok_def strip_trailing_nul_pad)
  qed
qed

section \<open>The null bitmap\<close>

definition set_null :: "bytes \<Rightarrow> nat \<Rightarrow> bytes" where
  "set_null bm i = bm[i div 8 := bm ! (i div 8) OR push_bit (i mod 8) 1]"

fun null_bits :: "bytes \<Rightarrow> nat \<Rightarrow> sql_value list \<Rightarrow> bytes" where
  "null_bits bm i [] = bm"
| "null_bits bm i (v # vs) = null_bits (if v = VNull then set_null bm i else bm) (i + 1) vs"

lemma length_set_null [simp]: "length (set_null bm i) = length bm"
  by (simp add: set_null_def)

lemma length_null_bits [simp]: "length (null_bits bm i vs) = length bm"
  by (induction bm i vs rule: null_bits.induct) auto

lemma is_null_bit_set_bit: "is_null_bit_set bm j \<longleftrightarrow> bit (bm ! (j div 8)) (j mod 8)"
  by (simp add: is_null_bit_set_def bit_iff_odd_drop_bit and_one_eq odd_iff_mod_2_eq_one)

lemma div_mod_8_eq: "(i::nat) div 8 = j div 8 \<Longrightarrow> i mod 8 = j mod 8 \<longleftrightarrow> i = j"
  by (metis div_mult_mod_eq)

lemma is_null_bit_set_null:
  assumes "i div 8 < length bm"
  shows "is_null_bit_set (set_null bm i) j \<longleftrightarrow> i = j \<or> is_null_bit_set bm j"
proof (cases "i div 8 = j div 8")
  case True
  have "bit (push_bit (i mod 8) (1::byte)) (j mod 8) \<longleftrightarrow> i = j"
    using div_mod_8_eq [OF True] by (auto simp: bit_push_bit_iff bit_1_iff bit_exp_iff)
  then show ?thesis
    using True assms by (auto simp: is_null_bit_set_bit set_null_def bit_or_iff)
next
  case False
  then show ?thesis by (auto simp: is_null_bit_set_bit set_null_def)
qed

lemma is_null_bit_null_bits:
  assumes "i + length vs \<le> 8 * length bm"
  shows "is_null_bit_set (null_bits bm i vs) j \<longleftrightarrow>
    is_null_bit_set bm j \<or> i \<le> j \<and> j < i + length vs \<and> vs ! (j - i) = VNull"
  using assms
proof (induction bm i vs rule: null_bits.induct)
  case (2 bm i v vs)
  have "i div 8 < length bm" using 2(2) by simp
  note st = is_null_bit_set_null [OF this]
  have IH: "is_null_bit_set (null_bits bm i (v # vs)) j \<longleftrightarrow>
      is_null_bit_set (if v = VNull then set_null bm i else bm) j \<or>
      Suc i \<le> j \<and> j < Suc i + length vs \<and> vs ! (j - Suc i) = VNull"
    using 2 by simp
  consider "j < i" | "j = i" | m where "j = Suc (i + m)" by (metis less_linear less_iff_Suc_add)
  then show ?case unfolding IH by cases (simp_all add: st)
qed auto

lemma is_null_bit_zeros: "j < 8 * n \<Longrightarrow> \<not> is_null_bit_set (replicate n 0) j"
  by (simp add: is_null_bit_set_bit less_mult_imp_div_less mult.commute)

lemma bitmap_byte_count_bound: "n \<le> 8 * bitmap_byte_count n"
  unfolding bitmap_byte_count_def by presburger

section \<open>Whole rows\<close>

definition row_bytes :: "column_type list \<Rightarrow> sql_value list \<Rightarrow> bytes" where
  "row_bytes ts vs = concat (map2 val_enc ts vs)"

lemma encode_columns_eq:
  assumes "list_all2 tuple_ok ts vs" "i + length vs \<le> 8 * length bm"
  shows "encode_columns (zip ts vs) i (bm @ out) = Inr (null_bits bm i vs @ out @ row_bytes ts vs)"
  using assms
proof (induction ts vs arbitrary: i bm out rule: list_all2_induct)
  case (Cons t ts v vs)
  have i: "i div 8 < length bm" using Cons.prems by simp
  show ?case
  proof (cases "v = VNull")
    case True
    then show ?thesis
      using Cons i by (simp add: row_bytes_def val_enc_def nth_append list_update_append1 set_null_def)
  next
    case False
    then show ?thesis
      using Cons by (simp add: encode_value_eq row_bytes_def)
  qed
qed (simp add: row_bytes_def)

lemma encode_columns_Inr:
  assumes "list_all2 (\<lambda>t v. value_ok v \<and> value_matches v t) ts vs"
  shows "encode_columns (zip ts vs) i out = Inr r \<Longrightarrow> list_all2 tuple_ok ts vs"
  using assms
proof (induction ts vs arbitrary: i out rule: list_all2_induct)
  case (Cons t ts v vs)
  have "tuple_ok t VNull" by (simp add: tuple_ok_def value_ok_def value_matches_def)
  then show ?case
    using Cons by (auto simp: and_then_eq_Inr split: if_splits dest: encode_value_Inr_tuple_ok)
qed simp

lemma decode_columns_row:
  assumes "list_all2 tuple_ok ts vs"
    and "\<forall>j < length vs. is_null_bit_set bitmap (i + j) \<longleftrightarrow> vs ! j = VNull"
  shows "decode_columns bitmap (pre @ row_bytes ts vs) ts i (length pre) =
    Inr (vs, length pre + length (row_bytes ts vs))"
  using assms
proof (induction ts vs arbitrary: i pre rule: list_all2_induct)
  case (Cons t ts v vs)
  have hd: "is_null_bit_set bitmap i \<longleftrightarrow> v = VNull" using Cons.prems by force
  have tl: "\<forall>j < length vs. is_null_bit_set bitmap (i + 1 + j) \<longleftrightarrow> vs ! j = VNull"
    using Cons.prems by force
  have rb: "row_bytes (t # ts) (v # vs) = val_enc t v @ row_bytes ts vs"
    by (simp add: row_bytes_def)
  show ?case
  proof (cases "v = VNull")
    case True
    then show ?thesis using hd Cons.IH [OF tl, of pre] rb by (simp add: val_enc_def)
  next
    case False
    then show ?thesis
      using hd Cons.IH [OF tl, of "pre @ val_enc t v"] rb decode_value_val_enc [OF Cons.hyps(1) False]
      by simp
  qed
qed (simp add: row_bytes_def)

lemma tuple_decode_encode:
  assumes "tuple_encode ts vs = Inr bs" "list_all2 (\<lambda>t v. value_ok v \<and> value_matches v t) ts vs"
  shows "tuple_decode ts bs = Inr vs"
proof -
  let ?n = "bitmap_byte_count (length ts)"
  let ?bm = "null_bits (replicate ?n 0) 0 vs"
  have len: "length ts = length vs" using assms(2) by (rule list_all2_lengthD)
  have e: "encode_columns (zip ts vs) 0 (replicate ?n 0) = Inr bs"
    using assms(1) len by (simp add: tuple_encode_def)
  have ok: "list_all2 tuple_ok ts vs" by (rule encode_columns_Inr [OF assms(2) e])
  have bound: "length vs \<le> 8 * ?n" using bitmap_byte_count_bound [of "length ts"] len by simp
  have bs: "bs = ?bm @ row_bytes ts vs"
    using e encode_columns_eq [OF ok, of 0 "replicate ?n 0" "[]"] bound by simp
  have "\<forall>j < length vs. is_null_bit_set ?bm (0 + j) \<longleftrightarrow> vs ! j = VNull"
    using is_null_bit_null_bits [of 0 vs "replicate ?n 0"] is_null_bit_zeros [of _ ?n] bound by auto
  from decode_columns_row [OF ok this, of ?bm]
  show ?thesis by (simp add: tuple_decode_def bs)
qed

section \<open>Single-column access\<close>

lemma skip_columns_decode:
  assumes "decode_columns bitmap bs ts i cursor = Inr (vs, c)" "i \<le> k" "k < i + length ts"
  shows "if is_null_bit_set bitmap k then vs ! (k - i) = VNull
         else skip_columns bitmap bs ts i cursor k = Inr (vs ! (k - i))"
  using assms
proof (induction bitmap bs ts i cursor arbitrary: vs c rule: decode_columns.induct)
  case (2 bitmap bs ty tys i cursor)
  show ?case
  proof (cases "is_null_bit_set bitmap i")
    case True
    then obtain vs' where vs: "vs = VNull # vs'" "decode_columns bitmap bs tys (i + 1) cursor = Inr (vs', c)"
      using 2(3) by (auto simp: and_then_eq_Inr)
    show ?thesis
    proof (cases "k = i")
      case False
      then show ?thesis using 2(1) [OF True vs(2)] 2(4,5) True vs by (auto simp: nth_Cons')
    qed (use True vs in simp)
  next
    case False
    then obtain v n vs' where vs: "vs = v # vs'" "cursor \<le> length bs"
      "decode_value ty (drop cursor bs) = Inr (v, n)"
      "decode_columns bitmap bs tys (i + 1) (cursor + n) = Inr (vs', c)"
      using 2(3) by (auto simp: and_then_eq_Inr split: if_splits)
    show ?thesis
    proof (cases "k = i")
      case True
      then show ?thesis using False vs by simp
    next
      case ki: False
      then show ?thesis
        using 2(2) [OF False _ vs(3) _ vs(4)] 2(4,5) False vs decode_value_size [OF vs(3)]
        by (auto simp: nth_Cons')
    qed
  qed
qed simp

lemma decode_column_decode:
  assumes "tuple_decode ts bs = Inr vs" "k < length ts"
  shows "decode_column ts bs k = Inr (vs ! k)"
proof -
  let ?n = "bitmap_byte_count (length ts)"
  have n: "?n \<le> length bs" and d: "decode_columns (take ?n bs) bs ts 0 ?n = Inr (vs, length bs)"
    using assms(1) by (auto simp: tuple_decode_def Let_def and_then_eq_Inr split: if_splits)
  show ?thesis
    using skip_columns_decode [OF d, of k] assms(2) n
    by (auto simp: decode_column_def split: if_splits)
qed

section \<open>Properties\<close>

text \<open>
  C19. A row that the tuple encoder accepts is decoded to the same row, NULLs included.
\<close>

theorem tuple_roundtrip:
  assumes "tuple_encode ts vs = Inr bs" "list_all2 (\<lambda>t v. value_ok v \<and> value_matches v t) ts vs"
  shows "tuple_decode ts bs = Inr vs"
  using assms by (rule tuple_decode_encode)

theorem tuple_roundtrip_witness:
  "tuple_decode [TInt32, TVarchar 5, TBoolean] [0x02, 0x07, 0x00, 0x00, 0x00, 0x01] =
     Inr [VInt32 7, VNull, VBoolean True]"
proof -
  have "tuple_encode [TInt32, TVarchar 5, TBoolean] [VInt32 7, VNull, VBoolean True] =
      Inr [0x02, 0x07, 0x00, 0x00, 0x00, 0x01]"
    "list_all2 (\<lambda>t v. value_ok v \<and> value_matches v t) [TInt32, TVarchar 5, TBoolean]
      [VInt32 7, VNull, VBoolean True]" by code_simp+
  then show ?thesis by (rule tuple_roundtrip)
qed

text \<open>
  C26. Decoding a single column out of an encoded row, which skips the columns before it by
  their sizes, gives the value that decoding the whole row has at that position.
\<close>

theorem single_column_decode:
  assumes "tuple_decode ts bs = Inr vs" "k < length ts"
  shows "decode_column ts bs k = Inr (vs ! k)"
  using assms by (rule decode_column_decode)

theorem single_column_decode_witness:
  "decode_column [TVarchar 5, TInt32] [0x00, 0x01, 0x00, 0x61, 0x07, 0x00, 0x00, 0x00] 1 = Inr (VInt32 7)"
proof -
  have "tuple_decode [TVarchar 5, TInt32] [0x00, 0x01, 0x00, 0x61, 0x07, 0x00, 0x00, 0x00] =
    Inr [VVarchar [0x61], VInt32 7]" by code_simp
  from single_column_decode [OF this, of 1] show ?thesis by simp
qed

end
