(* ===== verification/Bloom.thy ===== *)
theory Bloom
  imports IDB_Prelude
begin

text \<open>
  The Bloom filter of an SSTable, \<^verbatim>\<open>idb-storage/src/engines/lsm/bloom.rs\<close>. The CRC-32 function
  of the third-party crate is the parameter \<^verbatim>\<open>crc\<close>; hashing a key and then a salt byte
  incrementally hashes their concatenation. Proved for every such function: a filter never
  rejects a key it was built from, and it survives serialisation.
\<close>

section \<open>Model\<close>

definition BITS_PER_KEY :: nat where "BITS_PER_KEY = 10"

definition HASH_COUNT :: nat where "HASH_COUNT = 7"

definition MIN_BIT_COUNT :: nat where "MIN_BIT_COUNT = 64"

record bloom_filter =
  bloom_bits :: bytes
  bit_count :: nat
  hash_count :: nat

definition double_hash :: "(bytes \<Rightarrow> 32 word) \<Rightarrow> bytes \<Rightarrow> 32 word \<times> 32 word" where
  "double_hash crc key = (crc key, crc (key @ [0x9E]))"

definition combined_hash :: "32 word \<Rightarrow> 32 word \<Rightarrow> nat \<Rightarrow> nat" where
  "combined_hash h1 h2 i = (unat h1 + (i * unat h2) mod 2 ^ 64) mod 2 ^ 64"

definition set_bit_at :: "bytes \<Rightarrow> nat \<Rightarrow> bytes" where
  "set_bit_at bs pos = bs[pos div 8 := bs ! (pos div 8) OR push_bit (pos mod 8) 1]"

definition bit_at :: "bytes \<Rightarrow> nat \<Rightarrow> bool" where
  "bit_at bs pos \<longleftrightarrow> bs ! (pos div 8) AND push_bit (pos mod 8) 1 \<noteq> 0"

definition insert_key :: "(bytes \<Rightarrow> 32 word) \<Rightarrow> nat \<Rightarrow> bytes \<Rightarrow> bytes \<Rightarrow> bytes" where
  "insert_key crc n key bs =
    (case double_hash crc key of (h1, h2) \<Rightarrow>
       fold (\<lambda>i bs. set_bit_at bs (combined_hash h1 h2 i mod n)) [0..<HASH_COUNT] bs)"

definition bloom_build :: "(bytes \<Rightarrow> 32 word) \<Rightarrow> bytes list \<Rightarrow> bloom_filter" where
  "bloom_build crc keys =
    (let n = max (length keys * BITS_PER_KEY) MIN_BIT_COUNT;
         byte_count = (n + 7) div 8;
         n = byte_count * 8 in
     \<lparr>bloom_bits = fold (insert_key crc n) keys (replicate byte_count 0), bit_count = n,
      hash_count = HASH_COUNT\<rparr>)"

definition bloom_may_contain :: "(bytes \<Rightarrow> 32 word) \<Rightarrow> bloom_filter \<Rightarrow> bytes \<Rightarrow> bool" where
  "bloom_may_contain crc b key =
    (if bit_count b = 0 then False
     else case double_hash crc key of (h1, h2) \<Rightarrow>
       list_all (\<lambda>i. bit_at (bloom_bits b) (combined_hash h1 h2 i mod bit_count b)) [0..<hash_count b])"

definition bloom_encode :: "bloom_filter \<Rightarrow> bytes" where
  "bloom_encode b = [of_nat (hash_count b)] @ le_bytes 4 (bit_count b mod 2 ^ 32) @ bloom_bits b"

definition bloom_decode :: "bytes \<Rightarrow> bloom_filter result" where
  "bloom_decode data =
    (if length data < 5 then Inl StorageCorrupted
     else let hashes = unat (data ! 0);
              n = le_val (take 4 (drop 1 data));
              byte_count = (n + 7) div 8 in
       if length data \<noteq> 5 + byte_count then Inl StorageCorrupted
       else Inr \<lparr>bloom_bits = drop 5 data, bit_count = n, hash_count = hashes\<rparr>)"

section \<open>No false negatives\<close>

lemma length_set_bit_at [simp]: "length (set_bit_at bs pos) = length bs"
  by (simp add: set_bit_at_def)

lemma length_fold_set_bit_at [simp]: "length (fold (\<lambda>i bs. set_bit_at bs (f i)) is bs) = length bs"
  by (induction "is" arbitrary: bs) auto

lemma length_fold_insert_key [simp]: "length (fold (insert_key crc n) keys bs) = length bs"
  by (induction keys arbitrary: bs) (auto simp: insert_key_def split_beta)

lemma bit_at_iff: "bit_at bs pos \<longleftrightarrow> bit (bs ! (pos div 8)) (pos mod 8)"
proof -
  have "pos mod 8 < 8" by simp
  then show ?thesis
    by (auto simp: bit_at_def bit_eq_iff [of _ 0] bit_and_iff bit_exp_iff simp del: mod_less_divisor)
qed

lemma bit_at_set_bit_at:
  assumes "pos < 8 * length bs"
  shows "bit_at (set_bit_at bs pos) p \<longleftrightarrow> p = pos \<or> bit_at bs p"
proof -
  have len: "pos div 8 < length bs" using assms by (simp add: less_mult_imp_div_less mult.commute)
  show ?thesis
  proof (cases "p div 8 = pos div 8")
    case True
    then have "p = pos \<longleftrightarrow> p mod 8 = pos mod 8" by (metis div_mult_mod_eq)
    moreover have "p mod 8 < 8" by simp
    ultimately show ?thesis
      using len True
      by (auto simp: bit_at_iff set_bit_at_def bit_or_iff bit_exp_iff simp del: mod_less_divisor)
  qed (auto simp: bit_at_iff set_bit_at_def)
qed

lemma fold_set_bit_at:
  assumes "\<forall>i \<in> set is. f i < 8 * length bs"
  shows "length (fold (\<lambda>i bs. set_bit_at bs (f i)) is bs) = length bs \<and>
    (bit_at (fold (\<lambda>i bs. set_bit_at bs (f i)) is bs) p \<longleftrightarrow> p \<in> f ` set is \<or> bit_at bs p)"
  using assms by (induction "is" arbitrary: bs) (auto simp: bit_at_set_bit_at)

definition key_bits :: "(bytes \<Rightarrow> 32 word) \<Rightarrow> nat \<Rightarrow> nat \<Rightarrow> bytes \<Rightarrow> nat set" where
  "key_bits crc n h key = (\<lambda>i. combined_hash (crc key) (crc (key @ [0x9E])) i mod n) ` {0..<h}"

lemma insert_key_bits:
  assumes "n = 8 * length bs" "0 < n"
  shows "length (insert_key crc n key bs) = length bs \<and>
    (bit_at (insert_key crc n key bs) p \<longleftrightarrow> p \<in> key_bits crc n HASH_COUNT key \<or> bit_at bs p)"
  using assms fold_set_bit_at [of "[0..<HASH_COUNT]" "\<lambda>i. combined_hash (crc key) (crc (key @ [0x9E])) i mod n" bs p]
  by (simp add: insert_key_def double_hash_def key_bits_def)

lemma fold_insert_key_bits:
  assumes "n = 8 * length bs" "0 < n"
  shows "length (fold (insert_key crc n) keys bs) = length bs \<and>
    (bit_at (fold (insert_key crc n) keys bs) p \<longleftrightarrow>
      p \<in> (\<Union>key \<in> set keys. key_bits crc n HASH_COUNT key) \<or> bit_at bs p)"
  using assms
proof (induction keys arbitrary: bs)
  case (Cons key keys)
  note s = insert_key_bits [OF Cons.prems, of crc key]
  then show ?case using Cons.IH [of "insert_key crc n key bs"] Cons.prems by auto
qed simp

lemma bloom_may_contain_iff:
  "bloom_may_contain crc b key \<longleftrightarrow>
    bit_count b \<noteq> 0 \<and> (\<forall>p \<in> key_bits crc (bit_count b) (hash_count b) key. bit_at (bloom_bits b) p)"
  by (auto simp: bloom_may_contain_def double_hash_def key_bits_def list_all_iff)

lemma bloom_build_size:
  "bit_count (bloom_build crc keys) = 8 * length (bloom_bits (bloom_build crc keys))"
  "0 < bit_count (bloom_build crc keys)"
  "bit_count (bloom_build crc keys) \<le> max (10 * length keys) 64 + 7"
  by (simp_all add: bloom_build_def Let_def BITS_PER_KEY_def MIN_BIT_COUNT_def)

lemma bloom_no_false_negative:
  assumes "key \<in> set keys"
  shows "bloom_may_contain crc (bloom_build crc keys) key"
proof -
  let ?n = "bit_count (bloom_build crc keys)"
  let ?z = "replicate (?n div 8) (0 :: byte)"
  have n: "?n = 8 * length ?z" "0 < ?n"
    by (simp_all add: bloom_build_def Let_def BITS_PER_KEY_def MIN_BIT_COUNT_def)
  have "bloom_bits (bloom_build crc keys) = fold (insert_key crc ?n) keys ?z" "hash_count (bloom_build crc keys) = HASH_COUNT"
    by (simp_all add: bloom_build_def Let_def)
  then show ?thesis
    using fold_insert_key_bits [OF n] assms n(2) by (auto simp: bloom_may_contain_iff)
qed

lemma bloom_decode_encode:
  assumes "bit_count b = 8 * length (bloom_bits b)" "bit_count b < 2 ^ 32" "hash_count b < 256"
  shows "bloom_decode (bloom_encode b) = Inr b"
  using assms by (simp add: bloom_decode_def bloom_encode_def le_val_le_bytes unat_of_nat Let_def)

section \<open>Membership\<close>

text \<open>
  C33. A bloom filter has no false negatives, also after it was written to a table and read back: every key
  it was built from is reported as possibly present.
\<close>

theorem bloom_member_reported:
  assumes "length keys \<le> 2 ^ 28" "key \<in> set keys"
  shows "\<exists>b. bloom_decode (bloom_encode (bloom_build crc keys)) = Inr b \<and> bloom_may_contain crc b key"
proof -
  let ?b = "bloom_build crc keys"
  have "bit_count ?b < 2 ^ 32" using bloom_build_size(3) [of crc keys] assms(1) by simp
  then have "bloom_decode (bloom_encode ?b) = Inr ?b"
    using bloom_build_size(1) [of crc keys] by (intro bloom_decode_encode) (auto simp: bloom_build_def HASH_COUNT_def Let_def)
  then show ?thesis using bloom_no_false_negative [OF assms(2), of crc] by blast
qed

theorem bloom_member_reported_witness:
  "\<exists>b. bloom_decode (bloom_encode (bloom_build (\<lambda>_. 7) [[1], [2, 3]])) = Inr b \<and> bloom_may_contain (\<lambda>_. 7) b [2, 3]"
  by (rule bloom_member_reported) simp_all

end
