(* ===== verification/Sstable.thy ===== *)
theory Sstable
  imports Bloom
begin

text \<open>
  Sorted string tables, \<^verbatim>\<open>idb-storage/src/engines/lsm/sstable.rs\<close>, at the level of the bytes of
  the file: the block-building writer, the footer and index codecs, and the reader with its
  binary search over blocks. A file is its contents; creating, syncing and renaming it are not
  modelled, and reading beyond its end is an I/O error. Machine integers are naturals with the
  wrap-around of the \<^verbatim>\<open>as u16\<close> and \<^verbatim>\<open>as u32\<close> conversions written out. Proved: a table written
  from sorted entries that fit a block is opened and read back exactly, by iteration and by
  point lookup.
\<close>

section \<open>Model\<close>

type_synonym entry = "bytes \<times> bytes option"

definition MAGIC :: nat where "MAGIC = 0x01545353"

definition BLOCK_SIZE :: nat where "BLOCK_SIZE = 4096"

definition BLOCK_DATA_CAPACITY :: nat where "BLOCK_DATA_CAPACITY = BLOCK_SIZE - 2"

definition TOMBSTONE_SENTINEL :: nat where "TOMBSTONE_SENTINEL = 0xFFFF"

definition FOOTER_SIZE :: nat where "FOOTER_SIZE = 32"

record sst_meta =
  sst_id :: nat
  first_key :: bytes
  last_key :: bytes
  file_size :: nat
  entry_count :: nat

record sst_footer =
  ft_block_count :: nat
  ft_index_offset :: nat
  ft_index_size :: nat
  ft_bloom_offset :: nat
  ft_bloom_size :: nat

record index_entry =
  ie_first_key :: bytes
  ie_offset :: nat

definition footer_body :: "sst_footer \<Rightarrow> bytes" where
  "footer_body f = le_bytes 4 MAGIC @ le_bytes 4 (ft_block_count f) @ le_bytes 8 (ft_index_offset f)
    @ le_bytes 4 (ft_index_size f) @ le_bytes 4 (ft_bloom_offset f mod 2 ^ 32) @ le_bytes 4 (ft_bloom_size f)"

definition footer_encode :: "(bytes \<Rightarrow> 32 word) \<Rightarrow> sst_footer \<Rightarrow> bytes result" where
  "footer_encode crc f =
    (if \<not> ft_bloom_offset f \<le> 2 ^ 32 - 1 then Inl Panic
     else Inr (footer_body f @ le_bytes 4 (unat (crc (footer_body f)))))"

definition footer_decode :: "(bytes \<Rightarrow> 32 word) \<Rightarrow> bytes \<Rightarrow> sst_footer result" where
  "footer_decode crc buf =
    (if le_val (take 4 buf) \<noteq> MAGIC then Inl StorageCorrupted
     else if le_val (take 4 (drop 28 buf)) \<noteq> unat (crc (take 28 buf)) then Inl StorageCorrupted
     else Inr \<lparr>ft_block_count = le_val (take 4 (drop 4 buf)), ft_index_offset = le_val (take 8 (drop 8 buf)),
               ft_index_size = le_val (take 4 (drop 16 buf)), ft_bloom_offset = le_val (take 4 (drop 20 buf)),
               ft_bloom_size = le_val (take 4 (drop 24 buf))\<rparr>)"

text \<open>The local variables of \<^verbatim>\<open>write_sstable\<close> and the bytes written so far.\<close>

record sst_writer =
  written :: bytes
  block_buf :: bytes
  block_entry_count :: nat
  block_first_key :: "bytes option"
  index_entries :: "index_entry list"
  current_block_offset :: nat
  total_entry_count :: nat
  writer_first_key :: "bytes option"
  writer_last_key :: "bytes option"
  all_keys :: "bytes list"

definition writer_init :: sst_writer where
  "writer_init = \<lparr>written = [], block_buf = [], block_entry_count = 0, block_first_key = None,
    index_entries = [], current_block_offset = 0, total_entry_count = 0, writer_first_key = None,
    writer_last_key = None, all_keys = []\<rparr>"

definition flush_block :: "sst_writer \<Rightarrow> sst_writer result" where
  "flush_block w =
    (case block_first_key w of
       None \<Rightarrow> Inl Panic
     | Some fk \<Rightarrow>
         if \<not> length (block_buf w) \<le> BLOCK_DATA_CAPACITY then Inl Panic
         else Inr (w\<lparr>block_first_key := None,
           index_entries := index_entries w @ [\<lparr>ie_first_key = fk, ie_offset = current_block_offset w\<rparr>],
           written := written w @ block_buf w @ replicate (BLOCK_DATA_CAPACITY - length (block_buf w)) 0
             @ le_bytes 2 (block_entry_count w),
           block_buf := []\<rparr>))"

definition encode_entry :: "entry \<Rightarrow> bytes" where
  "encode_entry e =
    (case e of (key, v) \<Rightarrow> le_bytes 2 (length key mod 2 ^ 16) @ key
      @ (case v of Some val \<Rightarrow> le_bytes 2 (length val mod 2 ^ 16) @ val | None \<Rightarrow> le_bytes 2 TOMBSTONE_SENTINEL))"

definition entry_size :: "entry \<Rightarrow> nat" where
  "entry_size e = 2 + length (fst e) + 2 + (case snd e of Some val \<Rightarrow> length val | None \<Rightarrow> 0)"

definition write_entry :: "entry \<Rightarrow> sst_writer \<Rightarrow> sst_writer result" where
  "write_entry e w =
    and_then (if block_buf w \<noteq> [] \<and> length (block_buf w) + entry_size e > BLOCK_DATA_CAPACITY
              then and_then (flush_block w) (\<lambda>w.
                Inr (w\<lparr>current_block_offset := (current_block_offset w + BLOCK_SIZE) mod 2 ^ 32,
                       block_entry_count := 0\<rparr>))
              else Inr w) (\<lambda>w.
      Inr (w\<lparr>block_first_key := (if block_first_key w = None then Some (fst e) else block_first_key w),
             writer_first_key := (if writer_first_key w = None then Some (fst e) else writer_first_key w),
             writer_last_key := Some (fst e),
             all_keys := all_keys w @ [fst e],
             block_buf := block_buf w @ encode_entry e,
             block_entry_count := (block_entry_count w + 1) mod 2 ^ 16,
             total_entry_count := total_entry_count w + 1\<rparr>))"

fun write_entries :: "entry list \<Rightarrow> sst_writer \<Rightarrow> sst_writer result" where
  "write_entries [] w = Inr w"
| "write_entries (e # es) w = and_then (write_entry e w) (write_entries es)"

definition encode_index_entry :: "index_entry \<Rightarrow> bytes" where
  "encode_index_entry ie =
    le_bytes 2 (length (ie_first_key ie) mod 2 ^ 16) @ ie_first_key ie @ le_bytes 4 (ie_offset ie)"

definition finish_sstable :: "(bytes \<Rightarrow> 32 word) \<Rightarrow> nat \<Rightarrow> sst_writer \<Rightarrow> (sst_meta \<times> bytes) result" where
  "finish_sstable crc sid w =
    (let blocks = length (index_entries w) mod 2 ^ 32;
         bl_offset = (current_block_offset w + BLOCK_SIZE) mod 2 ^ 32;
         bloom_bytes = bloom_encode (bloom_build crc (all_keys w));
         bl_size = length bloom_bytes mod 2 ^ 32;
         out = written w @ bloom_bytes;
         idx_offset = bl_offset + bl_size in
     if length out \<noteq> idx_offset then Inl Panic
     else let idx = concat (map encode_index_entry (index_entries w)) @ le_bytes 4 blocks;
              idx_size = length idx mod 2 ^ 32 in
       and_then (footer_encode crc \<lparr>ft_block_count = blocks, ft_index_offset = idx_offset,
           ft_index_size = idx_size, ft_bloom_offset = bl_offset, ft_bloom_size = bl_size\<rparr>) (\<lambda>ft.
         let out = out @ idx @ ft in
         Inr (\<lparr>sst_id = sid, first_key = the (writer_first_key w), last_key = the (writer_last_key w),
               file_size = length out, entry_count = total_entry_count w\<rparr>, out)))"

definition write_sstable ::
    "(bytes \<Rightarrow> 32 word) \<Rightarrow> nat \<Rightarrow> entry list \<Rightarrow> (sst_meta \<times> bytes) option result" where
  "write_sstable crc sid entries =
    and_then (write_entries entries writer_init) (\<lambda>w.
      if total_entry_count w = 0 then Inr None
      else and_then (flush_block w) (\<lambda>w.
        and_then (finish_sstable crc sid w) (\<lambda>r. Inr (Some r))))"

fun decode_entries :: "nat \<Rightarrow> bytes \<Rightarrow> entry list result" where
  "decode_entries 0 rest = Inr []"
| "decode_entries (Suc n) rest =
    (if length rest < 2 then Inl StorageCorrupted
     else let key_len = le_val (take 2 rest); rest = drop 2 rest in
       if length rest < key_len then Inl StorageCorrupted
       else let key = take key_len rest; rest = drop key_len rest in
         if length rest < 2 then Inl StorageCorrupted
         else let value_len = le_val (take 2 rest); rest = drop 2 rest in
           if value_len = TOMBSTONE_SENTINEL
           then and_then (decode_entries n rest) (\<lambda>es. Inr ((key, None) # es))
           else if length rest < value_len then Inl StorageCorrupted
           else and_then (decode_entries n (drop value_len rest)) (\<lambda>es.
             Inr ((key, Some (take value_len rest)) # es)))"

fun decode_index_entries :: "nat \<Rightarrow> bytes \<Rightarrow> index_entry list result" where
  "decode_index_entries 0 rest = Inr []"
| "decode_index_entries (Suc n) rest =
    (if length rest < 2 then Inl StorageCorrupted
     else let key_len = le_val (take 2 rest); rest = drop 2 rest in
       if length rest < key_len then Inl StorageCorrupted
       else let key = take key_len rest; rest = drop key_len rest in
         if length rest < 4 then Inl StorageCorrupted
         else and_then (decode_index_entries n (drop 4 rest)) (\<lambda>es.
           Inr (\<lparr>ie_first_key = key, ie_offset = le_val (take 4 rest)\<rparr> # es)))"

definition decode_index_block :: "bytes \<Rightarrow> nat \<Rightarrow> index_entry list result" where
  "decode_index_block data expected_count =
    (if length data < 4 then Inl StorageCorrupted
     else let count = le_val (drop (length data - 4) data) in
       if count \<noteq> expected_count then Inl Panic
       else decode_index_entries count (take (length data - 4) data))"

definition read_exact :: "bytes \<Rightarrow> nat \<Rightarrow> nat \<Rightarrow> bytes result" where
  "read_exact file offset n =
    (if offset + n \<le> length file then Inr (take n (drop offset file)) else Inl Io)"

definition read_block :: "bytes \<Rightarrow> nat \<Rightarrow> entry list result" where
  "read_block file offset =
    and_then (read_exact file offset BLOCK_SIZE) (\<lambda>buf.
      decode_entries (le_val (drop BLOCK_DATA_CAPACITY buf)) (take BLOCK_DATA_CAPACITY buf))"

definition read_last_key_in_block :: "bytes \<Rightarrow> nat \<Rightarrow> bytes result" where
  "read_last_key_in_block file offset =
    and_then (read_block file offset) (\<lambda>entries.
      if entries = [] then Inl Panic else Inr (fst (last entries)))"

fun count_all_entries :: "bytes \<Rightarrow> index_entry list \<Rightarrow> nat result" where
  "count_all_entries file [] = Inr 0"
| "count_all_entries file (ie # ies) =
    and_then (read_exact file (ie_offset ie + BLOCK_DATA_CAPACITY) 2) (\<lambda>buf.
      and_then (count_all_entries file ies) (\<lambda>total. Inr (le_val buf + total)))"

record sst_reader =
  rd_file :: bytes
  rd_footer :: sst_footer
  rd_index :: "index_entry list"
  rd_meta :: sst_meta
  rd_bloom :: "bloom_filter option"

definition reader_open :: "(bytes \<Rightarrow> 32 word) \<Rightarrow> nat \<Rightarrow> bytes \<Rightarrow> sst_reader result" where
  "reader_open crc sid file =
    (if length file < FOOTER_SIZE then Inl StorageCorrupted
     else and_then (footer_decode crc (drop (length file - FOOTER_SIZE) file)) (\<lambda>ft.
       and_then (read_exact file (ft_index_offset ft) (ft_index_size ft)) (\<lambda>index_buf.
       and_then (decode_index_block index_buf (ft_block_count ft)) (\<lambda>index.
       and_then (if ft_bloom_size ft > 0
                 then and_then (read_exact file (ft_bloom_offset ft) (ft_bloom_size ft)) (\<lambda>bb.
                   and_then (bloom_decode bb) (\<lambda>b. Inr (Some b)))
                 else Inr None) (\<lambda>bloom.
       and_then (if index = [] then Inr [] else read_last_key_in_block file (ie_offset (last index))) (\<lambda>lk.
       and_then (count_all_entries file index) (\<lambda>n.
         Inr \<lparr>rd_file = file, rd_footer = ft, rd_index = index,
              rd_meta = \<lparr>sst_id = sid, first_key = (if index = [] then [] else ie_first_key (hd index)),
                         last_key = lk, file_size = length file, entry_count = n\<rparr>,
              rd_bloom = bloom\<rparr>)))))))"

function find_block_loop :: "index_entry list \<Rightarrow> bytes \<Rightarrow> nat \<Rightarrow> nat \<Rightarrow> nat" where
  "find_block_loop index key lo hi =
    (if lo < hi
     then let mid = lo + (hi - lo) div 2 in
       if ie_first_key (index ! mid) \<le> key then find_block_loop index key (mid + 1) hi
       else find_block_loop index key lo mid
     else lo)"
  by pat_completeness auto
termination
  by (relation "measure (\<lambda>(_, _, lo, hi). hi - lo)") auto

declare find_block_loop.simps [simp del]

definition find_block_for_key :: "sst_reader \<Rightarrow> bytes \<Rightarrow> nat result" where
  "find_block_for_key r key =
    (let lo = find_block_loop (rd_index r) key 0 (length (rd_index r)) in
     if \<not> lo > 0 then Inl Panic else Inr (lo - 1))"

fun scan_block :: "entry list \<Rightarrow> bytes \<Rightarrow> bytes option option" where
  "scan_block [] key = None"
| "scan_block ((k, v) # es) key =
    (if k = key then Some v else if k > key then None else scan_block es key)"

definition reader_get :: "(bytes \<Rightarrow> 32 word) \<Rightarrow> sst_reader \<Rightarrow> bytes \<Rightarrow> bytes option option result" where
  "reader_get crc r key =
    (if (case rd_bloom r of Some b \<Rightarrow> \<not> bloom_may_contain crc b key | None \<Rightarrow> False) then Inr None
     else if key < first_key (rd_meta r) \<or> key > last_key (rd_meta r) then Inr None
     else and_then (find_block_for_key r key) (\<lambda>block_idx.
       and_then (read_block (rd_file r) (ie_offset (rd_index r ! block_idx))) (\<lambda>entries.
         Inr (scan_block entries key))))"

definition reader_may_contain :: "(bytes \<Rightarrow> 32 word) \<Rightarrow> sst_reader \<Rightarrow> bytes \<Rightarrow> bool" where
  "reader_may_contain crc r key =
    (if key < first_key (rd_meta r) \<or> key > last_key (rd_meta r) then False
     else case rd_bloom r of Some b \<Rightarrow> bloom_may_contain crc b key | None \<Rightarrow> True)"

fun read_blocks :: "bytes \<Rightarrow> nat list \<Rightarrow> entry list result" where
  "read_blocks file [] = Inr []"
| "read_blocks file (offset # offsets) =
    and_then (read_block file offset) (\<lambda>es. and_then (read_blocks file offsets) (\<lambda>rest. Inr (es @ rest)))"

definition reader_iter :: "sst_reader \<Rightarrow> entry list result" where
  "reader_iter r = read_blocks (rd_file r) (map ie_offset (rd_index r))"

section \<open>Entries and blocks\<close>

definition total_size :: "entry list \<Rightarrow> nat" where
  "total_size es = sum_list (map entry_size es)"

definition encode_all :: "entry list \<Rightarrow> bytes" where
  "encode_all es = concat (map encode_entry es)"

definition entry_fits :: "entry \<Rightarrow> bool" where
  "entry_fits e \<longleftrightarrow> entry_size e \<le> BLOCK_DATA_CAPACITY"

definition block_ok :: "entry list \<Rightarrow> bool" where
  "block_ok b \<longleftrightarrow> b \<noteq> [] \<and> total_size b \<le> BLOCK_DATA_CAPACITY"

definition block_bytes :: "entry list \<Rightarrow> bytes" where
  "block_bytes b = encode_all b @ replicate (BLOCK_DATA_CAPACITY - total_size b) 0 @ le_bytes 2 (length b)"

definition block_index :: "entry list list \<Rightarrow> index_entry list" where
  "block_index bs = map (\<lambda>i. \<lparr>ie_first_key = fst (hd (bs ! i)), ie_offset = BLOCK_SIZE * i mod 2 ^ 32\<rparr>) [0..<length bs]"

lemma total_size_simps [simp]:
  "total_size [] = 0" "total_size (e # es) = entry_size e + total_size es"
  "total_size (es @ fs) = total_size es + total_size fs"
  by (simp_all add: total_size_def)

lemma encode_all_simps [simp]:
  "encode_all [] = []" "encode_all (e # es) = encode_entry e @ encode_all es"
  "encode_all (es @ fs) = encode_all es @ encode_all fs"
  by (simp_all add: encode_all_def)

lemma length_encode_entry [simp]: "length (encode_entry e) = entry_size e"
  by (simp add: encode_entry_def entry_size_def split: prod.split option.split)

lemma length_encode_all [simp]: "length (encode_all es) = total_size es"
  by (induction es) auto

lemma entry_size_ge_4: "4 \<le> entry_size e"
  by (simp add: entry_size_def)

lemma length_le_total_size: "4 * length es \<le> total_size es"
  by (induction es) (use entry_size_ge_4 in \<open>auto intro: add_mono\<close>)

lemma encode_all_eq_Nil [simp]: "encode_all es = [] \<longleftrightarrow> es = []"
proof -
  have "es = []" if "encode_all es = []"
    using that length_le_total_size [of es] length_encode_all [of es] by simp
  then show ?thesis by auto
qed

lemma total_size_mono: "e \<in> set es \<Longrightarrow> entry_size e \<le> total_size es"
  by (induction es) auto

lemma entry_lengths:
  assumes "entry_fits (k, v)"
  shows "length k < 2 ^ 16" "v = Some val \<Longrightarrow> length val < TOMBSTONE_SENTINEL"
  using assms by (auto simp: entry_fits_def entry_size_def BLOCK_DATA_CAPACITY_def BLOCK_SIZE_def TOMBSTONE_SENTINEL_def)

lemma le_val_u16: "n < 2 ^ 16 \<Longrightarrow> le_val (le_bytes 2 n) = n"
  by (simp add: le_val_le_bytes)

lemma le_val_u32: "n < 2 ^ 32 \<Longrightarrow> le_val (le_bytes 4 n) = n"
  by (simp add: le_val_le_bytes)

lemma decode_entries_encode:
  assumes "\<forall>e \<in> set es. entry_fits e"
  shows "decode_entries (length es) (encode_all es @ rest) = Inr es"
  using assms
proof (induction es)
  case (Cons e es)
  obtain k v where e: "e = (k, v)" by fastforce
  have "entry_fits (k, v)" using Cons.prems e by simp
  note l = entry_lengths [OF this]
  have T: "TOMBSTONE_SENTINEL < 2 ^ 16" by (simp add: TOMBSTONE_SENTINEL_def)
  show ?case
  proof (cases v)
    case None
    then show ?thesis using Cons l T by (simp add: e encode_entry_def le_val_u16 Let_def)
  next
    case (Some val)
    then show ?thesis using Cons l T by (simp add: e encode_entry_def le_val_u16 Let_def)
  qed
qed simp

lemma block_ok_fits: "block_ok b \<Longrightarrow> \<forall>e \<in> set b. entry_fits e"
  using total_size_mono by (fastforce simp: block_ok_def entry_fits_def)

lemma length_block_bytes [simp]: "block_ok b \<Longrightarrow> length (block_bytes b) = BLOCK_SIZE"
  by (simp add: block_ok_def block_bytes_def BLOCK_DATA_CAPACITY_def BLOCK_SIZE_def)

lemma block_ok_length: "block_ok b \<Longrightarrow> length b < 2 ^ 16"
  using length_le_total_size [of b] by (simp add: block_ok_def BLOCK_DATA_CAPACITY_def BLOCK_SIZE_def)

lemma block_bytes_parts:
  assumes "block_ok b"
  shows "take BLOCK_DATA_CAPACITY (block_bytes b) =
      encode_all b @ replicate (BLOCK_DATA_CAPACITY - total_size b) 0"
    and "le_val (drop BLOCK_DATA_CAPACITY (block_bytes b)) = length b"
  using assms block_ok_length [OF assms] by (simp_all add: block_ok_def block_bytes_def le_val_le_bytes)

lemma length_concat_blocks: "\<forall>b \<in> set bs. block_ok b \<Longrightarrow> length (concat (map block_bytes bs)) = BLOCK_SIZE * length bs"
  by (induction bs) auto

lemma nth_block:
  assumes "\<forall>b \<in> set bs. block_ok b" "i < length bs"
  shows "take BLOCK_SIZE (drop (BLOCK_SIZE * i) (concat (map block_bytes bs) @ rest)) = block_bytes (bs ! i)"
  using assms
proof (induction bs arbitrary: i)
  case (Cons b bs)
  show ?case
  proof (cases i)
    case (Suc j)
    then show ?thesis using Cons by simp
  qed (use Cons in simp)
qed simp

lemma read_block_nth:
  assumes "\<forall>b \<in> set bs. block_ok b" "i < length bs" "file = concat (map block_bytes bs) @ rest"
  shows "read_block file (BLOCK_SIZE * i) = Inr (bs ! i)"
proof -
  have ok: "block_ok (bs ! i)" using assms by simp
  have "BLOCK_SIZE * i + BLOCK_SIZE \<le> BLOCK_SIZE * length bs"
    using assms(2) by (metis Suc_leI add.commute mult_Suc_right mult_le_mono2)
  then show ?thesis
    using nth_block [OF assms(1,2)] block_bytes_parts [OF ok] decode_entries_encode [OF block_ok_fits [OF ok]]
    by (simp add: read_block_def read_exact_def assms(3) length_concat_blocks [OF assms(1)])
qed

section \<open>The writer\<close>

definition writer_holds :: "sst_writer \<Rightarrow> entry list list \<Rightarrow> entry list \<Rightarrow> bool" where
  "writer_holds w bs cur \<longleftrightarrow>
    (\<forall>b \<in> set bs. block_ok b) \<and> total_size cur \<le> BLOCK_DATA_CAPACITY \<and> (bs \<noteq> [] \<longrightarrow> cur \<noteq> []) \<and>
    BLOCK_DATA_CAPACITY * length bs \<le> 2 * total_size (concat bs) + total_size cur \<and>
    w = \<lparr>written = concat (map block_bytes bs), block_buf = encode_all cur, block_entry_count = length cur,
         block_first_key = (if cur = [] then None else Some (fst (hd cur))), index_entries = block_index bs,
         current_block_offset = BLOCK_SIZE * length bs mod 2 ^ 32, total_entry_count = length (concat bs @ cur),
         writer_first_key = (if concat bs @ cur = [] then None else Some (fst (hd (concat bs @ cur)))),
         writer_last_key = (if concat bs @ cur = [] then None else Some (fst (last (concat bs @ cur)))),
         all_keys = map fst (concat bs @ cur)\<rparr>"

lemma block_index_append: "block_index (bs @ [b]) =
    block_index bs @ [\<lparr>ie_first_key = fst (hd b), ie_offset = BLOCK_SIZE * length bs mod 2 ^ 32\<rparr>]"
  by (simp add: block_index_def nth_append)

lemma writer_holds_init: "writer_holds writer_init [] []"
  by (simp add: writer_holds_def writer_init_def block_index_def)

lemma block_ok_cur:
  "writer_holds w bs cur \<Longrightarrow> cur \<noteq> [] \<Longrightarrow> block_ok cur"
  by (simp add: writer_holds_def block_ok_def)

lemma flush_block_holds:
  assumes "writer_holds w bs cur" "cur \<noteq> []"
  shows "flush_block w = Inr (w\<lparr>block_first_key := None, block_buf := [],
    written := concat (map block_bytes (bs @ [cur])), index_entries := block_index (bs @ [cur])\<rparr>)"
  using assms by (simp add: writer_holds_def flush_block_def block_index_append block_bytes_def)

lemma write_entry_holds:
  assumes w: "writer_holds w bs cur" and fit: "entry_fits e"
  shows "\<exists>bs' cur' w'. write_entry e w = Inr w' \<and> writer_holds w' bs' cur' \<and>
    concat bs' @ cur' = (concat bs @ cur) @ [e] \<and> cur' \<noteq> []"
proof (cases "cur \<noteq> [] \<and> total_size cur + entry_size e > BLOCK_DATA_CAPACITY")
  case True
  then have ne: "cur \<noteq> []" by simp
  have bc: "block_buf w = encode_all cur" using w by (simp add: writer_holds_def)
  have ok: "block_ok cur" by (rule block_ok_cur [OF w ne])
  let ?w1 = "w\<lparr>block_first_key := None, block_buf := [], written := concat (map block_bytes (bs @ [cur])),
    index_entries := block_index (bs @ [cur]), block_entry_count := 0,
    current_block_offset := (current_block_offset w + BLOCK_SIZE) mod 2 ^ 32\<rparr>"
  have e: "entry_size e \<le> BLOCK_DATA_CAPACITY" using fit by (simp add: entry_fits_def)
  have "BLOCK_DATA_CAPACITY * length bs \<le> 2 * total_size (concat bs) + total_size cur"
    using w by (simp add: writer_holds_def)
  then have dens: "BLOCK_DATA_CAPACITY * length (bs @ [cur]) \<le> 2 * total_size (concat (bs @ [cur])) + total_size [e]"
    using True by simp
  have off: "(BLOCK_SIZE * length bs mod 2 ^ 32 + BLOCK_SIZE) mod 2 ^ 32 = BLOCK_SIZE * length (bs @ [cur]) mod 2 ^ 32"
    by (simp only: mod_add_left_eq) (simp add: add.commute)
  have we: "write_entry e w = Inr (?w1\<lparr>block_first_key := Some (fst e),
      writer_first_key := (if writer_first_key w = None then Some (fst e) else writer_first_key w),
      writer_last_key := Some (fst e), all_keys := all_keys w @ [fst e], block_buf := encode_entry e,
      block_entry_count := 1, total_entry_count := total_entry_count w + 1\<rparr>)"
    using True by (simp add: write_entry_def flush_block_holds [OF w ne] bc)
  show ?thesis
    unfolding we using True w ok dens e off
    by (intro exI [of _ "bs @ [cur]"] exI [of _ "[e]"]) (auto simp: writer_holds_def hd_append)
next
  case False
  have "BLOCK_DATA_CAPACITY * length bs \<le> 2 * total_size (concat bs) + total_size (cur @ [e])"
    using w by (simp add: writer_holds_def)
  moreover have cap: "total_size (cur @ [e]) \<le> BLOCK_DATA_CAPACITY" using False fit by (auto simp: entry_fits_def)
  then have "length (cur @ [e]) < 2 ^ 16" by (intro block_ok_length) (simp add: block_ok_def)
  ultimately show ?thesis
    using False w cap
    by (intro exI [of _ bs] exI [of _ "cur @ [e]"])
      (auto simp: write_entry_def writer_holds_def hd_append)
qed

lemma write_entries_holds:
  assumes "writer_holds w bs cur" "\<forall>e \<in> set es. entry_fits e"
  shows "\<exists>bs' cur' w'. write_entries es w = Inr w' \<and> writer_holds w' bs' cur' \<and>
    concat bs' @ cur' = (concat bs @ cur) @ es \<and> (es \<noteq> [] \<longrightarrow> cur' \<noteq> [])"
  using assms
proof (induction es arbitrary: w bs cur)
  case (Cons e es)
  from write_entry_holds [OF Cons.prems(1), of e] Cons.prems(2) obtain w1 bs1 cur1
    where 1: "write_entry e w = Inr w1" "writer_holds w1 bs1 cur1" "concat bs1 @ cur1 = (concat bs @ cur) @ [e]"
      "cur1 \<noteq> []" by auto
  from Cons.IH [OF 1(2)] Cons.prems(2) obtain w2 bs2 cur2
    where 2: "write_entries es w1 = Inr w2" "writer_holds w2 bs2 cur2" "concat bs2 @ cur2 = (concat bs1 @ cur1) @ es"
      "es \<noteq> [] \<longrightarrow> cur2 \<noteq> []" by auto
  have "cur2 \<noteq> []"
  proof (cases "es = []")
    case True
    then show ?thesis using 1 2 by (auto simp: writer_holds_def)
  qed (use 2 in simp)
  then show ?case using 1 2 by (intro exI [of _ bs2] exI [of _ cur2] exI [of _ w2]) simp
qed auto

section \<open>The file\<close>

definition table_fits :: "entry list \<Rightarrow> bool" where
  "table_fits es \<longleftrightarrow> es \<noteq> [] \<and> (\<forall>e \<in> set es. entry_fits e) \<and> total_size es \<le> 2 ^ 28"

definition layout_index :: "entry list list \<Rightarrow> bytes" where
  "layout_index bs = concat (map encode_index_entry (block_index bs)) @ le_bytes 4 (length bs)"

definition layout_bloom :: "(bytes \<Rightarrow> 32 word) \<Rightarrow> entry list list \<Rightarrow> bytes" where
  "layout_bloom crc bs = bloom_encode (bloom_build crc (map fst (concat bs)))"

definition layout_footer :: "(bytes \<Rightarrow> 32 word) \<Rightarrow> entry list list \<Rightarrow> sst_footer" where
  "layout_footer crc bs =
    \<lparr>ft_block_count = length bs, ft_index_offset = BLOCK_SIZE * length bs + length (layout_bloom crc bs),
     ft_index_size = length (layout_index bs), ft_bloom_offset = BLOCK_SIZE * length bs,
     ft_bloom_size = length (layout_bloom crc bs)\<rparr>"

definition layout_file :: "(bytes \<Rightarrow> 32 word) \<Rightarrow> entry list list \<Rightarrow> bytes" where
  "layout_file crc bs = concat (map block_bytes bs) @ layout_bloom crc bs @ layout_index bs
    @ footer_body (layout_footer crc bs) @ le_bytes 4 (unat (crc (footer_body (layout_footer crc bs))))"

definition layout_meta :: "(bytes \<Rightarrow> 32 word) \<Rightarrow> nat \<Rightarrow> entry list list \<Rightarrow> sst_meta" where
  "layout_meta crc sid bs =
    \<lparr>sst_id = sid, first_key = fst (hd (concat bs)), last_key = fst (last (concat bs)),
     file_size = length (layout_file crc bs), entry_count = length (concat bs)\<rparr>"

definition layout_small :: "(bytes \<Rightarrow> 32 word) \<Rightarrow> entry list list \<Rightarrow> bool" where
  "layout_small crc bs \<longleftrightarrow> bs \<noteq> [] \<and> (\<forall>b \<in> set bs. block_ok b) \<and> BLOCK_SIZE * length bs < 2 ^ 30 \<and>
    length (layout_bloom crc bs) < 2 ^ 30 \<and> length (layout_index bs) < 2 ^ 30 \<and>
    bit_count (bloom_build crc (map fst (concat bs))) < 2 ^ 32"

lemma length_layout_bloom: "length (layout_bloom crc bs) = 5 + bit_count (bloom_build crc (map fst (concat bs))) div 8"
  by (simp add: layout_bloom_def bloom_encode_def bloom_build_size(1))

lemma hd_block_fits:
  "\<forall>b \<in> set bs. block_ok b \<Longrightarrow> i < length bs \<Longrightarrow> length (fst (hd (bs ! i))) + 4 \<le> total_size (bs ! i)"
  using total_size_mono [of "hd (bs ! i)" "bs ! i"] nth_mem [of i bs]
  by (fastforce simp: block_ok_def entry_size_def)

lemma length_layout_index:
  assumes "\<forall>b \<in> set bs. block_ok b"
  shows "length (layout_index bs) \<le> 2 * total_size (concat bs) + 4"
proof -
  have "length (concat (map encode_index_entry (block_index bs))) \<le> 2 * total_size (concat bs)"
    using assms
  proof (induction bs rule: rev_induct)
    case (snoc b bs)
    then have "length (fst (hd b)) + 4 \<le> total_size b" using hd_block_fits [of "[b]" 0] by simp
    then show ?case using snoc by (simp add: block_index_append encode_index_entry_def)
  qed (simp add: block_index_def)
  then show ?thesis by (simp add: layout_index_def)
qed

lemma layout_small_intro:
  assumes "\<forall>b \<in> set bs. block_ok b" "bs \<noteq> []" "total_size (concat bs) \<le> 2 ^ 28"
    and "BLOCK_DATA_CAPACITY * (length bs - 1) \<le> 2 * total_size (concat bs)"
  shows "layout_small crc bs"
proof -
  have "4096 * length bs < 2 ^ 30"
    using assms(2,3,4) by (cases bs) (simp_all add: BLOCK_DATA_CAPACITY_def BLOCK_SIZE_def)
  moreover have "length (concat bs) \<le> 2 ^ 26" using length_le_total_size [of "concat bs"] assms(3) by simp
  then have "bit_count (bloom_build crc (map fst (concat bs))) \<le> 10 * 2 ^ 26 + 71"
    using bloom_build_size(3) [of crc "map fst (concat bs)"] by simp
  ultimately show ?thesis
    using assms length_layout_index [OF assms(1)]
    by (auto simp: layout_small_def length_layout_bloom BLOCK_SIZE_def)
qed

lemma finish_layout:
  assumes w: "writer_holds w bs cur" "cur \<noteq> []" and small: "layout_small crc (bs @ [cur])"
    and fl: "flush_block w = Inr w'"
  shows "finish_sstable crc sid w' = Inr (layout_meta crc sid (bs @ [cur]), layout_file crc (bs @ [cur]))"
proof -
  let ?bs = "bs @ [cur]"
  have ok: "\<forall>b \<in> set ?bs. block_ok b" and S: "BLOCK_SIZE * length ?bs < 2 ^ 30"
    and B: "length (layout_bloom crc ?bs) < 2 ^ 30" and I: "length (layout_index ?bs) < 2 ^ 30"
    using small by (simp_all add: layout_small_def)
  have n: "length ?bs < 2 ^ 30" using S by (simp add: BLOCK_SIZE_def)
  have off: "(BLOCK_SIZE * length bs mod 2 ^ 32 + BLOCK_SIZE) mod 2 ^ 32 = BLOCK_SIZE * length ?bs"
    using S by simp
  have w': "written w' = concat (map block_bytes ?bs)" "index_entries w' = block_index ?bs"
    "current_block_offset w' = BLOCK_SIZE * length bs mod 2 ^ 32" "total_entry_count w' = length (concat ?bs)"
    "writer_first_key w' = Some (fst (hd (concat ?bs)))" "writer_last_key w' = Some (fst (last (concat ?bs)))"
    "all_keys w' = map fst (concat ?bs)"
    using fl flush_block_holds [OF w] w by (auto simp: writer_holds_def)
  have bi: "length (block_index ?bs) = length ?bs" by (simp add: block_index_def)
  have lb: "layout_bloom crc ?bs = bloom_encode (bloom_build crc (all_keys w'))"
    by (simp add: layout_bloom_def w'(7))
  have out: "length (written w') = BLOCK_SIZE * length ?bs" unfolding w'(1) by (rule length_concat_blocks [OF ok])
  have ft: "footer_encode crc (layout_footer crc ?bs) = Inr (footer_body (layout_footer crc ?bs)
      @ le_bytes 4 (unat (crc (footer_body (layout_footer crc ?bs)))))"
    using S by (simp add: footer_encode_def layout_footer_def)
  have li: "concat (map encode_index_entry (index_entries w')) @ le_bytes 4 (length ?bs) = layout_index ?bs"
    by (simp only: layout_index_def w'(2))
  have m: "length ?bs mod 2 ^ 32 = length ?bs" "length (layout_bloom crc ?bs) mod 2 ^ 32 = length (layout_bloom crc ?bs)"
    "length (layout_index ?bs) mod 2 ^ 32 = length (layout_index ?bs)" using n B I by simp_all
  have bo: "(current_block_offset w' + BLOCK_SIZE) mod 2 ^ 32 = BLOCK_SIZE * length ?bs"
    unfolding w'(3) by (rule off)
  have lf: "length (written w' @ layout_bloom crc ?bs) = BLOCK_SIZE * length ?bs + length (layout_bloom crc ?bs)"
    by (simp add: out)
  show ?thesis
    unfolding finish_sstable_def Let_def lb [symmetric] bo w'(2) bi m
    by (simp only: lf [unfolded w'(1)] li [unfolded w'(2)] m not_True_eq_False if_False simp_thms layout_footer_def [symmetric] ft
        and_then_Inr w'(1,4-6) option.sel)
      (simp only: layout_meta_def layout_file_def append_assoc)
qed

lemma write_sstable_layout:
  assumes "table_fits es"
  obtains bs where "concat bs = es" "layout_small crc bs"
    "\<And>sid. write_sstable crc sid es = Inr (Some (layout_meta crc sid bs, layout_file crc bs))"
proof -
  have fit: "\<forall>e \<in> set es. entry_fits e" and ne: "es \<noteq> []" and sz: "total_size es \<le> 2 ^ 28"
    using assms by (simp_all add: table_fits_def)
  from write_entries_holds [OF writer_holds_init fit] ne obtain w bs cur
    where w: "write_entries es writer_init = Inr w" "writer_holds w bs cur" "concat bs @ cur = es" "cur \<noteq> []" by auto
  have small: "layout_small crc (bs @ [cur])"
    using w block_ok_cur [OF w(2,4)] sz by (intro layout_small_intro) (auto simp: writer_holds_def)
  obtain w' where fl: "flush_block w = Inr w'" using flush_block_holds [OF w(2,4)] by blast
  have t: "total_entry_count w \<noteq> 0" using w(2,4) by (simp add: writer_holds_def)
  have "write_sstable crc sid es = Inr (Some (layout_meta crc sid (bs @ [cur]), layout_file crc (bs @ [cur])))" for sid
    using finish_layout [OF w(2,4) small fl] by (simp add: write_sstable_def w(1) t fl)
  then show thesis using that [of "bs @ [cur]"] w(3) small by simp
qed

section \<open>The reader\<close>

lemma footer_decode_encode:
  assumes "ft_block_count f < 2 ^ 32" "ft_index_offset f < 2 ^ 64" "ft_index_size f < 2 ^ 32"
    "ft_bloom_offset f < 2 ^ 32" "ft_bloom_size f < 2 ^ 32"
  shows "footer_decode crc (footer_body f @ le_bytes 4 (unat (crc (footer_body f)))) = Inr f"
proof -
  have "length (footer_body f) = 28" by (simp add: footer_body_def)
  moreover have "unat (crc (footer_body f)) < 2 ^ 32"
    using unsigned_less [of "crc (footer_body f)", where ?'a = nat] by simp
  moreover have "MAGIC < 2 ^ 32" by (simp add: MAGIC_def)
  ultimately show ?thesis
    using assms by (simp add: footer_decode_def le_val_u32) (simp add: footer_body_def le_val_le_bytes)
qed

lemma decode_index_entries_encode:
  assumes "\<forall>ie \<in> set ies. length (ie_first_key ie) < 2 ^ 16 \<and> ie_offset ie < 2 ^ 32"
  shows "decode_index_entries (length ies) (concat (map encode_index_entry ies)) = Inr ies"
  using assms by (induction ies) (simp_all add: encode_index_entry_def le_val_u16 le_val_u32 Let_def)

lemma block_index_facts:
  assumes "layout_small crc bs"
  shows "\<forall>ie \<in> set (block_index bs). length (ie_first_key ie) < 2 ^ 16 \<and> ie_offset ie < 2 ^ 32"
    and "length (block_index bs) = length bs"
    and "i < length bs \<Longrightarrow> block_index bs ! i = \<lparr>ie_first_key = fst (hd (bs ! i)), ie_offset = BLOCK_SIZE * i\<rparr>"
    and "map ie_offset (block_index bs) = map (\<lambda>i. BLOCK_SIZE * i) [0..<length bs]"
proof -
  have ok: "\<forall>b \<in> set bs. block_ok b" and n: "BLOCK_SIZE * length bs < 2 ^ 30"
    using assms by (simp_all add: layout_small_def)
  have off: "BLOCK_SIZE * i mod 2 ^ 32 = BLOCK_SIZE * i" if "i < length bs" for i
    using that n by (simp add: BLOCK_SIZE_def)
  have "length (fst (hd (bs ! i))) < 2 ^ 16" if "i < length bs" for i
    using hd_block_fits [OF ok that] ok nth_mem [OF that]
    by (fastforce simp: block_ok_def BLOCK_DATA_CAPACITY_def BLOCK_SIZE_def)
  then show "\<forall>ie \<in> set (block_index bs). length (ie_first_key ie) < 2 ^ 16 \<and> ie_offset ie < 2 ^ 32"
    by (auto simp: block_index_def)
  show "length (block_index bs) = length bs" by (simp add: block_index_def)
  show "i < length bs \<Longrightarrow> block_index bs ! i = \<lparr>ie_first_key = fst (hd (bs ! i)), ie_offset = BLOCK_SIZE * i\<rparr>"
    using off by (simp add: block_index_def)
  show "map ie_offset (block_index bs) = map (\<lambda>i. BLOCK_SIZE * i) [0..<length bs]"
    using off by (simp add: block_index_def)
qed

lemma decode_layout_index:
  assumes "layout_small crc bs"
  shows "decode_index_block (layout_index bs) (length bs) = Inr (block_index bs)"
proof -
  have "length bs < 2 ^ 32" using assms by (simp add: layout_small_def BLOCK_SIZE_def)
  then show ?thesis
    using decode_index_entries_encode [OF block_index_facts(1) [OF assms]] block_index_facts(2) [OF assms]
    by (simp add: decode_index_block_def layout_index_def le_val_u32 Let_def)
qed

lemma layout_file_parts:
  assumes "layout_small crc bs"
  defines "f \<equiv> layout_footer crc bs" and "file \<equiv> layout_file crc bs"
  shows "32 \<le> length file" "footer_decode crc (drop (length file - 32) file) = Inr f"
    and "read_exact file (ft_index_offset f) (ft_index_size f) = Inr (layout_index bs)"
    and "read_exact file (ft_bloom_offset f) (ft_bloom_size f) = Inr (layout_bloom crc bs)"
    and "i < length bs \<Longrightarrow> read_block file (BLOCK_SIZE * i) = Inr (bs ! i)"
    and "i < length bs \<Longrightarrow> read_exact file (BLOCK_SIZE * i + BLOCK_DATA_CAPACITY) 2 = Inr (le_bytes 2 (length (bs ! i)))"
proof -
  have ok: "\<forall>b \<in> set bs. block_ok b" using assms by (simp add: layout_small_def)
  note lc = length_concat_blocks [OF ok]
  have fb: "length (footer_body f) = 28" for f by (simp add: footer_body_def)
  let ?tail = "footer_body f @ le_bytes 4 (unat (crc (footer_body f)))"
  have fl: "file = concat (map block_bytes bs) @ layout_bloom crc bs @ layout_index bs @ ?tail"
    by (simp add: file_def f_def layout_file_def)
  have len: "length file = BLOCK_SIZE * length bs + length (layout_bloom crc bs) + length (layout_index bs) + 32"
    by (simp add: fl lc fb)
  show "32 \<le> length file" by (simp add: len)
  have "drop (length file - 32) file = ?tail" unfolding len by (simp add: fl lc fb)
  moreover have "footer_decode crc ?tail = Inr f"
    using assms(1) by (intro footer_decode_encode) (simp_all add: f_def layout_footer_def layout_small_def BLOCK_SIZE_def)
  ultimately show "footer_decode crc (drop (length file - 32) file) = Inr f" by simp
  show "read_exact file (ft_index_offset f) (ft_index_size f) = Inr (layout_index bs)"
    by (simp add: read_exact_def len) (simp add: f_def layout_footer_def fl lc)
  show "read_exact file (ft_bloom_offset f) (ft_bloom_size f) = Inr (layout_bloom crc bs)"
    by (simp add: read_exact_def len) (simp add: f_def layout_footer_def fl lc)
  show rb: "read_block file (BLOCK_SIZE * i) = Inr (bs ! i)" if "i < length bs"
    by (rule read_block_nth [OF ok that fl])
  show "read_exact file (BLOCK_SIZE * i + BLOCK_DATA_CAPACITY) 2 = Inr (le_bytes 2 (length (bs ! i)))"
    if "i < length bs"
  proof -
    have oki: "block_ok (bs ! i)" using ok that by simp
    have "BLOCK_SIZE * i + BLOCK_SIZE \<le> BLOCK_SIZE * length bs"
      using that by (metis Suc_leI add.commute mult_Suc_right mult_le_mono2)
    then have "BLOCK_SIZE * i + BLOCK_DATA_CAPACITY + 2 \<le> length file"
      by (simp add: len BLOCK_DATA_CAPACITY_def BLOCK_SIZE_def)
    moreover have "take 2 (drop BLOCK_DATA_CAPACITY (drop (BLOCK_SIZE * i) file)) =
        drop BLOCK_DATA_CAPACITY (take BLOCK_SIZE (drop (BLOCK_SIZE * i) file))"
      by (simp add: drop_take BLOCK_DATA_CAPACITY_def BLOCK_SIZE_def)
    moreover have "\<dots> = le_bytes 2 (length (bs ! i))"
      unfolding fl nth_block [OF ok that] using oki by (simp add: block_bytes_def block_ok_def)
    ultimately show ?thesis by (simp add: read_exact_def add.commute)
  qed
qed

lemma count_all_entries_blocks:
  assumes "\<And>i. i \<in> set is \<Longrightarrow> read_exact file (BLOCK_SIZE * i + BLOCK_DATA_CAPACITY) 2 = Inr (le_bytes 2 (length (bs ! i)))"
    and "\<And>i. i \<in> set is \<Longrightarrow> length (bs ! i) < 2 ^ 16"
  shows "count_all_entries file (map (\<lambda>i. \<lparr>ie_first_key = f i, ie_offset = BLOCK_SIZE * i\<rparr>) is) =
    Inr (sum_list (map (\<lambda>i. length (bs ! i)) is))"
  using assms by (induction "is") (simp_all add: le_val_u16)

lemma block_index_map:
  assumes "layout_small crc bs"
  shows "block_index bs = map (\<lambda>i. \<lparr>ie_first_key = fst (hd (bs ! i)), ie_offset = BLOCK_SIZE * i\<rparr>) [0..<length bs]"
  using block_index_facts(2,3) [OF assms] by (intro nth_equalityI) auto

definition layout_reader :: "(bytes \<Rightarrow> 32 word) \<Rightarrow> nat \<Rightarrow> entry list list \<Rightarrow> sst_reader" where
  "layout_reader crc sid bs =
    \<lparr>rd_file = layout_file crc bs, rd_footer = layout_footer crc bs, rd_index = block_index bs,
     rd_meta = layout_meta crc sid bs, rd_bloom = Some (bloom_build crc (map fst (concat bs)))\<rparr>"

lemma concat_ends:
  assumes "bs \<noteq> []" "\<forall>b \<in> set bs. block_ok b"
  shows "hd (concat bs) = hd (hd bs)" "last (concat bs) = last (last bs)" "concat bs \<noteq> []"
proof -
  have ne: "b \<noteq> []" if "b \<in> set bs" for b using assms(2) that by (simp add: block_ok_def)
  show "concat bs \<noteq> []" using assms(1) ne by (cases bs) auto
  show "hd (concat bs) = hd (hd bs)" using assms(1) ne by (cases bs) (auto simp: hd_append)
  show "last (concat bs) = last (last bs)"
    using assms(1) ne by (cases bs rule: rev_cases) (auto simp: last_append)
qed

lemma reader_open_layout:
  assumes small: "layout_small crc bs"
  shows "reader_open crc sid (layout_file crc bs) = Inr (layout_reader crc sid bs)"
proof -
  note parts = layout_file_parts [OF small]
  have ok: "\<forall>b \<in> set bs. block_ok b" and ne: "bs \<noteq> []" using small by (simp_all add: layout_small_def)
  have bine: "block_index bs \<noteq> []" using block_index_facts(2) [OF small] ne by auto
  have lst: "last (block_index bs) = \<lparr>ie_first_key = fst (hd (last bs)), ie_offset = BLOCK_SIZE * (length bs - 1)\<rparr>"
    using block_index_facts(2,3) [OF small] ne bine by (simp add: last_conv_nth)
  have hdk: "ie_first_key (hd (block_index bs)) = fst (hd (concat bs))"
    using block_index_facts(2,3) [OF small] ne bine concat_ends(1) [OF ne ok] by (simp add: hd_conv_nth)
  have "read_block (layout_file crc bs) (BLOCK_SIZE * (length bs - 1)) = Inr (last bs)"
    using parts(5) [of "length bs - 1"] ne by (simp add: last_conv_nth)
  moreover have "last bs \<noteq> []" using ok ne by (simp add: block_ok_def)
  ultimately have lk: "read_last_key_in_block (layout_file crc bs) (ie_offset (last (block_index bs))) = Inr (fst (last (concat bs)))"
    using concat_ends(2) [OF ne ok] by (simp add: read_last_key_in_block_def lst)
  have "sum_list (map (\<lambda>i. length (bs ! i)) [0..<length bs]) = length (concat bs)"
    by (simp add: length_concat map_nth flip: map_map [of length "(!) bs", unfolded comp_def])
  moreover have lens: "length (bs ! i) < 2 ^ 16" if "i < length bs" for i
    using ok that by (intro block_ok_length) simp
  ultimately have cnt: "count_all_entries (layout_file crc bs) (block_index bs) = Inr (length (concat bs))"
    unfolding block_index_map [OF small] using lens
    by (subst count_all_entries_blocks) (simp_all add: parts(6))
  have bsz: "0 < length (layout_bloom crc bs)" by (simp add: length_layout_bloom)
  have "bloom_decode (layout_bloom crc bs) = Inr (bloom_build crc (map fst (concat bs)))"
    unfolding layout_bloom_def using small bloom_build_size(1)
    by (intro bloom_decode_encode) (auto simp: layout_small_def bloom_build_def HASH_COUNT_def Let_def)
  then have bl: "and_then (read_exact (layout_file crc bs) (ft_bloom_offset (layout_footer crc bs)) (ft_bloom_size (layout_footer crc bs)))
      (\<lambda>bb. and_then (bloom_decode bb) (\<lambda>b. Inr (Some b))) = Inr (Some (bloom_build crc (map fst (concat bs))))"
    by (simp add: parts(4))
  have f0: "0 < ft_bloom_size (layout_footer crc bs)" using bsz by (simp add: layout_footer_def)
  have fc: "ft_block_count (layout_footer crc bs) = length bs" by (simp add: layout_footer_def)
  show ?thesis
    using parts(1) by (simp add: reader_open_def FOOTER_SIZE_def parts(2,3) fc decode_layout_index [OF small] f0 bl bine lk
        cnt hdk layout_reader_def layout_meta_def)
qed

section \<open>Reading back\<close>

abbreviation keys_sorted :: "('a::linorder \<times> 'b) list \<Rightarrow> bool" where
  "keys_sorted es \<equiv> sorted_wrt (<) (map fst es)"

lemma read_blocks_nth:
  "(\<And>i. i \<in> set is \<Longrightarrow> read_block file (BLOCK_SIZE * i) = Inr (bs ! i)) \<Longrightarrow>
   read_blocks file (map (\<lambda>i. BLOCK_SIZE * i) is) = Inr (concat (map ((!) bs) is))"
  by (induction "is") simp_all

lemma reader_iter_layout:
  assumes "layout_small crc bs"
  shows "reader_iter (layout_reader crc sid bs) = Inr (concat bs)"
  using read_blocks_nth [of "[0..<length bs]" "layout_file crc bs" bs] layout_file_parts(5) [OF assms]
  by (simp add: reader_iter_def layout_reader_def block_index_facts(4) [OF assms] map_nth)

lemma find_block_loop_bounds:
  assumes "lo \<le> hi" "hi \<le> length index" "\<forall>j < lo. ie_first_key (index ! j) \<le> key"
    and "\<forall>j. hi \<le> j \<longrightarrow> j < length index \<longrightarrow> key < ie_first_key (index ! j)"
    and "sorted (map ie_first_key index)"
  shows "let r = find_block_loop index key lo hi in r \<le> length index \<and>
    (\<forall>j < r. ie_first_key (index ! j) \<le> key) \<and> (\<forall>j. r \<le> j \<longrightarrow> j < length index \<longrightarrow> key < ie_first_key (index ! j))"
  using assms
proof (induction index key lo hi rule: find_block_loop.induct)
  case (1 index key lo hi)
  have mono: "ie_first_key (index ! i) \<le> ie_first_key (index ! j)" if "i \<le> j" "j < length index" for i j
    using that 1(7) by (simp add: sorted_iff_nth_mono)
  show ?case
  proof (cases "lo < hi")
    case True
    let ?mid = "lo + (hi - lo) div 2"
    have mid: "lo \<le> ?mid" "?mid < hi" using True by auto
    show ?thesis
    proof (cases "ie_first_key (index ! ?mid) \<le> key")
      case le: True
      have "\<forall>j < ?mid + 1. ie_first_key (index ! j) \<le> key"
      proof (intro allI impI)
        fix j assume "j < ?mid + 1"
        then have "ie_first_key (index ! j) \<le> ie_first_key (index ! ?mid)" using mid 1(4) by (intro mono) auto
        then show "ie_first_key (index ! j) \<le> key" using le by (rule order_trans)
      qed
      moreover have "find_block_loop index key lo hi = find_block_loop index key (?mid + 1) hi"
        by (subst find_block_loop.simps) (simp add: True le Let_def)
      ultimately show ?thesis using 1(1) [OF True refl le] 1(3-7) mid by simp
    next
      case gt: False
      have "\<forall>j. ?mid \<le> j \<longrightarrow> j < length index \<longrightarrow> key < ie_first_key (index ! j)"
      proof (intro allI impI)
        fix j assume "?mid \<le> j" "j < length index"
        then have "ie_first_key (index ! ?mid) \<le> ie_first_key (index ! j)" by (rule mono)
        then show "key < ie_first_key (index ! j)" using gt by simp
      qed
      moreover have "find_block_loop index key lo hi = find_block_loop index key lo ?mid"
        by (subst find_block_loop.simps) (simp add: True gt Let_def)
      ultimately show ?thesis using 1(2) [OF True refl gt] 1(3-7) mid by simp
    qed
  next
    case False
    then have "find_block_loop index key lo hi = lo" by (subst find_block_loop.simps) simp
    then show ?thesis using False 1(3-6) by (simp add: Let_def)
  qed
qed

lemma scan_block_map_of: "keys_sorted es \<Longrightarrow> scan_block es key = map_of es key"
proof (induction es)
  case (Cons e es)
  obtain k v where e: "e = (k, v)" by fastforce
  have "map_of es key = None" if "key < k"
    using Cons.prems that by (auto simp: e map_of_eq_None_iff)
  then show ?case using Cons by (auto simp: e)
qed simp

lemma keys_sorted_ends:
  assumes "keys_sorted es" "e \<in> set es"
  shows "fst (hd es) \<le> fst e" "fst e \<le> fst (last es)"
proof -
  show "fst (hd es) \<le> fst e" using assms by (cases es) (auto intro: less_imp_le)
  show "fst e \<le> fst (last es)"
    using assms by (cases es rule: rev_cases) (auto simp: sorted_wrt_append intro: less_imp_le)
qed

lemma map_of_eq_None_sorted:
  assumes "keys_sorted es" "es = [] \<or> key < fst (hd es) \<or> fst (last es) < key"
  shows "map_of es key = None"
proof -
  have "key \<noteq> fst e" if "e \<in> set es" for e
    using keys_sorted_ends [OF assms(1) that] assms(2) that by auto
  then show ?thesis by (auto simp: map_of_eq_None_iff)
qed

lemma map_of_middle:
  assumes "keys_sorted (xs @ ys @ zs)" "ys \<noteq> []" "fst (hd ys) \<le> key" "zs \<noteq> [] \<longrightarrow> key < fst (hd zs)"
  shows "map_of (xs @ ys @ zs) key = map_of ys key"
proof -
  have "map_of zs key = None" using assms(1,4) by (intro map_of_eq_None_sorted) (auto simp: sorted_wrt_append)
  moreover have "map_of xs key = None"
  proof (cases "xs = []")
    case False
    then have "fst (last xs) < fst (hd ys)" using assms(1,2) by (auto simp: sorted_wrt_append)
    then show ?thesis using assms(1,3) by (intro map_of_eq_None_sorted) (auto simp: sorted_wrt_append)
  qed simp
  ultimately show ?thesis by (simp add: map_add_def split: option.split)
qed

lemma sorted_first_keys:
  "keys_sorted (concat bs) \<Longrightarrow> \<forall>b \<in> set bs. b \<noteq> [] \<Longrightarrow> sorted (map (\<lambda>b. fst (hd b)) bs)"
proof (induction bs)
  case (Cons b bs)
  have "fst (hd b) \<le> fst (hd c)" if "c \<in> set bs" for c
  proof -
    have "hd c \<in> set (concat bs)" "hd b \<in> set b" using Cons.prems(2) that by (auto intro!: bexI [of _ c])
    then show ?thesis using Cons.prems(1) by (fastforce simp: sorted_wrt_append)
  qed
  then show ?case using Cons by (auto simp: sorted_wrt_append)
qed simp

lemma concat_split_nth:
  "i < length bs \<Longrightarrow> concat bs = concat (take i bs) @ bs ! i @ concat (drop (Suc i) bs)"
  by (metis concat_append concat.simps(2) id_take_nth_drop)

lemma reader_get_layout:
  assumes small: "layout_small crc bs" and srt: "keys_sorted (concat bs)"
  shows "reader_get crc (layout_reader crc sid bs) key = Inr (map_of (concat bs) key)"
proof -
  let ?es = "concat bs" and ?r = "layout_reader crc sid bs"
  have ok: "\<forall>b \<in> set bs. block_ok b" and ne: "bs \<noteq> []" using small by (simp_all add: layout_small_def)
  have bne: "\<forall>b \<in> set bs. b \<noteq> []" using ok by (simp add: block_ok_def)
  note ends = concat_ends [OF ne ok] and idx = block_index_facts [OF small]
  show ?thesis
  proof (cases "bloom_may_contain crc (bloom_build crc (map fst ?es)) key")
    case False
    then have "key \<notin> fst ` set ?es" using bloom_no_false_negative [of key "map fst ?es" crc] by auto
    then have "map_of ?es key = None" by (simp add: map_of_eq_None_iff)
    then show ?thesis using False by (simp add: reader_get_def layout_reader_def)
  next
    case bloom: True
    show ?thesis
    proof (cases "key < fst (hd ?es) \<or> fst (last ?es) < key")
      case True
      then have "map_of ?es key = None" using srt by (intro map_of_eq_None_sorted) auto
      then show ?thesis using True bloom by (simp add: reader_get_def layout_reader_def layout_meta_def)
    next
      case False
      define lo where "lo = find_block_loop (block_index bs) key 0 (length (block_index bs))"
      have keyn: "ie_first_key (block_index bs ! j) = fst (hd (bs ! j))" if "j < length bs" for j
        using idx(3) [OF that] by simp
      have "map ie_first_key (block_index bs) = map (\<lambda>b. fst (hd b)) bs"
        using idx(2) keyn by (intro nth_equalityI) auto
      then have sk: "sorted (map ie_first_key (block_index bs))" using sorted_first_keys [OF srt bne] by simp
      have lo: "lo \<le> length bs" "\<forall>j < lo. ie_first_key (block_index bs ! j) \<le> key"
        "\<forall>j. lo \<le> j \<longrightarrow> j < length bs \<longrightarrow> key < ie_first_key (block_index bs ! j)"
        using find_block_loop_bounds [OF _ order_refl _ _ sk, of 0 key] idx(2) unfolding lo_def by (simp_all add: Let_def)
      have "fst (hd (bs ! 0)) \<le> key" using False ends(1) ne by (simp add: hd_conv_nth not_less)
      then have pos: "0 < lo" using lo(3) keyn ne by (metis length_greater_0_conv not_gr_zero not_le order_refl)
      let ?i = "lo - 1"
      have i: "?i < length bs" using pos lo(1) by simp
      have ile: "fst (hd (bs ! ?i)) \<le> key" using lo(2) pos keyn [OF i] by (metis diff_less zero_less_one)
      have igt: "concat (drop (Suc ?i) bs) \<noteq> [] \<longrightarrow> key < fst (hd (concat (drop (Suc ?i) bs)))"
      proof
        assume "concat (drop (Suc ?i) bs) \<noteq> []"
        then have l: "lo < length bs" using pos by (cases "lo < length bs") auto
        have "hd (concat (drop lo bs)) = hd (bs ! lo)"
          using concat_ends(1) [of "drop lo bs"] l ok by (auto simp: hd_drop_conv_nth dest: in_set_dropD)
        then show "key < fst (hd (concat (drop (Suc ?i) bs)))" using lo(3) [rule_format, OF order_refl l] keyn [OF l] pos by simp
      qed
      have mo: "map_of ?es key = map_of (bs ! ?i) key"
        using map_of_middle [of "concat (take ?i bs)" "bs ! ?i" "concat (drop (Suc ?i) bs)" key]
          srt bne i ile igt unfolding concat_split_nth [OF i] by (simp del: concat_append)
      have si: "keys_sorted (bs ! ?i)" using srt concat_split_nth [OF i] by (auto simp: sorted_wrt_append)
      have "find_block_for_key ?r key = Inr ?i"
        using pos by (simp add: find_block_for_key_def layout_reader_def lo_def [symmetric] Let_def)
      moreover have "read_block (layout_file crc bs) (ie_offset (block_index bs ! ?i)) = Inr (bs ! ?i)"
        using layout_file_parts(5) [OF small i] idx(3) [OF i] by simp
      ultimately show ?thesis
        using False bloom scan_block_map_of [OF si]
        by (simp add: reader_get_def mo) (simp add: layout_reader_def layout_meta_def)
    qed
  qed
qed

lemma reader_may_contain_layout:
  assumes "layout_small crc bs" "keys_sorted (concat bs)" "\<not> reader_may_contain crc (layout_reader crc sid bs) key"
  shows "map_of (concat bs) key = None"
proof (cases "key < fst (hd (concat bs)) \<or> fst (last (concat bs)) < key")
  case True
  then show ?thesis using assms(2) by (intro map_of_eq_None_sorted) auto
next
  case False
  then have "\<not> bloom_may_contain crc (bloom_build crc (map fst (concat bs))) key"
    using assms(3) by (simp add: reader_may_contain_def layout_reader_def layout_meta_def)
  then have "key \<notin> fst ` set (concat bs)" using bloom_no_false_negative [of key "map fst (concat bs)" crc] by auto
  then show ?thesis by (simp add: map_of_eq_None_iff)
qed

text \<open>What a reader must provide to the tree above it: it stands for a sorted list of entries.\<close>

definition reader_holds :: "(bytes \<Rightarrow> 32 word) \<Rightarrow> sst_reader \<Rightarrow> entry list \<Rightarrow> bool" where
  "reader_holds crc r es \<longleftrightarrow> reader_iter r = Inr es \<and>
    (\<forall>key. reader_get crc r key = Inr (map_of es key)) \<and>
    (\<forall>key. \<not> reader_may_contain crc r key \<longrightarrow> map_of es key = None)"

lemma write_then_open:
  assumes "table_fits es" "keys_sorted es"
  obtains meta data r where "write_sstable crc sid es = Inr (Some (meta, data))" "reader_open crc sid data = Inr r"
    "reader_holds crc r es" "rd_meta r = meta" "sst_id meta = sid" "first_key meta = fst (hd es)"
    "last_key meta = fst (last es)" "entry_count meta = length es" "file_size meta = length data"
proof -
  from write_sstable_layout [OF assms(1), of crc] obtain bs where bs: "concat bs = es" "layout_small crc bs"
    "\<And>sid. write_sstable crc sid es = Inr (Some (layout_meta crc sid bs, layout_file crc bs))" by metis
  have "reader_holds crc (layout_reader crc sid bs) es"
    using reader_iter_layout [OF bs(2)] reader_get_layout [OF bs(2)] reader_may_contain_layout [OF bs(2)] assms(2) bs(1)
    by (auto simp: reader_holds_def)
  then show thesis
    using that [OF bs(3) reader_open_layout [OF bs(2)]] bs(1) by (simp add: layout_reader_def layout_meta_def)
qed

lemma write_sstable_Nil: "write_sstable crc sid [] = Inr None"
  by (simp add: write_sstable_def writer_init_def)

text \<open>An entry larger than a block makes the writer panic when its block is flushed.\<close>

lemma write_entry_oversize:
  assumes "writer_holds w bs cur" "\<not> entry_fits e"
  shows "\<exists>w'. write_entry e w = Inr w' \<and> \<not> length (block_buf w') \<le> BLOCK_DATA_CAPACITY"
proof -
  have "block_buf w = encode_all cur" using assms(1) by (simp add: writer_holds_def)
  then show ?thesis
    using assms flush_block_holds [OF assms(1)]
    by (cases "cur = []") (auto simp: write_entry_def entry_fits_def)
qed

lemma oversize_block_panics:
  assumes "\<not> length (block_buf w) \<le> BLOCK_DATA_CAPACITY"
  shows "write_entries es w = Inl Panic \<or>
    (\<exists>w'. write_entries es w = Inr w' \<and> \<not> length (block_buf w') \<le> BLOCK_DATA_CAPACITY)"
proof (cases es)
  case (Cons e es')
  have "flush_block w = Inl Panic" using assms by (simp add: flush_block_def split: option.split)
  moreover have "block_buf w \<noteq> []" using assms by auto
  ultimately show ?thesis using assms Cons by (simp add: write_entry_def)
qed (use assms in simp)

lemma write_entries_append:
  "write_entries (es @ fs) w = and_then (write_entries es w) (write_entries fs)"
  by (induction es arbitrary: w) (auto simp: and_then_def split: sum.split)

lemma oversize_entry_panics:
  assumes "\<exists>e \<in> set es. \<not> entry_fits e"
  shows "write_sstable crc sid es = Inl Panic"
proof -
  from split_list_first_prop [OF assms] obtain as e fs
    where es: "es = as @ e # fs" "\<not> entry_fits e" "\<forall>x \<in> set as. entry_fits x" by blast
  from write_entries_holds [OF writer_holds_init es(3)] obtain w bs cur
    where w: "write_entries as writer_init = Inr w" "writer_holds w bs cur" by auto
  from write_entry_oversize [OF w(2) es(2)] obtain w1
    where w1: "write_entry e w = Inr w1" "\<not> length (block_buf w1) \<le> BLOCK_DATA_CAPACITY" by blast
  have all: "write_entries es writer_init = write_entries fs w1"
    by (simp add: es(1) write_entries_append w w1)
  show ?thesis
  proof (cases "write_entries fs w1")
    case (Inr w')
    then have "\<not> length (block_buf w') \<le> BLOCK_DATA_CAPACITY" using oversize_block_panics [OF w1(2), of fs] by auto
    then have "flush_block w' = Inl Panic" by (simp add: flush_block_def split: option.split)
    moreover have "total_entry_count w' \<noteq> 0"
    proof -
      have "total_entry_count w1 \<noteq> 0" using w1(1) by (auto simp: write_entry_def and_then_eq_Inr)
      moreover have "fs = []"
      proof (rule ccontr)
        assume "fs \<noteq> []"
        then obtain x xs where "fs = x # xs" by (cases fs) auto
        moreover have "flush_block w1 = Inl Panic" using w1(2) by (simp add: flush_block_def split: option.split)
        moreover have "block_buf w1 \<noteq> []" using w1(2) by auto
        ultimately show False using Inr w1(2) by (simp add: write_entry_def)
      qed
      ultimately show ?thesis using Inr by simp
    qed
    ultimately show ?thesis using Inr by (simp add: write_sstable_def all)
  next
    case (Inl err)
    then show ?thesis using oversize_block_panics [OF w1(2), of fs] by (simp add: write_sstable_def all)
  qed
qed

section \<open>Tables read back\<close>

text \<open>
  C4. A table is read back exactly.  Sorted entries that each fit a data block and total at most \<open>2 ^ 28\<close>
  bytes are written without an error; the file opens with the metadata returned by the writer; iterating
  returns the entries; and a point lookup of any key, by bloom filter, block index and block scan, returns
  the entry of the key, tombstones included, or nothing when the table has none.
\<close>

theorem sstable_read_back:
  assumes "table_fits es" "keys_sorted es"
  shows "\<exists>meta data r. write_sstable crc sid es = Inr (Some (meta, data)) \<and> reader_open crc sid data = Inr r \<and>
    rd_meta r = meta \<and> first_key meta = fst (hd es) \<and> last_key meta = fst (last es) \<and> entry_count meta = length es \<and>
    reader_iter r = Inr es \<and> (\<forall>key. reader_get crc r key = Inr (map_of es key))"
proof -
  obtain meta data r where "write_sstable crc sid es = Inr (Some (meta, data))" "reader_open crc sid data = Inr r"
    "reader_holds crc r es" "rd_meta r = meta" "sst_id meta = sid" "first_key meta = fst (hd es)"
    "last_key meta = fst (last es)" "entry_count meta = length es" "file_size meta = length data"
    by (rule write_then_open [OF assms, of crc sid])
  then show ?thesis by (auto simp: reader_holds_def)
qed

theorem sstable_read_back_witness:
  "\<exists>meta data r. write_sstable (\<lambda>_. 3) 1 [([1], Some [10]), ([2], None)] = Inr (Some (meta, data)) \<and>
    reader_open (\<lambda>_. 3) 1 data = Inr r \<and> reader_get (\<lambda>_. 3) r [2] = Inr (Some None) \<and> reader_get (\<lambda>_. 3) r [3] = Inr None"
  using sstable_read_back [of "[([1], Some [10]), ([2], None)]" "\<lambda>_. 3" 1]
  by (force simp: table_fits_def entry_fits_def entry_size_def total_size_def BLOCK_DATA_CAPACITY_def BLOCK_SIZE_def)

end
