(* ===== verification/Memtable.thy ===== *)
theory Memtable
  imports Sstable
begin

text \<open>
  Sorted maps and the memtable, \<^verbatim>\<open>idb-storage/src/engines/lsm/memtable.rs\<close>. The standard
  library's \<^verbatim>\<open>BTreeMap\<close> is a list of pairs with strictly increasing keys; its \<^verbatim>\<open>range\<close> method
  panics on an inverted range, as documented. A stored \<^verbatim>\<open>None\<close> is a tombstone. Proved: the
  operations keep the keys sorted and act as map updates, and the size estimate is exactly the
  total of the stored keys and values plus a constant per entry, so it never underflows.
\<close>

section \<open>Sorted maps\<close>

fun bt_insert :: "'k::linorder \<Rightarrow> 'v \<Rightarrow> ('k \<times> 'v) list \<Rightarrow> ('k \<times> 'v) list" where
  "bt_insert k v [] = [(k, v)]"
| "bt_insert k v ((k', v') # m) =
    (if k < k' then (k, v) # (k', v') # m else if k = k' then (k, v) # m else (k', v') # bt_insert k v m)"

datatype bound = Included bytes | Excluded bytes | Unbounded

definition above :: "bound \<Rightarrow> bytes \<Rightarrow> bool" where
  "above b k = (case b of Included s \<Rightarrow> s \<le> k | Excluded s \<Rightarrow> s < k | Unbounded \<Rightarrow> True)"

definition below :: "bound \<Rightarrow> bytes \<Rightarrow> bool" where
  "below b k = (case b of Included e \<Rightarrow> k \<le> e | Excluded e \<Rightarrow> k < e | Unbounded \<Rightarrow> True)"

definition range_contains :: "bound \<Rightarrow> bound \<Rightarrow> bytes \<Rightarrow> bool" where
  "range_contains lo hi k \<longleftrightarrow> above lo k \<and> below hi k"

definition range_ok :: "bound \<Rightarrow> bound \<Rightarrow> bool" where
  "range_ok lo hi =
    (case (lo, hi) of
       (Excluded s, Excluded e) \<Rightarrow> s < e
     | (Included s, Included e) \<Rightarrow> s \<le> e
     | (Included s, Excluded e) \<Rightarrow> s \<le> e
     | (Excluded s, Included e) \<Rightarrow> s \<le> e
     | _ \<Rightarrow> True)"

definition bt_range :: "bound \<Rightarrow> bound \<Rightarrow> (bytes \<times> 'v) list \<Rightarrow> (bytes \<times> 'v) list result" where
  "bt_range lo hi m = (if range_ok lo hi then Inr (filter (\<lambda>(k, _). range_contains lo hi k) m) else Inl Panic)"

lemma set_fst_bt_insert [simp]: "fst ` set (bt_insert k v m) = insert k (fst ` set m)"
  by (induction k v m rule: bt_insert.induct) (simp_all add: insert_commute)

lemma keys_sorted_bt_insert [simp]: "keys_sorted m \<Longrightarrow> keys_sorted (bt_insert k v m)"
proof (induction m)
  case (Cons e m)
  obtain k' v' where e: "e = (k', v')" by fastforce
  have "\<forall>x \<in> fst ` set (bt_insert k v m). k' < x" if "k' < k" using Cons.prems that by (auto simp: e)
  then show ?case using Cons by (auto simp: e not_less le_less)
qed simp

lemma map_of_bt_insert: "keys_sorted m \<Longrightarrow> map_of (bt_insert k v m) = (map_of m)(k \<mapsto> v)"
proof (induction m)
  case (Cons e m)
  obtain k' v' where e: "e = (k', v')" by fastforce
  show ?case using Cons by (auto simp: e fun_eq_iff)
qed auto

lemma bt_insert_neq_Nil [simp]: "bt_insert k v m \<noteq> []"
  by (cases m) (auto split: if_splits)

lemma keys_sorted_filter [simp]: "keys_sorted m \<Longrightarrow> keys_sorted (filter P m)"
  by (induction m) auto

lemma keys_sorted_distinct: "keys_sorted m \<Longrightarrow> distinct (map fst m)"
  by (induction m) auto

lemma map_of_filter_keys:
  "map_of (filter (\<lambda>(k, _). P k) m) k = (if P k then map_of m k else None)"
  by (induction m) auto

lemma keys_sorted_map_of_eq:
  "keys_sorted xs \<Longrightarrow> keys_sorted ys \<Longrightarrow> map_of xs = map_of ys \<Longrightarrow> xs = ys"
proof -
  assume s: "keys_sorted xs" "keys_sorted ys" and m: "map_of xs = map_of ys"
  have "set xs = set ys"
    using s m by (metis keys_sorted_distinct map_of_eq_Some_iff subrelI subset_antisym)
  moreover have "sorted (map fst xs)" "sorted (map fst ys)" "distinct (map fst xs)" "distinct (map fst ys)"
    using s keys_sorted_distinct by (auto simp: strict_sorted_iff)
  ultimately show "xs = ys" by (intro map_sorted_distinct_set_unique) (auto simp: inj_on_def distinct_map)
qed

section \<open>The memtable\<close>

definition ENTRY_OVERHEAD_BYTES :: nat where "ENTRY_OVERHEAD_BYTES = 32"

record memtable =
  mt_entries :: "entry list"
  mt_size_bytes :: nat

definition memtable_new :: memtable where
  "memtable_new = \<lparr>mt_entries = [], mt_size_bytes = 0\<rparr>"

definition value_size :: "bytes option \<Rightarrow> nat" where
  "value_size v = (case v of Some val \<Rightarrow> length val | None \<Rightarrow> 0)"

definition memtable_put :: "bytes \<Rightarrow> bytes \<Rightarrow> memtable \<Rightarrow> memtable" where
  "memtable_put key val m =
    (let new_value_size = length val in
     \<lparr>mt_entries = bt_insert key (Some val) (mt_entries m),
      mt_size_bytes = (case map_of (mt_entries m) key of
          Some old \<Rightarrow> mt_size_bytes m - value_size old + new_value_size
        | None \<Rightarrow> mt_size_bytes m + (length key + new_value_size + ENTRY_OVERHEAD_BYTES))\<rparr>)"

definition memtable_delete :: "bytes \<Rightarrow> memtable \<Rightarrow> memtable" where
  "memtable_delete key m =
    \<lparr>mt_entries = bt_insert key None (mt_entries m),
     mt_size_bytes = (case map_of (mt_entries m) key of
         Some old \<Rightarrow> mt_size_bytes m - value_size old
       | None \<Rightarrow> mt_size_bytes m + (length key + ENTRY_OVERHEAD_BYTES))\<rparr>"

definition memtable_get :: "bytes \<Rightarrow> memtable \<Rightarrow> bytes option option" where
  "memtable_get key m = map_of (mt_entries m) key"

definition memtable_range :: "bound \<Rightarrow> bound \<Rightarrow> memtable \<Rightarrow> entry list result" where
  "memtable_range lo hi m = bt_range lo hi (mt_entries m)"

definition memtable_is_empty :: "memtable \<Rightarrow> bool" where
  "memtable_is_empty m \<longleftrightarrow> mt_entries m = []"

section \<open>Size accounting\<close>

definition mem_entry_size :: "entry \<Rightarrow> nat" where
  "mem_entry_size e = length (fst e) + value_size (snd e) + ENTRY_OVERHEAD_BYTES"

definition memtable_inv :: "memtable \<Rightarrow> bool" where
  "memtable_inv m \<longleftrightarrow> keys_sorted (mt_entries m) \<and> mt_size_bytes m = sum_list (map mem_entry_size (mt_entries m))"

lemma sum_mem_bt_insert:
  assumes "keys_sorted m"
  shows "sum_list (map mem_entry_size (bt_insert k v m)) + (case map_of m k of Some old \<Rightarrow> mem_entry_size (k, old) | None \<Rightarrow> 0) =
    sum_list (map mem_entry_size m) + mem_entry_size (k, v)"
  using assms
proof (induction m)
  case (Cons e m)
  obtain k' v' where e: "e = (k', v')" by fastforce
  have "map_of m k = None" if "k < k'"
    using Cons.prems that by (auto simp: e map_of_eq_None_iff)
  then show ?case using Cons by (auto simp: e split: option.splits)
qed simp

lemma mem_entry_size_member: "map_of m k = Some old \<Longrightarrow> mem_entry_size (k, old) \<le> sum_list (map mem_entry_size m)"
  by (induction m) (auto split: if_splits)

lemma memtable_new_inv [simp]: "memtable_inv memtable_new"
  by (simp add: memtable_inv_def memtable_new_def)

lemma memtable_put_inv:
  assumes "memtable_inv m"
  shows "memtable_inv (memtable_put key val m)"
    and "map_of (mt_entries (memtable_put key val m)) = (map_of (mt_entries m))(key \<mapsto> Some val)"
  using assms sum_mem_bt_insert [of "mt_entries m" key "Some val"] mem_entry_size_member [of "mt_entries m" key]
  by (auto simp: memtable_inv_def memtable_put_def map_of_bt_insert mem_entry_size_def value_size_def Let_def
      split: option.splits)

lemma memtable_delete_inv:
  assumes "memtable_inv m"
  shows "memtable_inv (memtable_delete key m)"
    and "map_of (mt_entries (memtable_delete key m)) = (map_of (mt_entries m))(key \<mapsto> None)"
  using assms sum_mem_bt_insert [of "mt_entries m" key None] mem_entry_size_member [of "mt_entries m" key]
  by (auto simp: memtable_inv_def memtable_delete_def map_of_bt_insert mem_entry_size_def value_size_def
      split: option.splits)

lemma total_size_le_mem: "total_size m \<le> sum_list (map mem_entry_size m)"
proof (induction m)
  case (Cons e m)
  have "entry_size e \<le> mem_entry_size e"
    by (simp add: entry_size_def mem_entry_size_def value_size_def ENTRY_OVERHEAD_BYTES_def)
  then show ?case using Cons by simp
qed simp

lemma memtable_put_size:
  "memtable_inv m \<Longrightarrow> mt_size_bytes (memtable_put key val m) \<le> mt_size_bytes m + length key + length val + 32"
  by (auto simp: memtable_put_def Let_def ENTRY_OVERHEAD_BYTES_def split: option.split)

lemma memtable_delete_size:
  "memtable_inv m \<Longrightarrow> mt_size_bytes (memtable_delete key m) \<le> mt_size_bytes m + length key + 32"
  by (auto simp: memtable_delete_def ENTRY_OVERHEAD_BYTES_def split: option.split)

lemma set_bt_insert: "set (bt_insert k v m) \<subseteq> insert (k, v) (set m)"
  by (induction m) (auto split: if_splits)

end
