(* ===== verification/Storage_Engine.thy ===== *)
theory Storage_Engine
  imports Memtable
begin

text \<open>
  The contract of the trait \<^verbatim>\<open>StorageEngine\<close> (\<^verbatim>\<open>idb-core/src/storage/engine/mod.rs\<close>) as a locale: an
  engine has an invariant, admits some entries and holds a map from keys to values, which its
  operations read and update.  Clients of an engine (crash recovery, the transactional layer) are
  proved against the locale.
\<close>

locale storage_engine =
  fixes inv :: "'s \<Rightarrow> bool" and admits :: "bytes \<Rightarrow> bytes option \<Rightarrow> bool" and view :: "'s \<Rightarrow> bytes \<Rightarrow> bytes option"
    and get :: "bytes \<Rightarrow> 's \<Rightarrow> bytes option result"
    and put :: "bytes \<Rightarrow> bytes \<Rightarrow> 's \<Rightarrow> 's result"
    and delete :: "bytes \<Rightarrow> 's \<Rightarrow> 's result"
    and scan :: "bound \<Rightarrow> bound \<Rightarrow> 's \<Rightarrow> (bytes \<times> bytes) list result"
  assumes get_view: "inv s \<Longrightarrow> get k s = Inr (view s k)"
    and put_view: "inv s \<Longrightarrow> admits k (Some v) \<Longrightarrow> \<exists>s'. put k v s = Inr s' \<and> inv s' \<and> view s' = (view s)(k \<mapsto> v)"
    and delete_view: "inv s \<Longrightarrow> admits k None \<Longrightarrow> \<exists>s'. delete k s = Inr s' \<and> inv s' \<and> view s' = (view s)(k := None)"
    and scan_view: "inv s \<Longrightarrow> range_ok lo hi \<Longrightarrow> \<exists>xs. scan lo hi s = Inr xs \<and> keys_sorted xs \<and>
      map_of xs = (\<lambda>k. if range_contains lo hi k then view s k else None)"
begin

text \<open>The view has finitely many keys: a full scan lists them.\<close>

lemma scan_all:
  assumes "inv s"
  shows "\<exists>xs. scan Unbounded Unbounded s = Inr xs \<and> keys_sorted xs \<and> map_of xs = view s"
  using scan_view [OF assms, of Unbounded Unbounded]
  by (auto simp: range_ok_def range_contains_def above_def below_def)

lemma finite_view: "inv s \<Longrightarrow> finite (dom (view s))"
  using scan_all [of s] by (metis finite_dom_map_of)

lemma scan_exact:
  assumes "inv s" "range_ok lo hi" "scan lo hi s = Inr xs"
  shows "(k, v) \<in> set xs \<longleftrightarrow> range_contains lo hi k \<and> view s k = Some v"
proof -
  obtain ys where "scan lo hi s = Inr ys" "keys_sorted ys"
    "map_of ys = (\<lambda>k. if range_contains lo hi k then view s k else None)"
    using scan_view [OF assms(1,2)] by blast
  moreover from this have "map_of xs k = Some v \<longleftrightarrow> (k, v) \<in> set xs"
    using assms(3) keys_sorted_distinct by (intro map_of_eq_Some_iff) simp
  ultimately show ?thesis using assms(3) by (auto split: if_splits)
qed

end

text \<open>A sequence of writes, on an engine and on the map it stands for.\<close>

datatype engine_write = Write_put bytes bytes | Write_delete bytes

fun run_writes :: "(bytes \<Rightarrow> bytes \<Rightarrow> 's \<Rightarrow> 's result) \<Rightarrow> (bytes \<Rightarrow> 's \<Rightarrow> 's result) \<Rightarrow> engine_write list \<Rightarrow> 's \<Rightarrow> 's result" where
  "run_writes put delete [] s = Inr s"
| "run_writes put delete (Write_put k v # ws) s = and_then (put k v s) (run_writes put delete ws)"
| "run_writes put delete (Write_delete k # ws) s = and_then (delete k s) (run_writes put delete ws)"

fun apply_write :: "engine_write \<Rightarrow> (bytes \<Rightarrow> bytes option) \<Rightarrow> bytes \<Rightarrow> bytes option" where
  "apply_write (Write_put k v) f = f(k \<mapsto> v)"
| "apply_write (Write_delete k) f = f(k := None)"

fun write_entry_of :: "engine_write \<Rightarrow> entry" where
  "write_entry_of (Write_put k v) = (k, Some v)"
| "write_entry_of (Write_delete k) = (k, None)"

text \<open>The last write to a key decides: replaying a sequence of writes a second time changes nothing.\<close>

lemma apply_write_entry: "apply_write w f = f(fst (write_entry_of w) := snd (write_entry_of w))"
  by (cases w) simp_all

lemma fold_apply_write:
  "fold apply_write ws f k = (case map_of (rev (map write_entry_of ws)) k of Some e \<Rightarrow> e | None \<Rightarrow> f k)"
  by (induction ws arbitrary: f rule: rev_induct) (auto simp: apply_write_entry split: option.splits)

lemma fold_apply_write_idem: "fold apply_write ws (fold apply_write ws f) = fold apply_write ws f"
  by (auto simp: fun_eq_iff fold_apply_write split: option.split)

context storage_engine
begin

lemma run_writes_view:
  assumes "inv s" "\<forall>w \<in> set ws. case write_entry_of w of (k, e) \<Rightarrow> admits k e"
  shows "\<exists>s'. run_writes put delete ws s = Inr s' \<and> inv s' \<and> view s' = fold apply_write ws (view s)"
  using assms
proof (induction ws arbitrary: s)
  case (Cons w ws)
  show ?case
  proof (cases w)
    case (Write_put k v)
    then obtain s1 where "put k v s = Inr s1" "inv s1" "view s1 = (view s)(k \<mapsto> v)"
      using put_view [OF Cons.prems(1), of k v] Cons.prems(2) by auto
    then show ?thesis using Cons.IH [of s1] Cons.prems(2) Write_put by (simp del: fun_upd_apply)
  next
    case (Write_delete k)
    then obtain s1 where "delete k s = Inr s1" "inv s1" "view s1 = (view s)(k := None)"
      using delete_view [OF Cons.prems(1), of k] Cons.prems(2) by auto
    then show ?thesis using Cons.IH [of s1] Cons.prems(2) Write_delete by (simp del: fun_upd_apply)
  qed
qed simp

end

end
