(* ===== verification/Manifest.thy ===== *)
theory Manifest
  imports Sstable
begin

text \<open>
  The manifest of the LSM-tree, \<^verbatim>\<open>idb-storage/src/engines/lsm/manifest.rs\<close>: the level
  assignment of the tables, the text lines that record changes to it, and their replay. A
  manifest is the list of its lines, of ASCII characters; the file operations and the clean-up of
  temporary files are not modelled. Formatting and parsing of integers and the splitting of a
  line are those of the Rust standard library. Proved: replaying a logged line has the effect of
  the change it records, except that a table whose smallest key is empty cannot be replayed.
\<close>

section \<open>Numbers and words as text\<close>

definition digit_char :: "nat \<Rightarrow> char" where
  "digit_char d = (char_of (if d < 10 then 48 + d else 87 + d) :: char)"

definition digit_val :: "char \<Rightarrow> nat option" where
  "digit_val c = (let n = of_char c in
     if 48 \<le> n \<and> n < 58 then Some (n - 48)
     else if 97 \<le> n \<and> n < 123 then Some (n - 87)
     else if 65 \<le> n \<and> n < 91 then Some (n - 55) else None)"

fun show_nat :: "nat \<Rightarrow> string" where
  "show_nat n = (if n < 10 then [digit_char n] else show_nat (n div 10) @ [digit_char (n mod 10)])"

declare show_nat.simps [simp del]

text \<open>\<^verbatim>\<open>from_str_radix\<close> of an unsigned type with the given number of bits.\<close>

fun parse_digits :: "nat \<Rightarrow> nat \<Rightarrow> nat \<Rightarrow> string \<Rightarrow> nat option" where
  "parse_digits radix bits acc [] = Some acc"
| "parse_digits radix bits acc (c # cs) =
    (case digit_val c of
       None \<Rightarrow> None
     | Some d \<Rightarrow> if d < radix \<and> acc * radix + d < 2 ^ bits then parse_digits radix bits (acc * radix + d) cs else None)"

definition parse_uint :: "nat \<Rightarrow> nat \<Rightarrow> string \<Rightarrow> nat option" where
  "parse_uint radix bits s =
    (case s of
       [] \<Rightarrow> None
     | c # cs \<Rightarrow> if c = CHR ''+'' then (if cs = [] then None else parse_digits radix bits 0 cs)
                 else parse_digits radix bits 0 s)"

definition is_space :: "char \<Rightarrow> bool" where
  "is_space c = (let n = (of_char c :: nat) in n = 32 \<or> (9 \<le> n \<and> n \<le> 13))"

function split_whitespace :: "string \<Rightarrow> string list" where
  "split_whitespace s =
    (let s = dropWhile is_space s in
     if s = [] then []
     else takeWhile (\<lambda>c. \<not> is_space c) s # split_whitespace (dropWhile (\<lambda>c. \<not> is_space c) s))"
  by pat_completeness auto
termination
proof (relation "measure length", simp, goal_cases)
  case (1 s x)
  then have "\<not> is_space (hd x)" by (metis hd_dropWhile)
  then have "length (dropWhile (\<lambda>c. \<not> is_space c) x) < length x"
    using 1(2) by (cases x) (auto simp: le_imp_less_Suc length_dropWhile_le)
  also have "length x \<le> length s" using 1(1) by (simp add: length_dropWhile_le)
  finally show ?case by simp
qed

declare split_whitespace.simps [simp del]

fun hex_encode :: "bytes \<Rightarrow> string" where
  "hex_encode [] = []"
| "hex_encode (b # bs) = digit_char (unat b div 16) # digit_char (unat b mod 16) # hex_encode bs"

fun hex_pairs :: "string \<Rightarrow> bytes result" where
  "hex_pairs (a # b # s) =
    and_then (ok_or StorageCorrupted (parse_uint 16 8 [a, b])) (\<lambda>n.
      and_then (hex_pairs s) (\<lambda>bs. Inr (of_nat n # bs)))"
| "hex_pairs _ = Inr []"

definition hex_decode :: "string \<Rightarrow> bytes result" where
  "hex_decode s = (if length s mod 2 \<noteq> 0 then Inl StorageCorrupted else hex_pairs s)"

section \<open>Levels and the manifest\<close>

definition MAX_LEVEL_COUNT :: nat where "MAX_LEVEL_COUNT = 7"

record level_state =
  levels :: "sst_meta list list"
  next_sst_id :: nat

definition level_state_new :: level_state where
  "level_state_new = \<lparr>levels = replicate MAX_LEVEL_COUNT [], next_sst_id = 1\<rparr>"

definition next_id :: "level_state \<Rightarrow> nat \<times> level_state" where
  "next_id st = (next_sst_id st, st\<lparr>next_sst_id := next_sst_id st + 1\<rparr>)"

definition total_disk_size :: "level_state \<Rightarrow> nat" where
  "total_disk_size st = sum_list (map file_size (concat (levels st)))"

definition level_size :: "level_state \<Rightarrow> nat \<Rightarrow> nat result" where
  "level_size st level =
    (if \<not> level < MAX_LEVEL_COUNT then Inl Panic else Inr (sum_list (map file_size (levels st ! level))))"

definition log_add :: "nat \<Rightarrow> sst_meta \<Rightarrow> string list \<Rightarrow> string list" where
  "log_add level m manifest = manifest @
    [''ADD '' @ show_nat level @ '' '' @ show_nat (sst_id m) @ '' '' @ hex_encode (first_key m) @ '' ''
      @ hex_encode (last_key m) @ '' '' @ show_nat (file_size m) @ '' '' @ show_nat (entry_count m)]"

definition log_del :: "nat \<Rightarrow> string list \<Rightarrow> string list" where
  "log_del sid manifest = manifest @ [''DEL '' @ show_nat sid]"

definition replay_line :: "string \<Rightarrow> level_state \<Rightarrow> level_state result" where
  "replay_line line st =
    (case split_whitespace line of
       cmd # args \<Rightarrow>
         if cmd = ''ADD'' then
           (case args of
              [lvl, sid, fk, lk, fs, ec] \<Rightarrow>
                and_then (ok_or StorageCorrupted (parse_uint 10 64 lvl)) (\<lambda>level.
                and_then (ok_or StorageCorrupted (parse_uint 10 64 sid)) (\<lambda>sst_id.
                and_then (hex_decode fk) (\<lambda>first_key.
                and_then (hex_decode lk) (\<lambda>last_key.
                and_then (ok_or StorageCorrupted (parse_uint 10 64 fs)) (\<lambda>file_size.
                and_then (ok_or StorageCorrupted (parse_uint 10 64 ec)) (\<lambda>entry_count.
                if \<not> level < MAX_LEVEL_COUNT then Inl Panic
                else Inr (st\<lparr>levels := (levels st)[level := levels st ! level @
                       [\<lparr>sst_id = sst_id, first_key = first_key, last_key = last_key,
                         file_size = file_size, entry_count = entry_count\<rparr>]],
                     next_sst_id := (if sst_id \<ge> next_sst_id st then sst_id + 1 else next_sst_id st)\<rparr>)))))))
            | _ \<Rightarrow> Inl StorageCorrupted)
         else if cmd = ''DEL'' then
           (case args of
              [sid] \<Rightarrow>
                and_then (ok_or StorageCorrupted (parse_uint 10 64 sid)) (\<lambda>sid.
                  Inr (st\<lparr>levels := map (filter (\<lambda>m. sst_id m \<noteq> sid)) (levels st)\<rparr>))
            | _ \<Rightarrow> Inl StorageCorrupted)
         else Inl StorageCorrupted
     | [] \<Rightarrow> Inl StorageCorrupted)"

text \<open>The replay loop of \<^verbatim>\<open>Manifest::open\<close>; blank lines are skipped.\<close>

fun replay_lines :: "string list \<Rightarrow> level_state \<Rightarrow> level_state result" where
  "replay_lines [] st = Inr st"
| "replay_lines (line # lines) st =
    (if split_whitespace line = [] then replay_lines lines st
     else and_then (replay_line line st) (replay_lines lines))"

definition manifest_open :: "string list \<Rightarrow> level_state result" where
  "manifest_open lines = replay_lines lines level_state_new"

section \<open>Text round trips\<close>

lemma digit_val_char: "d < 36 \<Longrightarrow> digit_val (digit_char d) = Some d"
  by (simp add: digit_val_def digit_char_def Let_def)

lemma digit_char_facts: "d < 36 \<Longrightarrow> \<not> is_space (digit_char d) \<and> digit_char d \<noteq> CHR ''+''"
proof -
  assume d: "d < 36"
  then have n: "(of_char (digit_char d) :: nat) = (if d < 10 then 48 + d else 87 + d)"
    by (simp add: digit_char_def)
  have "digit_char d \<noteq> CHR ''+''"
  proof
    assume "digit_char d = CHR ''+''"
    then have "(if d < 10 then 48 + d else 87 + d) = 43" using n by simp
    then show False by (simp split: if_splits)
  qed
  then show ?thesis using n d by (auto simp: is_space_def Let_def)
qed

lemma parse_digits_append:
  "parse_digits radix bits acc (xs @ ys) =
    (case parse_digits radix bits acc xs of None \<Rightarrow> None | Some a \<Rightarrow> parse_digits radix bits a ys)"
  by (induction xs arbitrary: acc) (auto split: option.split)

lemma show_nat_chars: "c \<in> set (show_nat n) \<Longrightarrow> \<not> is_space c \<and> c \<noteq> CHR ''+''"
proof (induction n rule: show_nat.induct)
  case (1 n)
  show ?case
  proof (cases "n < 10")
    case True
    then show ?thesis using 1(2) digit_char_facts [of n] by (simp add: show_nat.simps [of n])
  next
    case False
    then have "c = digit_char (n mod 10) \<or> c \<in> set (show_nat (n div 10))"
      using 1(2) by (simp add: show_nat.simps [of n])
    moreover have "n mod 10 < 36" using mod_less_divisor [of 10 n] by linarith
    ultimately show ?thesis using 1(1) [OF False] digit_char_facts [of "n mod 10"] by metis
  qed
qed

lemma show_nat_nonempty: "show_nat n \<noteq> []"
  by (subst show_nat.simps) simp

lemma parse_show_nat: "n < 2 ^ bits \<Longrightarrow> parse_uint 10 bits (show_nat n) = Some n"
proof -
  have d: "n < 2 ^ bits \<Longrightarrow> parse_digits 10 bits 0 (show_nat n) = Some n" for n
  proof (induction n rule: show_nat.induct)
    case (1 n)
    show ?case
    proof (cases "n < 10")
      case True
      then show ?thesis using 1(2) by (simp add: show_nat.simps [of n] digit_val_char)
    next
      case False
      have "n div 10 < 2 ^ bits" using 1(2) by (meson div_le_dividend le_less_trans)
      moreover have "n mod 10 < 36" using mod_less_divisor [of 10 n] by linarith
      ultimately show ?thesis
        using False 1(2) 1(1) [OF False] by (simp add: show_nat.simps [of n] parse_digits_append digit_val_char)
    qed
  qed
  assume "n < 2 ^ bits"
  moreover obtain c cs where "show_nat n = c # cs" using show_nat_nonempty [of n] by (cases "show_nat n") auto
  moreover have "c \<noteq> CHR ''+''" using show_nat_chars [of c n] calculation(2) by simp
  ultimately show ?thesis using d [of n] by (simp add: parse_uint_def)
qed

lemma hex_pairs_encode: "hex_pairs (hex_encode bs) = Inr bs"
proof (induction bs)
  case (Cons b bs)
  have d: "unat b div 16 < 16" "unat b mod 16 < 16" "unat b < 256" using unat_byte_less [of b] by auto
  then have v: "digit_val (digit_char (unat b div 16)) = Some (unat b div 16)"
    "digit_val (digit_char (unat b mod 16)) = Some (unat b mod 16)" by (simp_all add: digit_val_char)
  have "parse_uint 16 8 [digit_char (unat b div 16), digit_char (unat b mod 16)] = Some (unat b)"
    using d digit_char_facts [of "unat b div 16"] by (simp add: parse_uint_def v)
  then show ?case using Cons by simp
qed simp

lemma length_hex_encode: "length (hex_encode bs) = 2 * length bs"
  by (induction bs) auto

lemma hex_decode_encode [simp]: "hex_decode (hex_encode bs) = Inr bs"
  by (simp add: hex_decode_def length_hex_encode hex_pairs_encode)

lemma hex_encode_chars: "c \<in> set (hex_encode bs) \<Longrightarrow> \<not> is_space c"
proof (induction bs)
  case (Cons b bs)
  have "unat b div 16 < 36" "unat b mod 16 < 36" using unat_byte_less [of b] by auto
  then show ?case using Cons digit_char_facts by auto
qed simp

lemma hex_encode_eq_Nil [simp]: "hex_encode bs = [] \<longleftrightarrow> bs = []"
  by (cases bs) auto

definition word_ok :: "string \<Rightarrow> bool" where
  "word_ok w \<longleftrightarrow> w \<noteq> [] \<and> (\<forall>c \<in> set w. \<not> is_space c)"

lemma word_ok_intros [simp]:
  "word_ok (show_nat n)" "word_ok ''ADD''" "word_ok ''DEL''" "bs \<noteq> [] \<Longrightarrow> word_ok (hex_encode bs)"
  using show_nat_chars hex_encode_chars by (auto simp: word_ok_def show_nat_nonempty is_space_def)

lemma space_is_space: "is_space (CHR '' '')"
  by (simp add: is_space_def)

lemma split_whitespace_word:
  assumes "word_ok w"
  shows "split_whitespace (w @ CHR '' '' # rest) = w # split_whitespace rest"
    and "split_whitespace w = [w]"
proof -
  have dw: "dropWhile is_space (w @ xs) = w @ xs" for xs using assms by (cases w) (auto simp: word_ok_def)
  have tw: "takeWhile (\<lambda>c. \<not> is_space c) (w @ xs) = w @ takeWhile (\<lambda>c. \<not> is_space c) xs"
    "dropWhile (\<lambda>c. \<not> is_space c) (w @ xs) = dropWhile (\<lambda>c. \<not> is_space c) xs" for xs
    using assms by (auto simp: word_ok_def takeWhile_append2 dropWhile_append2)
  have skip: "split_whitespace (CHR '' '' # rest) = split_whitespace rest"
    by (subst (1 2) split_whitespace.simps) (simp add: space_is_space)
  have ne: "w @ xs \<noteq> []" for xs using assms by (simp add: word_ok_def)
  show "split_whitespace (w @ CHR '' '' # rest) = w # split_whitespace rest"
    using ne by (subst split_whitespace.simps) (simp add: Let_def dw tw space_is_space skip)
  have nil: "split_whitespace [] = []" by (simp add: split_whitespace.simps)
  have ws: "dropWhile is_space w = w" "takeWhile (\<lambda>c. \<not> is_space c) w = w"
    "dropWhile (\<lambda>c. \<not> is_space c) w = []" "w \<noteq> []"
    using dw [of "[]"] tw [of "[]"] ne [of "[]"] by simp_all
  show "split_whitespace w = [w]"
    by (subst split_whitespace.simps) (simp only: Let_def ws nil if_False simp_thms)
qed

definition meta_ok :: "sst_meta \<Rightarrow> bool" where
  "meta_ok m \<longleftrightarrow> sst_id m < 2 ^ 64 \<and> file_size m < 2 ^ 64 \<and> entry_count m < 2 ^ 64"

definition push_meta :: "nat \<Rightarrow> sst_meta \<Rightarrow> level_state \<Rightarrow> level_state" where
  "push_meta level m st = st\<lparr>levels := (levels st)[level := levels st ! level @ [m]],
    next_sst_id := max (next_sst_id st) (sst_id m + 1)\<rparr>"

definition remove_meta :: "nat \<Rightarrow> level_state \<Rightarrow> level_state" where
  "remove_meta sid st = st\<lparr>levels := map (filter (\<lambda>m. sst_id m \<noteq> sid)) (levels st)\<rparr>"

lemma split_command:
  "split_whitespace (CHR ''A'' # CHR ''D'' # CHR ''D'' # CHR '' '' # rest) = ''ADD'' # split_whitespace rest"
  "split_whitespace (CHR ''D'' # CHR ''E'' # CHR ''L'' # CHR '' '' # rest) = ''DEL'' # split_whitespace rest"
  using split_whitespace_word(1) [of "''ADD''" rest] split_whitespace_word(1) [of "''DEL''" rest] by simp_all

lemma split_space: "split_whitespace (CHR '' '' # rest) = split_whitespace rest"
  by (subst (1 2) split_whitespace.simps) (simp add: space_is_space)

lemmas split_simps = split_command split_whitespace_word

lemma replay_add:
  assumes "level < MAX_LEVEL_COUNT" "meta_ok m" "first_key m \<noteq> []" "last_key m \<noteq> []"
  shows "replay_lines (log_add level m []) st = Inr (push_meta level m st)"
proof -
  have "(level :: nat) < 2 ^ 64" using assms(1) by (simp add: MAX_LEVEL_COUNT_def)
  then show ?thesis
    using assms
    by (cases m; cases st) (auto simp: log_add_def split_simps replay_line_def parse_show_nat meta_ok_def push_meta_def)
qed

text \<open>The empty key is printed as an empty word, which splitting the line loses.\<close>

lemma replay_add_empty_key:
  assumes "first_key m = []"
  shows "replay_lines (log_add level m []) st = Inl StorageCorrupted"
proof -
  show ?thesis
    by (cases "last_key m = []") (simp_all add: log_add_def split_simps split_space replay_line_def assms)
qed

lemma replay_del: "sid < 2 ^ 64 \<Longrightarrow> replay_lines (log_del sid []) st = Inr (remove_meta sid st)"
  by (simp add: log_del_def split_simps replay_line_def parse_show_nat remove_meta_def)

lemma replay_lines_append:
  "replay_lines (xs @ ys) st = and_then (replay_lines xs st) (replay_lines ys)"
  by (induction xs arbitrary: st) (auto simp: and_then_def split: sum.split)

lemma log_append: "log_add level m manifest = manifest @ log_add level m []" "log_del sid manifest = manifest @ log_del sid []"
  by (simp_all add: log_add_def log_del_def)

end
