(* ===== verification/Merge_Iterator.thy ===== *)
theory Merge_Iterator
  imports Memtable
begin

text \<open>
  The k-way merge of sorted entry lists, \<^verbatim>\<open>idb-storage/src/engines/lsm/merge_iterator.rs\<close>. A
  source is the part of its entries from its position on. Proved: the loop ends, and the merge
  of sorted sources is sorted and holds for every key the entry of the first source that has
  it, which is the reference meaning of newest-first priority.
\<close>

section \<open>Model\<close>

text \<open>The first source with the smallest current key: the scan over the sources with the current minimum.\<close>

fun find_min :: "nat \<Rightarrow> entry list list \<Rightarrow> (nat \<times> entry) option \<Rightarrow> (nat \<times> entry) option" where
  "find_min i [] best = best"
| "find_min i (src # srcs) best =
    find_min (i + 1) srcs
      (case src of
         [] \<Rightarrow> best
       | e # _ \<Rightarrow> (case best of
           None \<Rightarrow> Some (i, e)
         | Some (_, b) \<Rightarrow> if fst e < fst b then Some (i, e) else best))"

definition advance_sources :: "nat \<Rightarrow> bytes \<Rightarrow> entry list list \<Rightarrow> entry list list" where
  "advance_sources w key srcs =
    map (\<lambda>(i, src). if i = w then tl src else dropWhile (\<lambda>e. fst e = key) src) (enumerate 0 srcs)"

lemma find_min_spec:
  assumes "case best of None \<Rightarrow> True | Some (j, b) \<Rightarrow> j < length pre \<and> (\<exists>t. pre ! j = b # t) \<and>
      (\<forall>k < length pre. pre ! k \<noteq> [] \<longrightarrow> fst b \<le> fst (hd (pre ! k))) \<and>
      (\<forall>k < j. pre ! k \<noteq> [] \<longrightarrow> fst b < fst (hd (pre ! k)))"
    and "best = None \<longrightarrow> (\<forall>k < length pre. pre ! k = [])"
  shows "case find_min (length pre) srcs best of
      None \<Rightarrow> \<forall>src \<in> set (pre @ srcs). src = []
    | Some (j, b) \<Rightarrow> j < length (pre @ srcs) \<and> (\<exists>t. (pre @ srcs) ! j = b # t) \<and>
        (\<forall>k < length (pre @ srcs). (pre @ srcs) ! k \<noteq> [] \<longrightarrow> fst b \<le> fst (hd ((pre @ srcs) ! k))) \<and>
        (\<forall>k < j. (pre @ srcs) ! k \<noteq> [] \<longrightarrow> fst b < fst (hd ((pre @ srcs) ! k)))"
  using assms
proof (induction srcs arbitrary: pre best)
  case Nil
  then show ?case by (auto simp: in_set_conv_nth split: option.splits)
next
  case (Cons src srcs)
  define best' where "best' = (case src of [] \<Rightarrow> best | e # _ \<Rightarrow>
    (case best of None \<Rightarrow> Some (length pre, e) | Some (_, b) \<Rightarrow> if fst e < fst b then Some (length pre, e) else best))"
  have "case best' of None \<Rightarrow> True | Some (j, b) \<Rightarrow> j < length (pre @ [src]) \<and> (\<exists>t. (pre @ [src]) ! j = b # t) \<and>
      (\<forall>k < length (pre @ [src]). (pre @ [src]) ! k \<noteq> [] \<longrightarrow> fst b \<le> fst (hd ((pre @ [src]) ! k))) \<and>
      (\<forall>k < j. (pre @ [src]) ! k \<noteq> [] \<longrightarrow> fst b < fst (hd ((pre @ [src]) ! k)))"
  proof (cases src)
    case Nil
    then show ?thesis using Cons.prems(1) by (auto simp: best'_def nth_append less_Suc_eq split: option.splits)
  next
    case src: (Cons e t)
    show ?thesis
    proof (cases best)
      case None
      then show ?thesis using Cons.prems(2) by (auto simp: best'_def src nth_append less_Suc_eq)
    next
      case (Some p)
      obtain j b where p: "p = (j, b)" by (cases p)
      show ?thesis
        using Cons.prems(1) Some
        by (auto simp: best'_def src p nth_append less_Suc_eq not_less intro: less_imp_le less_le_trans)
    qed
  qed
  moreover have "best' = None \<longrightarrow> (\<forall>k < length (pre @ [src]). (pre @ [src]) ! k = [])"
    using Cons.prems(2) by (auto simp: best'_def nth_append less_Suc_eq split: list.splits option.splits if_splits)
  moreover have "find_min (length pre) (src # srcs) best = find_min (length (pre @ [src])) srcs best'"
    by (simp add: best'_def)
  ultimately show ?case
    using Cons.IH [where best = best' and pre = "pre @ [src]"] by (simp only: append_assoc append_Cons append_Nil)
qed

lemma find_min_None: "find_min 0 srcs None = None \<Longrightarrow> \<forall>src \<in> set srcs. src = []"
  using find_min_spec [where best = None and pre = "[]" and srcs = srcs] by simp

lemma find_min_Some:
  assumes "find_min 0 srcs None = Some (j, b)"
  obtains t where "j < length srcs" "srcs ! j = b # t"
    "\<And>k. k < length srcs \<Longrightarrow> srcs ! k \<noteq> [] \<Longrightarrow> fst b \<le> fst (hd (srcs ! k))"
    "\<And>k. k < j \<Longrightarrow> srcs ! k \<noteq> [] \<Longrightarrow> fst b < fst (hd (srcs ! k))"
  using find_min_spec [where best = None and pre = "[]" and srcs = srcs] assms that by auto

lemma length_advance [simp]: "length (advance_sources w key srcs) = length srcs"
  by (simp add: advance_sources_def)

lemma nth_advance: "i < length srcs \<Longrightarrow> advance_sources w key srcs ! i =
    (if i = w then tl (srcs ! i) else dropWhile (\<lambda>e. fst e = key) (srcs ! i))"
  by (simp add: advance_sources_def nth_enumerate_eq)

lemma advance_decreases:
  assumes "find_min 0 srcs None = Some (j, b)"
  shows "sum_list (map length (advance_sources j key srcs)) < sum_list (map length srcs)"
proof -
  from find_min_Some [OF assms] obtain t where j: "j < length srcs" "srcs ! j = b # t" by metis
  have "length (advance_sources j key srcs ! i) \<le> length (srcs ! i)" if "i < length srcs" for i
    using that by (simp add: nth_advance length_dropWhile_le)
  moreover have "length (advance_sources j key srcs ! j) < length (srcs ! j)" using j by (simp add: nth_advance)
  ultimately have "(\<Sum>i = 0..<length srcs. length (advance_sources j key srcs ! i)) < (\<Sum>i = 0..<length srcs. length (srcs ! i))"
    using j(1) by (intro sum_strict_mono_ex1) auto
  then show ?thesis by (simp add: sum_list_sum_nth)
qed

function collect_all :: "entry list list \<Rightarrow> entry list" where
  "collect_all srcs =
    (case find_min 0 srcs None of
       None \<Rightarrow> []
     | Some (winner_idx, entry) \<Rightarrow> entry # collect_all (advance_sources winner_idx (fst entry) srcs))"
  by pat_completeness auto
termination
  by (relation "measure (\<lambda>srcs. sum_list (map length srcs))") (auto simp: advance_decreases)

declare collect_all.simps [simp del]

section \<open>Correctness\<close>

abbreviation sources_sorted :: "entry list list \<Rightarrow> bool" where
  "sources_sorted srcs \<equiv> \<forall>src \<in> set srcs. keys_sorted src"

lemma dropWhile_first_key:
  assumes "keys_sorted src" "src \<noteq> [] \<longrightarrow> key \<le> fst (hd src)"
  shows "keys_sorted (dropWhile (\<lambda>e. fst e = key) src)"
    and "\<forall>e \<in> set (dropWhile (\<lambda>e. fst e = key) src). key < fst e"
    and "map_of (dropWhile (\<lambda>e. fst e = key) src) k = (if k = key then None else map_of src k)"
proof -
  have d: "dropWhile (\<lambda>e. fst e = key) src = (case src of [] \<Rightarrow> [] | e # es \<Rightarrow> if fst e = key then es else src)"
    using assms(1) by (cases src; cases "tl src") auto
  show "keys_sorted (dropWhile (\<lambda>e. fst e = key) src)" unfolding d using assms(1) by (cases src) simp_all
  show gt: "\<forall>e \<in> set (dropWhile (\<lambda>e. fst e = key) src). key < fst e"
    unfolding d using assms by (cases src) (auto dest: le_less_trans)
  have "map_of (dropWhile (\<lambda>e. fst e = key) src) key = None" using gt by (fastforce simp: map_of_eq_None_iff)
  then show "map_of (dropWhile (\<lambda>e. fst e = key) src) k = (if k = key then None else map_of src k)"
    by (auto simp: d split: list.splits)
qed

lemma map_of_concat_advance:
  assumes "\<And>i. i < length srcs \<Longrightarrow> map_of (srcs' ! i) k = map_of (srcs ! i) k" "length srcs' = length srcs"
  shows "map_of (concat srcs') k = map_of (concat srcs) k"
  using assms
proof (induction srcs arbitrary: srcs')
  case (Cons s srcs)
  then obtain s' srcs'' where s': "srcs' = s' # srcs''" by (cases srcs') auto
  have "map_of s' k = map_of s k" using Cons.prems(1) [of 0] s' by simp
  moreover have "map_of (concat srcs'') k = map_of (concat srcs) k"
  proof (rule Cons.IH)
    fix i assume "i < length srcs"
    then show "map_of (srcs'' ! i) k = map_of (srcs ! i) k" using Cons.prems(1) [of "Suc i"] s' by simp
  qed (use Cons.prems s' in simp)
  ultimately show ?case using s' by (simp add: map_add_def split: option.split)
qed simp

lemma map_of_concat_first:
  assumes "j < length srcs" "map_of (srcs ! j) k = Some v" "\<And>i. i < j \<Longrightarrow> map_of (srcs ! i) k = None"
  shows "map_of (concat srcs) k = Some v"
  using assms
proof (induction srcs arbitrary: j)
  case (Cons s srcs)
  show ?case
  proof (cases j)
    case (Suc j')
    then have "map_of s k = None" using Cons.prems(3) [of 0] by simp
    moreover have "map_of (concat srcs) k = Some v"
    proof (rule Cons.IH [of j'])
      fix i assume "i < j'"
      then show "map_of (srcs ! i) k = None" using Cons.prems(3) [of "Suc i"] Suc by simp
    qed (use Cons.prems Suc in auto)
    ultimately show ?thesis by (simp add: map_add_def)
  qed (use Cons.prems in \<open>simp add: map_add_def\<close>)
qed simp

lemma advance_step:
  assumes "sources_sorted srcs" "find_min 0 srcs None = Some (j, (key, v))"
  shows "sources_sorted (advance_sources j key srcs)"
    and "\<forall>src \<in> set (advance_sources j key srcs). \<forall>e \<in> set src. key < fst e"
    and "map_of (concat srcs) key = Some v"
    and "k \<noteq> key \<Longrightarrow> map_of (concat (advance_sources j key srcs)) k = map_of (concat srcs) k"
proof -
  from find_min_Some [OF assms(2)] obtain t where j: "j < length srcs" "srcs ! j = (key, v) # t"
    and le: "\<And>k. k < length srcs \<Longrightarrow> srcs ! k \<noteq> [] \<Longrightarrow> key \<le> fst (hd (srcs ! k))"
    and lt: "\<And>k. k < j \<Longrightarrow> srcs ! k \<noteq> [] \<Longrightarrow> key < fst (hd (srcs ! k))" by auto
  have srt: "keys_sorted (srcs ! i)" if "i < length srcs" for i using assms(1) that by simp
  have le': "srcs ! i \<noteq> [] \<longrightarrow> key \<le> fst (hd (srcs ! i))" if "i < length srcs" for i using le that by blast
  note dw = dropWhile_first_key [OF srt le']
  have tlj: "keys_sorted t" "\<forall>e \<in> set t. key < fst e" using srt [OF j(1)] j(2) by auto
  show "sources_sorted (advance_sources j key srcs)"
    using dw(1) tlj(1) j by (auto simp: in_set_conv_nth nth_advance)
  show "\<forall>src \<in> set (advance_sources j key srcs). \<forall>e \<in> set src. key < fst e"
  proof
    fix src assume "src \<in> set (advance_sources j key srcs)"
    then obtain i where i: "i < length srcs" "src = advance_sources j key srcs ! i" by (auto simp: in_set_conv_nth)
    show "\<forall>e \<in> set src. key < fst e"
      using dw(2) [OF i(1) i(1)] tlj(2) j(2) i by (cases "i = j") (simp_all add: nth_advance)
  qed
  have "map_of (srcs ! i) key = None" if "i < j" for i
    using map_of_eq_None_sorted [OF srt, of i key] lt [OF that] that j(1) by auto
  then show "map_of (concat srcs) key = Some v" using j by (intro map_of_concat_first) auto
  show "map_of (concat (advance_sources j key srcs)) k = map_of (concat srcs) k" if "k \<noteq> key"
    using dw(3) j that by (intro map_of_concat_advance) (auto simp: nth_advance)
qed

lemma collect_all_correct:
  assumes "sources_sorted srcs"
  shows "keys_sorted (collect_all srcs) \<and> map_of (collect_all srcs) = map_of (concat srcs) \<and>
    set (collect_all srcs) \<subseteq> \<Union> (set ` set srcs)"
  using assms
proof (induction srcs rule: collect_all.induct)
  case (1 srcs)
  show ?case
  proof (cases "find_min 0 srcs None")
    case None
    then have "concat srcs = []" using find_min_None by auto
    then show ?thesis using None by (subst (1 2 3) collect_all.simps) simp
  next
    case (Some p)
    obtain j key v where p: "p = (j, (key, v))" by (metis surj_pair)
    let ?srcs = "advance_sources j key srcs"
    note st = advance_step [OF 1(2) Some [unfolded p]]
    have IH: "keys_sorted (collect_all ?srcs)" "map_of (collect_all ?srcs) = map_of (concat ?srcs)"
      "set (collect_all ?srcs) \<subseteq> \<Union> (set ` set ?srcs)"
      using 1(1) [OF Some, of j "(key, v)"] st(1) by (simp_all add: p)
    have eq: "collect_all srcs = (key, v) # collect_all ?srcs"
      by (subst collect_all.simps) (simp add: Some p)
    have "\<forall>e \<in> set (collect_all ?srcs). key < fst e" using IH(3) st(2) by blast
    moreover have "set (?srcs ! i) \<subseteq> set (srcs ! i)" if "i < length srcs" for i
      using that by (auto simp: nth_advance dest: set_dropWhileD list.set_sel(2))
        (metis list.set_sel(2) tl_Nil)
    then have sub: "\<Union> (set ` set ?srcs) \<subseteq> \<Union> (set ` set srcs)"
      by (fastforce simp: in_set_conv_nth [of _ ?srcs])
    moreover have "(key, v) \<in> \<Union> (set ` set srcs)"
      using find_min_Some [OF Some [unfolded p]] by (metis UN_iff list.set_intros(1) nth_mem)
    moreover have "map_of (collect_all srcs) = map_of (concat srcs)"
      using st(3,4) IH(2) by (auto simp: eq fun_eq_iff)
    ultimately show ?thesis using IH by (auto simp: eq)
  qed
qed

section \<open>Priority\<close>

text \<open>
  C32. The merge of sorted sources terminates with a strictly sorted list that holds, for every key, exactly
  the entry of the first source that has the key, and nothing else.
\<close>

theorem merge_first_source_wins:
  assumes "sources_sorted srcs"
  shows "keys_sorted (collect_all srcs) \<and>
    (\<forall>k. map_of (collect_all srcs) k = (case filter (\<lambda>src. map_of src k \<noteq> None) srcs of [] \<Rightarrow> None | src # _ \<Rightarrow> map_of src k))"
proof -
  have "map_of (concat srcs) k = (case filter (\<lambda>src. map_of src k \<noteq> None) srcs of [] \<Rightarrow> None | src # _ \<Rightarrow> map_of src k)"
    for srcs :: "entry list list" and k
    by (induction srcs) (auto simp: map_add_def split: option.splits)
  then show ?thesis using collect_all_correct [OF assms] by simp
qed

theorem merge_first_source_wins_witness:
  "map_of (collect_all [[([1], None), ([3], Some [30])], [([1], Some [10]), ([2], Some [20])]]) [1] = Some None \<and>
    map_of (collect_all [[([1], None), ([3], Some [30])], [([1], Some [10]), ([2], Some [20])]]) [2] = Some (Some [20])"
  using merge_first_source_wins [of "[[([1], None), ([3], Some [30])], [([1], Some [10]), ([2], Some [20])]]"] by simp

end
