(* ===== verification/Compaction_Correct.thy ===== *)
theory Compaction_Correct
  imports Compaction
begin

text \<open>
  Compaction keeps the contents of the store.  For every state in which each listed table is backed by
  an open reader and the levels below the first are sorted runs of disjoint tables, every compaction
  step runs without an error, keeps those conditions and changes no lookup.
\<close>

text \<open>
  The common part of both compactions: merging the tables \<^verbatim>\<open>A\<close>, all within the key span from
  \<^verbatim>\<open>lo\<close> to \<^verbatim>\<open>hi\<close>, with the overlapping tables of a level.
\<close>

lemma compact_core:
  assumes inv: "store_inv crc s" and t: "1 \<le> t" "t < MAX_LEVEL_COUNT"
    and A: "set A \<subseteq> set (all_metas s)" "\<forall>m \<in> set A. lo \<le> first_key m \<and> last_key m \<le> hi"
  defines "T \<equiv> levels (level_st s) ! t"
  defines "over \<equiv> filter (overlaps lo hi) T" and "rem \<equiv> filter (\<lambda>m. \<not> overlaps lo hi m) T"
  defines "merged \<equiv> collect_all (map (tbl s) A @ map (tbl s) over)"
  obtains new s1 s2 where "write_split_sstables crc merged bottom s = Inr (new, s1)"
    "install_tables crc (map sst_id (A @ over)) new t s1 = Inr s2"
    "level_st s2 = (level_st s)\<lparr>next_sst_id := next_of s + length new\<rparr>"
    "map sst_id new = [next_of s..<next_of s + length new]"
    "\<And>i. i < next_of s \<Longrightarrow> readers s2 i = (if i \<in> sst_id ` set (A @ over) then None else readers s i)"
    "disjoint_level (fold insert_sorted_meta new rem)" "mset (fold insert_sorted_meta new rem) = mset rem + mset new"
    "\<forall>m \<in> set new. table_ok crc s2 m"
    "\<And>k. map_of merged k = map_of (lv_entries s A @ lv_entries s over) k"
    "\<And>k v. (\<exists>m \<in> set new. map_of (tbl s2 m) k = Some v) \<longleftrightarrow> map_of merged k = Some v \<and> \<not> (bottom \<and> v = None)"
    "\<And>k r. r \<in> set rem \<Longrightarrow> map_of merged k \<noteq> None \<Longrightarrow> map_of (tbl s r) k = None"
proof -
  have T: "disjoint_level T" using inv t by (simp add: store_inv_def T_def)
  have TA: "set T \<subseteq> set (all_metas s)" using inv t level_member [of t s] by (auto simp: store_inv_def T_def)
  have ok: "table_ok crc s m" "sst_id m < next_of s" if "m \<in> set (all_metas s)" for m
    using inv that by (simp_all add: store_inv_def)
  then have sp: "meta_spans m (tbl s m)" if "m \<in> set (all_metas s)" for m
    using that by (simp add: table_ok_def)
  have inA: "set (A @ over) \<subseteq> set (all_metas s)" using A(1) TA by (auto simp: over_def)
  have srcs: "sources_sorted (map (tbl s) A @ map (tbl s) over)" using sp inA by (auto simp: meta_spans_def)
  note mc = collect_all_correct [OF srcs, folded merged_def]
  have msort: "keys_sorted merged" and mmap: "map_of merged = map_of (lv_entries s A @ lv_entries s over)"
    and mset: "set merged \<subseteq> (\<Union>m \<in> set (A @ over). set (tbl s m))"
    using mc by (auto simp: lv_entries_def)
  have fit: "\<forall>e \<in> set merged. entry_fits e" using mset sp inA by (fastforce simp: meta_spans_def)
  obtain new s1 tss where w: "write_split_sstables crc merged bottom s = Inr (new, s1)"
    "tables_written crc s s1 new tss" "concat tss = kept_entries bottom merged"
    by (rule write_split_ok [OF fit msort])
  have ids: "\<forall>i \<in> set (map sst_id (A @ over)). i < next_of s" using ok(2) inA by auto
  obtain s2 where i2: "install_tables crc (map sst_id (A @ over)) new t s1 = Inr s2" "level_st s2 = level_st s1"
    "\<And>i. i < next_of s \<Longrightarrow> readers s2 i = (if i \<in> set (map sst_id (A @ over)) then None else readers s i)"
    "list_all2 (good_reader crc (readers s2)) new tss" "list_all2 meta_spans new tss"
    by (rule install_tables_ok [OF w(2) ids, of t]) blast
  have lev: "level_st s2 = (level_st s)\<lparr>next_sst_id := next_of s + length new\<rparr>"
    and nids: "map sst_id new = [next_of s..<next_of s + length new]"
    using w(2) i2(2) by (auto simp: tables_written_def)
  have ks: "keys_sorted (concat tss)" using msort w(3) by simp
  have tn: "map (tbl s2) new = tss"
    using i2(4) good_reader_tbl by (auto simp: list_all2_conv_all_nth intro!: nth_equalityI)
  then have lvn: "lv_entries s2 new = kept_entries bottom merged" using w(3) by (simp add: lv_entries_def)
  have spn: "\<forall>m \<in> set new. meta_spans m (tbl s2 m)"
    using i2(5) [folded tn] by (auto simp: list_all2_conv_all_nth in_set_conv_nth)
  have okn: "\<forall>m \<in> set new. table_ok crc s2 m"
    using i2(4) [folded tn] spn by (auto simp: table_ok_def list_all2_conv_all_nth in_set_conv_nth)
  have dn: "disjoint_level new" by (rule spans_disjoint [OF i2(5) ks])
  have kn: "(\<exists>m \<in> set new. map_of (tbl s2 m) k = Some v) \<longleftrightarrow> map_of merged k = Some v \<and> \<not> (bottom \<and> v = None)" for k v
  proof -
    have "(\<exists>m \<in> set new. map_of (tbl s2 m) k = Some v) \<longleftrightarrow> map_of (kept_entries bottom merged) k = Some v"
      using map_of_level [OF spn dn, of k v] lvn by simp
    also have "\<dots> \<longleftrightarrow> map_of merged k = Some v \<and> \<not> (bottom \<and> v = None)"
      using keys_sorted_distinct [OF msort] keys_sorted_distinct [OF keys_sorted_filter [OF msort]]
      by (auto simp: map_of_eq_Some_iff)
    finally show ?thesis .
  qed
  have leT: "\<forall>m \<in> set T. first_key m \<le> last_key m" using meta_spans_bounds(2) sp TA by blast
  have sep: "(last_key r < lo \<longrightarrow> last_key r < fst e) \<and> (hi < first_key r \<longrightarrow> fst e < first_key r) \<and> (last_key r < lo \<or> hi < first_key r)"
    if r: "r \<in> set rem" and e: "e \<in> set merged" for r e
  proof -
    from mset e obtain m where m: "m \<in> set (A @ over)" "e \<in> set (tbl s m)" by blast
    have "r \<in> set T" "\<not> overlaps lo hi r" "m \<in> set A \<or> m \<in> set T \<and> overlaps lo hi m"
      using r m(1) by (auto simp: rem_def over_def)
    moreover have "first_key m \<le> fst e" "fst e \<le> last_key m" "first_key m \<le> last_key m"
      using meta_spans_bounds(1) [OF sp, of m e] meta_spans_bounds(2) [OF sp, of m] inA m by auto
    ultimately show ?thesis
      using input_keys_apart [OF T leT A(2), of r m] by (auto intro: le_less_trans less_le_trans)
  qed
  have ap: "\<forall>m \<in> set new. \<forall>r \<in> set rem. apart m r"
  proof (intro ballI)
    fix m r assume m: "m \<in> set new" and r: "r \<in> set rem"
    have "set (tbl s2 m) \<subseteq> set (lv_entries s2 new)" using m by (auto simp: lv_entries_def)
    then have "set (tbl s2 m) \<subseteq> set merged" using lvn by auto
    moreover have "hd (tbl s2 m) \<in> set (tbl s2 m)" "last (tbl s2 m) \<in> set (tbl s2 m)"
      "first_key m = fst (hd (tbl s2 m))" "last_key m = fst (last (tbl s2 m))"
      using spn m by (auto simp: meta_spans_def)
    ultimately show "apart m r" using sep [OF r, of "hd (tbl s2 m)"] sep [OF r, of "last (tbl s2 m)"] by (auto simp: apart_def)
  qed
  have dr: "disjoint_level rem" unfolding rem_def by (rule disjoint_level_filter [OF T])
  have le: "\<forall>m \<in> set rem \<union> set new. first_key m \<le> last_key m"
    using leT meta_spans_bounds(2) spn by (auto simp: rem_def)
  have rm: "map_of (tbl s r) k = None" if r: "r \<in> set rem" and k: "map_of merged k \<noteq> None" for k r
  proof (rule ccontr)
    assume "map_of (tbl s r) k \<noteq> None"
    then obtain v where "map_of (tbl s r) k = Some v" by auto
    moreover have "r \<in> set (all_metas s)" using r TA by (auto simp: rem_def)
    ultimately have "first_key r \<le> k" "k \<le> last_key r" using meta_spans_map_of [OF sp] by auto
    moreover obtain v' where "(k, v') \<in> set merged" using k by (auto dest: map_of_SomeD)
    ultimately show False using sep [OF r, of "(k, v')"] by auto
  qed
  show thesis
    using that [OF w(1) i2(1) lev nids] i2(3) fold_insert_sorted_meta [OF dr dn ap le] okn mmap kn rm by (simp add: image_Un)
qed


text \<open>Replacing the deleted tables by the new ones keeps every other table.\<close>

lemma replace_tables:
  assumes inv: "store_inv crc s" and old: "mset (all_metas s) = mset (del @ keep)"
    and new: "mset (all_metas s') = mset (keep @ new)" "\<forall>m \<in> set new. table_ok crc s' m"
    and ids: "map sst_id new = [next_of s..<next_of s + length new]" "next_of s' = next_of s + length new"
    and rd: "\<And>i. i < next_of s \<Longrightarrow> readers s' i = (if i \<in> sst_id ` set del then None else readers s i)"
  shows "\<forall>m \<in> set (all_metas s'). table_ok crc s' m \<and> sst_id m < next_of s'" "distinct (map sst_id (all_metas s'))"
    and "m \<in> set keep \<Longrightarrow> tbl s' m = tbl s m"
proof -
  have sets: "set (all_metas s) = set (del @ keep)" "set (all_metas s') = set (keep @ new)"
    using mset_eq_setD [OF old] mset_eq_setD [OF new(1)] by simp_all
  have d: "distinct (map sst_id (del @ keep))"
    using inv old by (metis mset_eq_imp_distinct_iff mset_map store_inv_def)
  have lt: "sst_id m < next_of s" "table_ok crc s m" if "m \<in> set (del @ keep)" for m
    using inv sets that by (simp_all add: store_inv_def)
  have nn: "next_of s \<le> sst_id m \<and> sst_id m < next_of s'" if "m \<in> set new" for m
  proof -
    have "sst_id m \<in> set (map sst_id new)" using that by simp
    then show ?thesis unfolding ids(1) using ids(2) by simp
  qed
  have keep: "readers s' (sst_id m) = readers s (sst_id m)" if "m \<in> set keep" for m
    using rd [of "sst_id m"] lt(1) [of m] d that by auto
  then show "m \<in> set keep \<Longrightarrow> tbl s' m = tbl s m" by (rule tbl_cong)
  have "table_ok crc s' m" if "m \<in> set keep" for m
    using table_ok_cong [OF keep [OF that], of crc] lt(2) that by simp
  then show "\<forall>m \<in> set (all_metas s'). table_ok crc s' m \<and> sst_id m < next_of s'"
    using sets nn new(2) lt(1) ids(2) by (auto simp: trans_less_add1)
  have "sst_id m \<noteq> sst_id m'" if "m \<in> set keep" "m' \<in> set new" for m m'
    using lt(1) [of m] nn [of m'] that by auto
  then have "set (map sst_id keep) \<inter> set (map sst_id new) = {}" by auto
  then have "distinct (map sst_id (keep @ new))"
    unfolding map_append distinct_append ids(1) using d by simp
  then show "distinct (map sst_id (all_metas s'))"
    using new(1) by (metis mset_eq_imp_distinct_iff mset_map)
qed

section \<open>The lookup view\<close>

text \<open>The order in which a lookup probes the tables: the first level newest first, then level by level.\<close>

definition probe_order :: "sst_meta list list \<Rightarrow> sst_meta list" where
  "probe_order lvs = (case lvs of [] \<Rightarrow> [] | l0 # rest \<Rightarrow> rev l0 @ concat rest)"

definition store_entries :: "lsm_store \<Rightarrow> entry list" where
  "store_entries s = lv_entries s (probe_order (levels (level_st s)))"

abbreviation live :: "bytes option option \<Rightarrow> bytes option" where
  "live e \<equiv> (case e of Some (Some v) \<Rightarrow> Some v | _ \<Rightarrow> None)"

definition store_view :: "lsm_store \<Rightarrow> bytes \<Rightarrow> bytes option" where
  "store_view s k = live (map_of (store_entries s) k)"

lemma set_probe_order [simp]: "set (probe_order lvs) = set (concat lvs)"
  by (cases lvs) (auto simp: probe_order_def)

lemma mset_probe_order [simp]: "mset (probe_order lvs) = mset (concat lvs)"
  by (cases lvs) (auto simp: probe_order_def)

lemma merge_view:
  assumes keep: "\<And>m. m \<in> set (P @ R @ Y) \<Longrightarrow> tbl s' m = tbl s m"
    and A: "\<And>k. map_of (lv_entries s A) k \<noteq> None \<Longrightarrow> map_of (lv_entries s R) k = None"
    and bot: "bottom \<Longrightarrow> Y = []"
    and mg: "\<And>k. map_of merged k = map_of (lv_entries s A @ lv_entries s T) k \<or>
      map_of merged k = None \<and> map_of (lv_entries s A) k = None"
    and T': "\<And>k. map_of (lv_entries s' T') k = (case map_of merged k of
        Some v \<Rightarrow> if bottom \<and> v = None then None else Some v
      | None \<Rightarrow> map_of (lv_entries s T) k)"
  shows "live (map_of (lv_entries s' (P @ R @ T' @ Y)) k) = live (map_of (lv_entries s (P @ A @ R @ T @ Y)) k)"
proof -
  have eq: "lv_entries s' P = lv_entries s P" "lv_entries s' R = lv_entries s R" "lv_entries s' Y = lv_entries s Y"
    using keep by (auto intro!: lv_entries_cong)
  show ?thesis
    using A [of k] mg [of k] T' [of k] bot eq
    by (cases "map_of (lv_entries s P) k"; cases "map_of (lv_entries s R) k"; cases "map_of (lv_entries s A) k";
        cases "map_of merged k"; cases "map_of (lv_entries s T) k"; cases bottom)
      (auto simp: map_add_def split: option.splits)
qed


lemma option_eqI: "(\<And>v. a = Some v \<longleftrightarrow> b = Some v) \<Longrightarrow> a = b"
  by (cases a; cases b) blast+

lemma replaced_level:
  assumes T: "\<forall>m \<in> set T. meta_spans m (tbl s m)" "disjoint_level T"
    and T': "\<forall>m \<in> set T'. meta_spans m (tbl s' m)" "disjoint_level T'"
    and sets: "set T = set over \<union> set rem" "set T' = set rem \<union> set new"
    and keep: "\<And>m. m \<in> set rem \<Longrightarrow> tbl s' m = tbl s m"
    and mg: "\<And>k. map_of merged k = None \<Longrightarrow> map_of (lv_entries s over) k = None"
    and new: "\<And>k v. (\<exists>m \<in> set new. map_of (tbl s' m) k = Some v) \<longleftrightarrow> map_of merged k = Some v \<and> \<not> (bottom \<and> v = None)"
    and rem: "\<And>k r. r \<in> set rem \<Longrightarrow> map_of merged k \<noteq> None \<Longrightarrow> map_of (tbl s r) k = None"
  shows "map_of (lv_entries s' T') k = (case map_of merged k of
        Some v \<Rightarrow> if bottom \<and> v = None then None else Some v
      | None \<Rightarrow> map_of (lv_entries s T) k)"
proof -
  have t': "map_of (lv_entries s' T') k = Some v \<longleftrightarrow>
      (\<exists>m \<in> set rem. map_of (tbl s m) k = Some v) \<or> (map_of merged k = Some v \<and> \<not> (bottom \<and> v = None))" for v
    unfolding map_of_level [OF T'] sets(2) new [symmetric] by (simp add: bex_Un keep cong: bex_cong)
  show ?thesis
  proof (cases "map_of merged k")
    case None
    have "map_of (tbl s m) k = None" if "m \<in> set over" for m
      using mg [OF None] that by (auto simp: lv_entries_def map_of_eq_None_iff)
    then have t: "map_of (lv_entries s T) k = Some v \<longleftrightarrow> (\<exists>m \<in> set rem. map_of (tbl s m) k = Some v)" for v
      unfolding map_of_level [OF T] sets(1) by auto
    have "map_of (lv_entries s' T') k = Some v \<longleftrightarrow> map_of (lv_entries s T) k = Some v" for v
      using t [of v] t' [of v] None by simp
    then have "map_of (lv_entries s' T') k = map_of (lv_entries s T) k"
      by (rule option_eqI)
    then show ?thesis using None by simp
  next
    case (Some v)
    then have "\<not> (\<exists>m \<in> set rem. map_of (tbl s m) k = Some w)" for w using rem [of _ k] by fastforce
    then have "map_of (lv_entries s' T') k = Some w \<longleftrightarrow> v = w \<and> \<not> (bottom \<and> w = None)" for w using t' Some by simp
    then have "map_of (lv_entries s' T') k = (if bottom \<and> v = None then None else Some v)"
      by (intro option_eqI) auto
    then show ?thesis unfolding Some option.case .
  qed
qed

lemma merge_step:
  assumes inv: "store_inv crc s" and lv: "levels (level_st s) = X @ [Ls, T] @ Y"
    and A: "mset Ls = mset (A @ R)" "\<forall>m \<in> set A. lo \<le> first_key m \<and> last_key m \<le> hi"
    and R: "mset R' = mset R" "X \<noteq> [] \<Longrightarrow> disjoint_level R'"
    and sep: "\<And>k. map_of (lv_entries s A) k \<noteq> None \<Longrightarrow> map_of (lv_entries s R) k = None"
    and ord: "probe_order (X @ [Ls, T] @ Y) = P @ A @ R @ T @ concat Y"
      "\<And>T'. probe_order (X @ [R', T'] @ Y) = P @ R @ T' @ concat Y"
    and bot: "bottom \<Longrightarrow> concat Y = []"
  defines "over \<equiv> filter (overlaps lo hi) T" and "rem \<equiv> filter (\<lambda>m. \<not> overlaps lo hi m) T"
  defines "merged \<equiv> collect_all (map (tbl s) A @ map (tbl s) over)"
  obtains new s1 s2 s3 where "write_split_sstables crc merged bottom s = Inr (new, s1)"
    "install_tables crc (map sst_id (A @ over)) new (length X + 1) s1 = Inr s2"
    "levels (level_st s2) = levels (level_st s)"
    "s3 = s2\<lparr>level_st := (level_st s2)\<lparr>levels := X @ [R', fold insert_sorted_meta new rem] @ Y\<rparr>\<rparr>"
    "store_inv crc s3" "store_view s3 = store_view s"
proof -
  have len: "length X + 1 < MAX_LEVEL_COUNT" "length (X @ [Ls, T] @ Y) = MAX_LEVEL_COUNT"
    using inv lv by (simp_all add: store_inv_def)
  have Tt: "levels (level_st s) ! (length X + 1) = T" using lv by (simp add: nth_append)
  have msL: "set Ls = set A \<union> set R" using mset_eq_setD [OF A(1)] by simp
  then have Aall: "set A \<subseteq> set (all_metas s)" using lv by (auto simp: all_metas_def)
  obtain new s1 s2 where c: "write_split_sstables crc merged bottom s = Inr (new, s1)"
    "install_tables crc (map sst_id (A @ over)) new (length X + 1) s1 = Inr s2"
    "level_st s2 = (level_st s)\<lparr>next_sst_id := next_of s + length new\<rparr>"
    "map sst_id new = [next_of s..<next_of s + length new]"
    "\<And>i. i < next_of s \<Longrightarrow> readers s2 i = (if i \<in> sst_id ` set (A @ over) then None else readers s i)"
    "disjoint_level (fold insert_sorted_meta new rem)" "mset (fold insert_sorted_meta new rem) = mset rem + mset new"
    "\<forall>m \<in> set new. table_ok crc s2 m"
    "\<And>k. map_of merged k = map_of (lv_entries s A @ lv_entries s over) k"
    "\<And>k v. (\<exists>m \<in> set new. map_of (tbl s2 m) k = Some v) \<longleftrightarrow> map_of merged k = Some v \<and> \<not> (bottom \<and> v = None)"
    "\<And>k r. r \<in> set rem \<Longrightarrow> map_of merged k \<noteq> None \<Longrightarrow> map_of (tbl s r) k = None"
    by (rule compact_core [OF inv _ len(1) Aall A(2), of bottom, unfolded Tt, folded over_def rem_def, folded merged_def])
      (simp, blast)
  define T' where "T' = fold insert_sorted_meta new rem"
  define s3 where "s3 = s2\<lparr>level_st := (level_st s2)\<lparr>levels := X @ [R', T'] @ Y\<rparr>\<rparr>"
  have cong: "tbl s3 = tbl s2" "table_ok crc s3 = table_ok crc s2" "lv_entries s3 = lv_entries s2"
    using tbl_cong [of s3 _ s2] table_ok_cong [of s3 _ s2 crc]
    by (auto simp: s3_def fun_eq_iff intro!: lv_entries_cong)
  have old: "mset (all_metas s) = mset ((A @ over) @ (concat X @ R @ rem @ concat Y))"
    using A(1) lv by (simp add: all_metas_def over_def rem_def multiset_partition [symmetric])
  have new: "mset (all_metas s3) = mset ((concat X @ R @ rem @ concat Y) @ new)"
    using c(7) R(1) by (simp add: all_metas_def s3_def T'_def)
  have rp: "\<forall>m \<in> set (all_metas s3). table_ok crc s3 m \<and> sst_id m < next_of s3" "distinct (map sst_id (all_metas s3))"
    "\<And>m. m \<in> set (concat X @ R @ rem @ concat Y) \<Longrightarrow> tbl s3 m = tbl s m"
    using replace_tables [OF inv old new _ c(4)] c(3,5,8) cong(2) by (simp_all add: s3_def)
  have dis: "disjoint_level ((X @ [Ls, T] @ Y) ! i)" if "1 \<le> i" "i < MAX_LEVEL_COUNT" for i
    using inv lv that by (simp add: store_inv_def)
  have "disjoint_level ((X @ [R', T'] @ Y) ! i)" if i: "1 \<le> i" "i < MAX_LEVEL_COUNT" for i
    using dis [OF i] R(2) c(6) i by (cases X) (auto simp: T'_def nth_append nth_Cons split: nat.splits if_splits)
  then have inv3: "store_inv crc s3" using rp(1,2) len by (simp add: store_inv_def s3_def)
  have "set T \<subseteq> set (all_metas s)" "set T' \<subseteq> set (all_metas s3)"
    using lv by (auto simp: all_metas_def s3_def)
  then have spans: "\<forall>m \<in> set T. meta_spans m (tbl s m)" and spans': "\<forall>m \<in> set T'. meta_spans m (tbl s3 m)"
    using inv rp(1) unfolding store_inv_def table_ok_def by blast+
  have sT': "set T' = set rem \<union> set new" using mset_eq_setD [of T' "rem @ new"] c(7) by (simp add: T'_def)
  have dT: "disjoint_level T" using dis [of "length X + 1"] len(1) by (simp add: nth_append)
  have T': "map_of (lv_entries s3 T') k = (case map_of merged k of
        Some v \<Rightarrow> if bottom \<and> v = None then None else Some v | None \<Rightarrow> map_of (lv_entries s T) k)" for k
    using spans spans' dT c(6) sT' rp(3) c(9,10,11) cong
    by (intro replaced_level [where over = over and rem = rem and new = new])
      (auto simp: over_def rem_def T'_def nth_append map_add_def split: option.splits)
  have "map_of (lv_entries s over) k = Some v \<Longrightarrow> map_of (lv_entries s T) k = Some v" for k v
    using map_of_level [of T s k v] map_of_level [of over s k v] disjoint_level_filter [of T] spans dT by (auto simp: over_def)
  then have mg: "map_of merged k = map_of (lv_entries s A @ lv_entries s T) k \<or>
      map_of merged k = None \<and> map_of (lv_entries s A) k = None" for k
    using c(9) [of k] by (cases "map_of (lv_entries s over) k") (auto simp: map_add_def split: option.splits)
  have "mset P = mset (concat X)" using arg_cong [OF ord(1), of mset] A(1) by simp
  then have keep: "tbl s3 m = tbl s m" if "m \<in> set (P @ R @ concat Y)" for m
    using rp(3) that mset_eq_setD [of P "concat X"] by auto
  have "live (map_of (lv_entries s3 (P @ R @ T' @ concat Y)) k) = live (map_of (lv_entries s (P @ A @ R @ T @ concat Y)) k)" for k
    by (rule merge_view [OF keep sep bot mg T'])
  then have view: "store_view s3 = store_view s"
    using ord lv by (auto simp: store_view_def store_entries_def s3_def fun_eq_iff)
  have "levels (level_st s2) = levels (level_st s)" by (simp add: c(3))
  then show thesis by (rule that [OF c(1,2) _ s3_def [unfolded T'_def] inv3 view])
qed


section \<open>Compaction steps\<close>

lemma fold_min_key:
  "fold (\<lambda>m k. if first_key m < k then first_key m else k) ms k0 \<le> k0"
  "m \<in> set ms \<Longrightarrow> fold (\<lambda>m k. if first_key m < k then first_key m else k) ms k0 \<le> first_key m"
proof (induction ms arbitrary: k0)
  case (Cons a ms)
  {
    case 1
    show ?case using Cons.IH(1) [of "if first_key a < k0 then first_key a else k0"] by (auto split: if_splits)
  next
    case 2
    then show ?case
      using Cons.IH(2) Cons.IH(1) [of "if first_key a < k0 then first_key a else k0"] by (auto split: if_splits)
  }
qed simp_all

lemma fold_max_key:
  "k0 \<le> fold (\<lambda>m k. if last_key m > k then last_key m else k) ms k0"
  "m \<in> set ms \<Longrightarrow> last_key m \<le> fold (\<lambda>m k. if last_key m > k then last_key m else k) ms k0"
proof (induction ms arbitrary: k0)
  case (Cons a ms)
  {
    case 1
    show ?case using Cons.IH(1) [of "if last_key a > k0 then last_key a else k0"] by (auto split: if_splits)
  next
    case 2
    then show ?case
      using Cons.IH(2) Cons.IH(1) [of "if last_key a > k0 then last_key a else k0"] by (auto split: if_splits)
  }
qed simp_all

text \<open>What every compaction step promises.\<close>

definition compacts :: "(bytes \<Rightarrow> 32 word) \<Rightarrow> lsm_store \<Rightarrow> lsm_store result \<Rightarrow> bool" where
  "compacts crc s r \<longleftrightarrow> (\<exists>s'. r = Inr s' \<and> store_inv crc s' \<and> store_view s' = store_view s)"

lemma compacts_refl: "store_inv crc s \<Longrightarrow> compacts crc s (Inr s)"
  by (simp add: compacts_def)

lemma compacts_bind:
  assumes "compacts crc s r" "\<And>s'. store_inv crc s' \<Longrightarrow> compacts crc s' (f s')"
  shows "compacts crc s (and_then r f)"
  using assms by (fastforce simp: compacts_def)

lemma bottom_level_empty:
  assumes "levels ls = X @ [Ls, T] @ Y" "length (levels ls) = MAX_LEVEL_COUNT" "is_bottom_level (length X + 1) ls"
  shows "concat Y = []"
proof -
  have "Y ! i = []" if "i < length Y" for i
  proof -
    have "levels ls ! (length X + 2 + i) = []" using assms that by (simp add: is_bottom_level_def list_all_iff)
    then show ?thesis using assms(1) by (simp add: nth_append)
  qed
  then show ?thesis by (auto simp: in_set_conv_nth)
qed

lemma compact_l0_ok:
  assumes inv: "store_inv crc s"
  shows "compacts crc s (compact_l0 crc s)"
proof (cases "levels (level_st s) ! 0 = []")
  case True
  then show ?thesis using inv by (simp add: compact_l0_def Let_def compacts_refl)
next
  case False
  have len: "length (levels (level_st s)) = MAX_LEVEL_COUNT" using inv by (simp add: store_inv_def)
  then have "\<exists>l0 l1 Y. levels (level_st s) = [] @ [l0, l1] @ Y"
    by (auto simp: MAX_LEVEL_COUNT_def numeral_eq_Suc length_Suc_conv)
  then obtain l0 l1 Y where lv: "levels (level_st s) = [] @ [l0, l1] @ Y" by blast
  then have lvs: "levels (level_st s) ! 0 = l0" "levels (level_st s) ! 1 = l1" by simp_all
  define lo where "lo = fold (\<lambda>m k. if first_key m < k then first_key m else k) l0 (first_key (hd l0))"
  define hi where "hi = fold (\<lambda>m k. if last_key m > k then last_key m else k) l0 (last_key (hd l0))"
  have A: "\<forall>m \<in> set (rev l0). lo \<le> first_key m \<and> last_key m \<le> hi"
    using fold_min_key(2) fold_max_key(2) by (auto simp: lo_def hi_def)
  have bot: "is_bottom_level 1 (level_st s) \<Longrightarrow> concat Y = []"
    using bottom_level_empty [OF lv len] by simp
  have ok: "\<forall>m \<in> set (rev l0). table_ok crc s m" "\<forall>m \<in> set (filter (overlaps lo hi) l1). table_ok crc s m"
    using inv lv by (auto simp: store_inv_def all_metas_def)
  obtain new s1 s2 s3 where m: "write_split_sstables crc (collect_all (map (tbl s) (rev l0) @ map (tbl s) (filter (overlaps lo hi) l1)))
        (is_bottom_level 1 (level_st s)) s = Inr (new, s1)"
    "install_tables crc (map sst_id (rev l0 @ filter (overlaps lo hi) l1)) new (length ([] :: sst_meta list list) + 1) s1 = Inr s2"
    "levels (level_st s2) = levels (level_st s)"
    "s3 = s2\<lparr>level_st := (level_st s2)\<lparr>levels := [] @ [[], fold insert_sorted_meta new (filter (\<lambda>m. \<not> overlaps lo hi m) l1)] @ Y\<rparr>\<rparr>"
    "store_inv crc s3" "store_view s3 = store_view s"
    by (rule merge_step [OF inv lv _ A, of "[]" "[]" "[]" "is_bottom_level 1 (level_st s)"])
      (use bot in \<open>simp_all add: probe_order_def\<close>)
  have "compact_l0 crc s = Inr s3"
    using False m(1-4) lv
    unfolding compact_l0_def Let_def lvs lo_def [symmetric] hi_def [symmetric]
      collect_sources_ok [OF ok(1)] collect_sources_ok [OF ok(2)]
    by simp
  then show ?thesis using m(5,6) by (simp add: compacts_def)
qed

lemma update_next_level: "(X @ a # b # Y)[Suc (length X) := d] = X @ a # d # Y"
  by (simp add: list_update_append)

lemma compact_level_ok:
  assumes inv: "store_inv crc s" and l: "1 \<le> l" "l < MAX_LEVEL_COUNT - 1"
  shows "compacts crc s (compact_level crc l s)"
proof (cases "levels (level_st s) ! l")
  case Nil
  then show ?thesis using inv l by (simp add: compact_level_def Let_def compacts_refl)
next
  case (Cons p R)
  have len: "length (levels (level_st s)) = MAX_LEVEL_COUNT" using inv by (simp add: store_inv_def)
  define X where "X = take l (levels (level_st s))"
  define T where "T = levels (level_st s) ! (l + 1)"
  define Y where "Y = drop (l + 2) (levels (level_st s))"
  have lv: "levels (level_st s) = X @ [p # R, T] @ Y"
    using len l Cons id_take_nth_drop [of l "levels (level_st s)"] Cons_nth_drop_Suc [of "l + 1" "levels (level_st s)"]
    by (simp add: X_def T_def Y_def)
  have lX: "length X = l" "X \<noteq> []" using len l by (auto simp: X_def)
  let ?o = "filter (overlaps (first_key p) (last_key p)) T"
  let ?b = "is_bottom_level (l + 1) (level_st s)"
  have ok: "\<forall>m \<in> set [p]. table_ok crc s m" "\<forall>m \<in> set ?o. table_ok crc s m" "\<forall>m \<in> set (p # R). meta_spans m (tbl s m)"
    using inv lv by (auto simp: store_inv_def all_metas_def table_ok_def)
  have d: "disjoint_level (p # R)" using inv l Cons by (auto simp: store_inv_def dest!: spec [of _ l])
  have sep: "map_of (lv_entries s R) k = None" if "map_of (lv_entries s [p]) k \<noteq> None" for k
  proof -
    have "keys_sorted (tbl s p @ lv_entries s R)" using keys_sorted_lv_entries [OF ok(3) d] by simp
    then show ?thesis using that
      by (force simp: sorted_wrt_append map_of_eq_None_iff dest: map_of_SomeD)
  qed
  have ids: "filter (\<lambda>m. sst_id m \<noteq> sst_id p) (p # R) = R"
  proof -
    have "sst_id p \<notin> sst_id ` set R" using inv lv by (simp add: store_inv_def all_metas_def)
    then have "\<forall>m \<in> set R. sst_id m \<noteq> sst_id p" by (metis imageI)
    then show ?thesis by simp
  qed
  obtain x X' where X: "X = x # X'" using lX(2) by (cases X) auto
  have A: "\<forall>m \<in> set [p]. first_key p \<le> first_key m \<and> last_key m \<le> last_key p" by simp
  have bot: "?b \<Longrightarrow> concat Y = []" using bottom_level_empty [OF lv len] lX(1) by simp
  obtain new s1 s2 s3 where m: "write_split_sstables crc (collect_all (map (tbl s) [p] @ map (tbl s) ?o)) ?b s = Inr (new, s1)"
    "install_tables crc (map sst_id ([p] @ ?o)) new (length X + 1) s1 = Inr s2"
    "levels (level_st s2) = levels (level_st s)"
    "s3 = s2\<lparr>level_st := (level_st s2)\<lparr>levels := X @ [R, fold insert_sorted_meta new (filter (\<lambda>m. \<not> overlaps (first_key p) (last_key p) m) T)] @ Y\<rparr>\<rparr>"
    "store_inv crc s3" "store_view s3 = store_view s"
    by (rule merge_step [OF inv lv _ A _ _ sep, of R "probe_order X" ?b])
      (use bot d X in \<open>simp_all add: probe_order_def disjoint_level_def\<close>)
  have "compact_level crc l s = Inr s3"
    using l m(1-4) ids
    unfolding compact_level_def Let_def T_def [symmetric] Cons list.sel
      collect_sources_ok [OF ok(1)] collect_sources_ok [OF ok(2)]
    by (simp add: lv nth_append update_next_level flip: lX(1))
  then show ?thesis using m(5,6) by (simp add: compacts_def)
qed

lemma compact_levels_ok:
  assumes "store_inv crc s" "\<forall>l \<in> set ls. 1 \<le> l \<and> l < MAX_LEVEL_COUNT - 1"
  shows "compacts crc s (compact_levels crc limit ls s)"
  using assms
proof (induction ls arbitrary: s)
  case (Cons l ls)
  have l: "1 \<le> l" "l < MAX_LEVEL_COUNT - 1" using Cons.prems(2) by simp_all
  then have "\<exists>sz. level_size (level_st s) l = Inr sz" "\<exists>lim. level_size_limit l limit = Inr lim"
    by (simp_all add: level_size_def level_size_limit_def)
  then obtain sz lim where sz: "level_size (level_st s) l = Inr sz" "level_size_limit l limit = Inr lim" by blast
  have "compacts crc s (if sz > lim then compact_level crc l s else Inr s)"
    using compact_level_ok [OF Cons.prems(1) l] compacts_refl [OF Cons.prems(1)] by simp
  moreover have "compacts crc s' (compact_levels crc limit ls s')" if "store_inv crc s'" for s'
    using Cons.IH [OF that] Cons.prems(2) by simp
  ultimately have "compacts crc s (and_then (if sz > lim then compact_level crc l s else Inr s) (compact_levels crc limit ls))"
    by (rule compacts_bind)
  then show ?case using sz by simp
qed (simp add: compacts_refl)

lemma maybe_compact_ok:
  assumes "store_inv crc s"
  shows "compacts crc s (maybe_compact crc limit s)"
proof -
  have "compacts crc s (if length (levels (level_st s) ! 0) \<ge> MAX_L0_SSTABLE_COUNT then compact_l0 crc s else Inr s)"
    using compact_l0_ok [OF assms] compacts_refl [OF assms] by simp
  moreover have "compacts crc s' (compact_levels crc limit [1..<MAX_LEVEL_COUNT - 1] s')" if "store_inv crc s'" for s'
    using that by (intro compact_levels_ok) simp_all
  ultimately show ?thesis unfolding maybe_compact_def by (rule compacts_bind)
qed

end
