(* ===== verification/Lsm_Tree.thy ===== *)
theory Lsm_Tree
  imports Storage_Engine Compaction_Correct
begin

text \<open>
  The LSM-tree of \<^verbatim>\<open>idb-storage/src/engines/lsm/mod.rs\<close>: the active memtable, the frozen memtables
  being flushed and the store of tables on disk.  A flush runs in the three phases of the code, so
  that reads between the phases can be stated.  Proved: every operation implements a map from keys to
  values, for entries that fit a data block; reads see the same map in every phase of a flush.
\<close>

section \<open>Model\<close>

text \<open>
  A frozen memtable is identified by the table id reserved for it, which stands for the identity of
  the shared pointer compared when it is retired.
\<close>

record lsm_tree =
  memt :: memtable
  immutable_memtables :: "(nat \<times> entry list) list"
  lsm_st :: lsm_store
  memtable_size_limit :: nat

fun open_existing :: "(bytes \<Rightarrow> 32 word) \<Rightarrow> (nat \<rightharpoonup> bytes) \<Rightarrow> sst_meta list \<Rightarrow> (nat \<rightharpoonup> sst_reader) \<Rightarrow>
    (nat \<rightharpoonup> sst_reader) result" where
  "open_existing crc fs [] rs = Inr rs"
| "open_existing crc fs (m # ms) rs =
    (case fs (sst_id m) of
       None \<Rightarrow> open_existing crc fs ms rs
     | Some data \<Rightarrow> and_then (reader_open crc (sst_id m) data) (\<lambda>r.
         open_existing crc fs ms (rs(sst_id m \<mapsto> r))))"

definition lsm_open :: "(bytes \<Rightarrow> 32 word) \<Rightarrow> nat \<Rightarrow> string list \<Rightarrow> (nat \<rightharpoonup> bytes) \<Rightarrow> lsm_tree result" where
  "lsm_open crc limit lines fs =
    and_then (manifest_open lines) (\<lambda>ls.
    and_then (open_existing crc fs (concat (levels ls)) Map.empty) (\<lambda>rs.
      Inr \<lparr>memt = memtable_new, immutable_memtables = [],
        lsm_st = \<lparr>level_st = ls, manifest = lines, readers = rs, files = fs\<rparr>,
        memtable_size_limit = limit\<rparr>))"

text \<open>Phase 1 of a flush: the active memtable becomes an immutable one and a table id is reserved.\<close>

definition flush_swap :: "bool \<Rightarrow> lsm_tree \<Rightarrow> (entry list \<times> nat) option \<times> lsm_tree" where
  "flush_swap force t =
    (if memtable_is_empty (memt t) then (None, t)
     else if \<not> force \<and> mt_size_bytes (memt t) < memtable_size_limit t then (None, t)
     else case next_id (level_st (lsm_st t)) of (sid, ls) \<Rightarrow>
       let frozen = mt_entries (memt t) in
       (Some (frozen, sid), t\<lparr>memt := memtable_new,
         immutable_memtables := immutable_memtables t @ [(sid, frozen)],
         lsm_st := (lsm_st t)\<lparr>level_st := ls\<rparr>\<rparr>))"

text \<open>Phase 2: the table is written, logged in the manifest and opened.\<close>

definition flush_write :: "(bytes \<Rightarrow> 32 word) \<Rightarrow> entry list \<Rightarrow> nat \<Rightarrow> lsm_tree \<Rightarrow>
    ((sst_meta \<times> sst_reader) option \<times> lsm_tree) result" where
  "flush_write crc frozen sid t =
    and_then (write_sstable crc sid frozen) (\<lambda>w.
      case w of
        None \<Rightarrow> Inr (None, t)
      | Some (m, data) \<Rightarrow> and_then (reader_open crc (sst_id m) data) (\<lambda>r.
          Inr (Some (m, r), t\<lparr>lsm_st := (lsm_st t)\<lparr>files := (files (lsm_st t))(sid \<mapsto> data),
            manifest := log_add 0 m (manifest (lsm_st t))\<rparr>\<rparr>)))"

text \<open>Phase 3: the table is published in the first level, compaction runs and the memtable is retired.\<close>

definition flush_publish :: "(bytes \<Rightarrow> 32 word) \<Rightarrow> (sst_meta \<times> sst_reader) option \<Rightarrow> nat \<Rightarrow> lsm_tree \<Rightarrow> lsm_tree result" where
  "flush_publish crc mr sid t =
    and_then (case mr of
        None \<Rightarrow> Inr t
      | Some (m, r) \<Rightarrow>
          let s = lsm_st t; ls = level_st s;
              s = s\<lparr>readers := (readers s)(sst_id m \<mapsto> r),
                    level_st := ls\<lparr>levels := (levels ls)[0 := levels ls ! 0 @ [m]]\<rparr>\<rparr> in
          and_then (maybe_compact crc (memtable_size_limit t) s) (\<lambda>s. Inr (t\<lparr>lsm_st := s\<rparr>)))
      (\<lambda>t. Inr (t\<lparr>immutable_memtables := filter (\<lambda>(i, _). i \<noteq> sid) (immutable_memtables t)\<rparr>))"

definition lsm_flush :: "(bytes \<Rightarrow> 32 word) \<Rightarrow> bool \<Rightarrow> lsm_tree \<Rightarrow> lsm_tree result" where
  "lsm_flush crc force t =
    (case flush_swap force t of
       (None, t) \<Rightarrow> Inr t
     | (Some (frozen, sid), t) \<Rightarrow>
         and_then (flush_write crc frozen sid t) (\<lambda>(mr, t). flush_publish crc mr sid t))"

definition flush_memtable :: "(bytes \<Rightarrow> 32 word) \<Rightarrow> lsm_tree \<Rightarrow> lsm_tree result" where
  "flush_memtable crc t = lsm_flush crc True t"

definition lsm_put :: "(bytes \<Rightarrow> 32 word) \<Rightarrow> bytes \<Rightarrow> bytes \<Rightarrow> lsm_tree \<Rightarrow> lsm_tree result" where
  "lsm_put crc key val t =
    (let t = t\<lparr>memt := memtable_put key val (memt t)\<rparr> in
     if mt_size_bytes (memt t) \<ge> memtable_size_limit t then lsm_flush crc False t else Inr t)"

definition lsm_delete :: "(bytes \<Rightarrow> 32 word) \<Rightarrow> bytes \<Rightarrow> lsm_tree \<Rightarrow> lsm_tree result" where
  "lsm_delete crc key t =
    (let t = t\<lparr>memt := memtable_delete key (memt t)\<rparr> in
     if mt_size_bytes (memt t) \<ge> memtable_size_limit t then lsm_flush crc False t else Inr t)"

fun find_frozen :: "(nat \<times> entry list) list \<Rightarrow> bytes \<Rightarrow> bytes option option" where
  "find_frozen [] key = None"
| "find_frozen ((_, imm) # imms) key =
    (case map_of imm key of Some e \<Rightarrow> Some e | None \<Rightarrow> find_frozen imms key)"

definition probe_table :: "(bytes \<Rightarrow> 32 word) \<Rightarrow> (nat \<rightharpoonup> sst_reader) \<Rightarrow> bytes \<Rightarrow> sst_meta \<Rightarrow> bytes option option result" where
  "probe_table crc rs key m =
    (case rs (sst_id m) of
       None \<Rightarrow> Inr None
     | Some r \<Rightarrow> if \<not> reader_may_contain crc r key then Inr None else reader_get crc r key)"

fun probe_l0 :: "(bytes \<Rightarrow> 32 word) \<Rightarrow> (nat \<rightharpoonup> sst_reader) \<Rightarrow> bytes \<Rightarrow> sst_meta list \<Rightarrow> bytes option option result" where
  "probe_l0 crc rs key [] = Inr None"
| "probe_l0 crc rs key (m # ms) =
    and_then (probe_table crc rs key m) (\<lambda>e.
      case e of Some e \<Rightarrow> Inr (Some e) | None \<Rightarrow> probe_l0 crc rs key ms)"

fun probe_levels :: "(bytes \<Rightarrow> 32 word) \<Rightarrow> (nat \<rightharpoonup> sst_reader) \<Rightarrow> bytes \<Rightarrow> sst_meta list list \<Rightarrow> bytes option option result" where
  "probe_levels crc rs key [] = Inr None"
| "probe_levels crc rs key (level # rest) =
    (let idx = partition_point (\<lambda>m. last_key m < key) level in
     if level = [] \<or> idx \<ge> length level \<or> key < first_key (level ! idx) then probe_levels crc rs key rest
     else and_then (probe_table crc rs key (level ! idx)) (\<lambda>e.
       case e of Some e \<Rightarrow> Inr (Some e) | None \<Rightarrow> probe_levels crc rs key rest))"

definition lsm_get :: "(bytes \<Rightarrow> 32 word) \<Rightarrow> lsm_tree \<Rightarrow> bytes \<Rightarrow> bytes option result" where
  "lsm_get crc t key =
    (case memtable_get key (memt t) of
       Some e \<Rightarrow> Inr e
     | None \<Rightarrow> (case find_frozen (rev (immutable_memtables t)) key of
         Some e \<Rightarrow> Inr e
       | None \<Rightarrow>
           let ls = levels (level_st (lsm_st t)); rs = readers (lsm_st t) in
           and_then (probe_l0 crc rs key (rev (ls ! 0))) (\<lambda>e.
             case e of Some e \<Rightarrow> Inr e
             | None \<Rightarrow> and_then (probe_levels crc rs key (drop 1 ls)) (\<lambda>e.
                 case e of Some e \<Rightarrow> Inr e | None \<Rightarrow> Inr None))))"

definition span_overlaps_range :: "bytes \<Rightarrow> bytes \<Rightarrow> bound \<Rightarrow> bound \<Rightarrow> bool" where
  "span_overlaps_range fk lk lo hi \<longleftrightarrow>
    (case lo of Included s \<Rightarrow> lk \<ge> s | Excluded s \<Rightarrow> lk > s | Unbounded \<Rightarrow> True) \<and>
    (case hi of Included e \<Rightarrow> fk \<le> e | Excluded e \<Rightarrow> fk < e | Unbounded \<Rightarrow> True)"

fun range_sources :: "(nat \<rightharpoonup> sst_reader) \<Rightarrow> bound \<Rightarrow> bound \<Rightarrow> sst_meta list \<Rightarrow> entry list list result" where
  "range_sources rs lo hi [] = Inr []"
| "range_sources rs lo hi (m # ms) =
    (if \<not> span_overlaps_range (first_key m) (last_key m) lo hi then range_sources rs lo hi ms
     else case rs (sst_id m) of
       None \<Rightarrow> range_sources rs lo hi ms
     | Some r \<Rightarrow> and_then (reader_iter r) (\<lambda>es.
         and_then (range_sources rs lo hi ms) (\<lambda>srcs.
           Inr (filter (\<lambda>(k, _). range_contains lo hi k) es # srcs))))"

fun frozen_sources :: "bound \<Rightarrow> bound \<Rightarrow> (nat \<times> entry list) list \<Rightarrow> entry list list result" where
  "frozen_sources lo hi [] = Inr []"
| "frozen_sources lo hi ((_, imm) # imms) =
    and_then (bt_range lo hi imm) (\<lambda>es. and_then (frozen_sources lo hi imms) (\<lambda>srcs. Inr (es # srcs)))"

definition lsm_scan :: "lsm_tree \<Rightarrow> bound \<Rightarrow> bound \<Rightarrow> (bytes \<times> bytes) list result" where
  "lsm_scan t lo hi =
    and_then (memtable_range lo hi (memt t)) (\<lambda>es.
    and_then (frozen_sources lo hi (rev (immutable_memtables t))) (\<lambda>frozen.
    let ls = levels (level_st (lsm_st t)); rs = readers (lsm_st t) in
    and_then (range_sources rs lo hi (rev (ls ! 0))) (\<lambda>l0.
    and_then (range_sources rs lo hi (concat (drop 1 ls))) (\<lambda>deeper.
      let merged = collect_all (es # frozen @ l0 @ deeper) in
      Inr (List.map_filter (\<lambda>(k, v). map_option (Pair k) v) merged)))))"

section \<open>Invariant and abstraction\<close>

definition frozen_entries :: "lsm_tree \<Rightarrow> entry list" where
  "frozen_entries t = concat (map snd (rev (immutable_memtables t)))"

definition lsm_view :: "lsm_tree \<Rightarrow> bytes \<Rightarrow> bytes option" where
  "lsm_view t k = live (map_of (mt_entries (memt t) @ frozen_entries t @ store_entries (lsm_st t)) k)"

text \<open>
  The invariant of a tree between operations, and the weaker one that also holds during a flush.  The
  bound on the memtable limit keeps the offsets of a flushed table within 32 bits.
\<close>

definition tree_inv :: "(bytes \<Rightarrow> 32 word) \<Rightarrow> lsm_tree \<Rightarrow> bool" where
  "tree_inv crc t \<longleftrightarrow> memtable_inv (memt t) \<and> (\<forall>e \<in> set (mt_entries (memt t)). entry_fits e) \<and>
    list_all (\<lambda>(i, es). keys_sorted es) (immutable_memtables t) \<and> store_inv crc (lsm_st t)"

definition lsm_inv :: "(bytes \<Rightarrow> 32 word) \<Rightarrow> lsm_tree \<Rightarrow> bool" where
  "lsm_inv crc t \<longleftrightarrow> tree_inv crc t \<and> immutable_memtables t = [] \<and>
    mt_size_bytes (memt t) \<le> memtable_size_limit t \<and> memtable_size_limit t \<le> 2 ^ 27"

section \<open>Reads\<close>

lemma find_frozen_correct: "find_frozen imms k = map_of (concat (map snd imms)) k"
  by (induction imms k rule: find_frozen.induct) (auto simp: map_add_def split: option.splits)

lemma probe_table_ok:
  assumes "table_ok crc s m"
  shows "probe_table crc (readers s) key m = Inr (map_of (tbl s m) key)"
  using assms by (auto simp: probe_table_def table_ok_def good_reader_def reader_holds_def)

lemma probe_l0_ok:
  assumes "\<forall>m \<in> set ms. table_ok crc s m"
  shows "probe_l0 crc (readers s) key ms = Inr (map_of (lv_entries s ms) key)"
  using assms by (induction ms) (auto simp: probe_table_ok map_add_def split: option.splits)

text \<open>In a sorted disjoint level the binary search finds the only table that can hold the key.\<close>

lemma level_lookup:
  fixes key :: bytes
  assumes ok: "\<forall>m \<in> set level. meta_spans m (tbl s m)" and d: "disjoint_level level"
  defines "idx \<equiv> partition_point (\<lambda>m. last_key m < key) level"
  shows "map_of (lv_entries s level) key =
    (if idx \<ge> length level \<or> key < first_key (level ! idx) then None else map_of (tbl s (level ! idx)) key)"
proof -
  have only: "map_of (tbl s m) key = None" if m: "m \<in> set level" "idx < length level \<Longrightarrow> m \<noteq> level ! idx" for m
  proof (rule ccontr)
    assume "map_of (tbl s m) key \<noteq> None"
    then have b: "first_key m \<le> key" "key \<le> last_key m" using meta_spans_map_of ok m(1) by fastforce+
    from m(1) obtain j where j: "j < length level" "m = level ! j" by (auto simp: in_set_conv_nth)
    have "\<not> j < idx"
    proof
      assume "j < idx"
      then have "level ! j \<in> set (takeWhile (\<lambda>m. last_key m < key) level)"
        unfolding idx_def partition_point_def by (metis nth_mem takeWhile_nth)
      then show False using b(2) j(2) by (auto dest!: set_takeWhileD)
    qed
    then have "idx < j" "idx < length level" using m(2) j by (metis linorder_neqE_nat, simp)
    then have "last_key (level ! idx) < first_key m"
      using d j by (auto simp: disjoint_level_def sorted_wrt_iff_nth_less)
    moreover have "\<not> last_key (level ! idx) < key"
      using \<open>idx < length level\<close> nth_length_takeWhile unfolding idx_def partition_point_def by blast
    ultimately show False using b(1) by order
  qed
  have "map_of (lv_entries s level) key = None" if "idx \<ge> length level \<or> key < first_key (level ! idx)"
  proof -
    have "map_of (tbl s m) key = None" if m: "m \<in> set level" for m
    proof (cases "idx < length level \<and> m = level ! idx")
      case True
      then have "key < first_key m" using \<open>idx \<ge> length level \<or> key < first_key (level ! idx)\<close> by auto
      then show ?thesis using meta_spans_map_of [of m "tbl s m" key] ok m by (cases "map_of (tbl s m) key") auto
    qed (use only m in blast)
    then show ?thesis using map_of_level_None [OF ok d] by blast
  qed
  moreover have "map_of (lv_entries s level) key = map_of (tbl s (level ! idx)) key" if i: "idx < length level"
  proof (rule option_eqI)
    fix v
    show "map_of (lv_entries s level) key = Some v \<longleftrightarrow> map_of (tbl s (level ! idx)) key = Some v"
      unfolding map_of_level [OF ok d] using only i by (metis nth_mem option.distinct(1))
  qed
  ultimately show ?thesis by auto
qed

lemma probe_levels_ok:
  assumes "\<forall>m \<in> set (concat lvs). table_ok crc s m" "\<forall>level \<in> set lvs. disjoint_level level"
  shows "probe_levels crc (readers s) key lvs = Inr (map_of (lv_entries s (concat lvs)) key)"
  using assms
proof (induction lvs)
  case (Cons level lvs)
  define idx where "idx = partition_point (\<lambda>m. last_key m < key) level"
  have spans: "\<forall>m \<in> set level. meta_spans m (tbl s m)" using Cons.prems(1) by (simp add: table_ok_def)
  have d: "disjoint_level level" using Cons.prems(2) by simp
  note lk = level_lookup [OF spans d, of key, folded idx_def]
  have IH: "probe_levels crc (readers s) key lvs = Inr (map_of (lv_entries s (concat lvs)) key)" using Cons by simp
  show ?case
  proof (cases "idx \<ge> length level \<or> key < first_key (level ! idx)")
    case True
    then show ?thesis using lk IH by (simp add: Let_def idx_def [symmetric] map_add_def)
  next
    case False
    then have "probe_table crc (readers s) key (level ! idx) = Inr (map_of (lv_entries s level) key)"
      using lk Cons.prems(1) by (simp add: probe_table_ok)
    then show ?thesis using False IH
      by (auto simp: Let_def idx_def [symmetric] map_add_def split: option.splits)
  qed
qed simp

lemma store_levels:
  assumes "store_inv crc s"
  shows "store_entries s = lv_entries s (rev (levels (level_st s) ! 0)) @ lv_entries s (concat (drop 1 (levels (level_st s))))"
    "\<forall>m \<in> set (rev (levels (level_st s) ! 0)). table_ok crc s m"
    "\<forall>m \<in> set (concat (drop 1 (levels (level_st s)))). table_ok crc s m"
    "\<forall>level \<in> set (drop 1 (levels (level_st s))). disjoint_level level"
proof -
  have len: "length (levels (level_st s)) = MAX_LEVEL_COUNT" using assms by (simp add: store_inv_def)
  then obtain l0 rest where l: "levels (level_st s) = l0 # rest"
    by (cases "levels (level_st s)") (auto simp: MAX_LEVEL_COUNT_def)
  show "store_entries s = lv_entries s (rev (levels (level_st s) ! 0)) @ lv_entries s (concat (drop 1 (levels (level_st s))))"
    using l by (simp add: store_entries_def probe_order_def)
  show "\<forall>m \<in> set (rev (levels (level_st s) ! 0)). table_ok crc s m"
    "\<forall>m \<in> set (concat (drop 1 (levels (level_st s)))). table_ok crc s m"
    using assms l by (auto simp: store_inv_def all_metas_def)
  have "disjoint_level (rest ! i)" if "i < length rest" for i
    using assms l len that by (auto simp: store_inv_def dest!: spec [of _ "Suc i"])
  then show "\<forall>level \<in> set (drop 1 (levels (level_st s))). disjoint_level level"
    using l by (auto simp: in_set_conv_nth)
qed

lemma lsm_get_ok:
  assumes "tree_inv crc t"
  shows "lsm_get crc t key = Inr (lsm_view t key)"
proof -
  have inv: "store_inv crc (lsm_st t)" using assms by (simp add: tree_inv_def)
  note sl = store_levels [OF inv]
  note p = probe_l0_ok [OF sl(2), of key] probe_levels_ok [OF sl(3,4), of key]
  show ?thesis
    unfolding lsm_get_def Let_def p memtable_get_def find_frozen_correct lsm_view_def sl(1) frozen_entries_def
    by (auto simp: map_add_def split: option.splits)
qed

section \<open>Range scans\<close>

abbreviation live_entries :: "entry list \<Rightarrow> (bytes \<times> bytes) list" where
  "live_entries es \<equiv> List.map_filter (\<lambda>(k, v). map_option (Pair k) v) es"

lemma live_entries_correct:
  assumes "keys_sorted es"
  shows "keys_sorted (live_entries es) \<and> fst ` set (live_entries es) \<subseteq> fst ` set es \<and>
    map_of (live_entries es) k = live (map_of es k)"
  using assms
proof (induction es)
  case (Cons e es)
  obtain k' v where e: "e = (k', v)" by (cases e)
  have IH: "keys_sorted (live_entries es)" "fst ` set (live_entries es) \<subseteq> fst ` set es"
    "map_of (live_entries es) k = live (map_of es k)" using Cons by auto
  moreover have "map_of es k' = None" using Cons.prems e by (auto simp: map_of_eq_None_iff)
  moreover have "\<forall>x \<in> fst ` set es. k' < x" using Cons.prems e by auto
  then have "\<forall>x \<in> fst ` set (live_entries es). k' < x" using IH(2) by blast
  ultimately show ?case using e by (cases v) (auto simp: List.map_filter_simps)
qed (simp add: List.map_filter_simps)

definition restricted :: "bound \<Rightarrow> bound \<Rightarrow> entry list \<Rightarrow> bytes \<Rightarrow> bytes option option" where
  "restricted lo hi es k = (if range_contains lo hi k then map_of es k else None)"

lemma span_prunes:
  assumes "meta_spans m es" "\<not> span_overlaps_range (first_key m) (last_key m) lo hi"
  shows "restricted lo hi es k = None"
proof (cases "map_of es k")
  case (Some v)
  then have "first_key m \<le> k" "k \<le> last_key m" using meta_spans_map_of [OF assms(1)] by auto
  then have "\<not> range_contains lo hi k"
    using assms(2)
    by (auto simp: span_overlaps_range_def range_contains_def above_def below_def split: bound.splits)
  then show ?thesis by (simp add: restricted_def)
qed (simp add: restricted_def)

lemma range_sources_ok:
  assumes "\<forall>m \<in> set ms. table_ok crc s m"
  shows "\<exists>srcs. range_sources (readers s) lo hi ms = Inr srcs \<and> sources_sorted srcs \<and>
    map_of (concat srcs) = restricted lo hi (lv_entries s ms)"
  using assms
proof (induction ms)
  case (Cons m ms)
  then obtain srcs where IH: "range_sources (readers s) lo hi ms = Inr srcs" "sources_sorted srcs"
    "map_of (concat srcs) = restricted lo hi (lv_entries s ms)" by auto
  obtain r where r: "readers s (sst_id m) = Some r" "reader_iter r = Inr (tbl s m)" and sp: "meta_spans m (tbl s m)"
    using Cons.prems by (auto simp: table_ok_def good_reader_def reader_holds_def)
  show ?case
  proof (cases "span_overlaps_range (first_key m) (last_key m) lo hi")
    case True
    have "keys_sorted (tbl s m)" using sp by (simp add: meta_spans_def)
    then show ?thesis using True r IH
      by (auto simp: fun_eq_iff restricted_def map_add_def map_of_filter_keys split: option.splits)
  next
    case False
    then have "restricted lo hi (lv_entries s (m # ms)) k = restricted lo hi (lv_entries s ms) k" for k
      using span_prunes [OF sp False, of k] by (auto simp: restricted_def map_add_def split: option.splits if_splits)
    then have "restricted lo hi (lv_entries s (m # ms)) = restricted lo hi (lv_entries s ms)" ..
    then show ?thesis using False IH by simp
  qed
qed (simp add: restricted_def fun_eq_iff)

lemma frozen_sources_ok:
  assumes "range_ok lo hi" "list_all (\<lambda>(i, es). keys_sorted es) imms"
  shows "\<exists>srcs. frozen_sources lo hi imms = Inr srcs \<and> sources_sorted srcs \<and>
    map_of (concat srcs) = restricted lo hi (concat (map snd imms))"
  using assms(2)
proof (induction imms)
  case (Cons im imms)
  obtain i es where im: "im = (i, es)" by (cases im)
  obtain srcs where "frozen_sources lo hi imms = Inr srcs" "sources_sorted srcs"
    "map_of (concat srcs) = restricted lo hi (concat (map snd imms))" using Cons by auto
  then show ?case using Cons.prems im assms(1)
    by (auto simp: bt_range_def fun_eq_iff restricted_def map_add_def map_of_filter_keys split: option.splits)
qed (simp add: restricted_def fun_eq_iff)

lemma lsm_scan_ok:
  assumes inv: "tree_inv crc t" and ok: "range_ok lo hi"
  shows "\<exists>xs. lsm_scan t lo hi = Inr xs \<and> keys_sorted xs \<and>
    map_of xs = (\<lambda>k. if range_contains lo hi k then lsm_view t k else None)"
proof -
  let ?s = "lsm_st t"
  have st: "store_inv crc ?s" and mt: "keys_sorted (mt_entries (memt t))"
    and fz: "list_all (\<lambda>(i, es). keys_sorted es) (rev (immutable_memtables t))"
    using inv by (auto simp: tree_inv_def memtable_inv_def)
  note sl = store_levels [OF st]
  obtain l0 where l0: "range_sources (readers ?s) lo hi (rev (levels (level_st ?s) ! 0)) = Inr l0" "sources_sorted l0"
    "map_of (concat l0) = restricted lo hi (lv_entries ?s (rev (levels (level_st ?s) ! 0)))"
    using range_sources_ok [OF sl(2)] by blast
  obtain dp where dp: "range_sources (readers ?s) lo hi (concat (drop 1 (levels (level_st ?s)))) = Inr dp" "sources_sorted dp"
    "map_of (concat dp) = restricted lo hi (lv_entries ?s (concat (drop 1 (levels (level_st ?s)))))"
    using range_sources_ok [OF sl(3)] by blast
  obtain fr where fr: "frozen_sources lo hi (rev (immutable_memtables t)) = Inr fr" "sources_sorted fr"
    "map_of (concat fr) = restricted lo hi (frozen_entries t)"
    using frozen_sources_ok [OF ok fz] by (auto simp: frozen_entries_def)
  define es where "es = filter (\<lambda>(k, _). range_contains lo hi k) (mt_entries (memt t))"
  define srcs where "srcs = es # fr @ l0 @ dp"
  have "sources_sorted srcs" using l0 dp fr mt by (auto simp: srcs_def es_def)
  then have m: "keys_sorted (collect_all srcs)" "map_of (collect_all srcs) = map_of (concat srcs)"
    using collect_all_correct by blast+
  have "map_of (concat srcs) = restricted lo hi (mt_entries (memt t) @ frozen_entries t @ store_entries ?s)"
    unfolding sl(1) using l0(3) dp(3) fr(3)
    by (auto simp: srcs_def es_def fun_eq_iff restricted_def map_add_def map_of_filter_keys split: option.splits)
  then have "map_of (live_entries (collect_all srcs)) k = (if range_contains lo hi k then lsm_view t k else None)" for k
    using live_entries_correct [OF m(1), of k] m(2) by (simp add: restricted_def lsm_view_def)
  moreover have "lsm_scan t lo hi = Inr (live_entries (collect_all srcs))"
    using l0(1) dp(1) fr(1) ok by (simp add: lsm_scan_def memtable_range_def bt_range_def srcs_def es_def Let_def)
  ultimately show ?thesis using live_entries_correct [OF m(1)] by blast
qed

section \<open>Writes and flushes\<close>

lemma write_flush_swap:
  assumes inv: "tree_inv crc t" and sw: "flush_swap force t = (Some (frozen, sid), t1)"
  shows "tree_inv crc t1" "lsm_view t1 = lsm_view t" "frozen = mt_entries (memt t)" "frozen \<noteq> []"
    "immutable_memtables t1 = immutable_memtables t @ [(sid, frozen)]" "sid = next_of (lsm_st t)"
    "next_of (lsm_st t1) = sid + 1" "memt t1 = memtable_new" "memtable_size_limit t1 = memtable_size_limit t"
    "levels (level_st (lsm_st t1)) = levels (level_st (lsm_st t))"
proof -
  have t1: "t1 = t\<lparr>memt := memtable_new, immutable_memtables := immutable_memtables t @ [(sid, frozen)],
      lsm_st := (lsm_st t)\<lparr>level_st := (level_st (lsm_st t))\<lparr>next_sst_id := sid + 1\<rparr>\<rparr>\<rparr>"
    and f: "frozen = mt_entries (memt t)" "frozen \<noteq> []" "sid = next_of (lsm_st t)"
    using sw by (auto simp: flush_swap_def next_id_def Let_def memtable_is_empty_def split: if_splits)
  let ?s = "(lsm_st t)\<lparr>level_st := (level_st (lsm_st t))\<lparr>next_sst_id := sid + 1\<rparr>\<rparr>"
  have c: "tbl ?s = tbl (lsm_st t)" "table_ok crc ?s = table_ok crc (lsm_st t)"
    using tbl_cong [of ?s _ "lsm_st t"] table_ok_cong [of ?s _ "lsm_st t" crc] by (auto simp: fun_eq_iff)
  then have "store_inv crc ?s" using inv f(3) by (auto simp: store_inv_def tree_inv_def all_metas_def less_SucI)
  then show "tree_inv crc t1" using inv f(1) t1 by (simp add: tree_inv_def memtable_inv_def memtable_new_def)
  have "store_entries ?s = store_entries (lsm_st t)" using c(1) by (simp add: store_entries_def lv_entries_def)
  then show "lsm_view t1 = lsm_view t" using t1 f(1) by (simp add: lsm_view_def frozen_entries_def memtable_new_def fun_eq_iff)
qed (use sw in \<open>auto simp: flush_swap_def next_id_def Let_def memtable_is_empty_def split: if_splits\<close>)

lemma same_store:
  assumes "level_st s' = level_st s" "readers s' = readers s"
  shows "store_inv crc s' = store_inv crc s" "store_entries s' = store_entries s"
proof -
  have "tbl s' = tbl s" "table_ok crc s' = table_ok crc s"
    using tbl_cong [of s' _ s] table_ok_cong [of s' _ s crc] assms(2) by (auto simp: fun_eq_iff)
  then show "store_inv crc s' = store_inv crc s" "store_entries s' = store_entries s"
    using assms(1) by (simp_all add: store_inv_def all_metas_def store_entries_def lv_entries_def)
qed

text \<open>A table written by a flush and not yet published.\<close>

definition written :: "(bytes \<Rightarrow> 32 word) \<Rightarrow> entry list \<Rightarrow> nat \<Rightarrow> sst_meta \<Rightarrow> sst_reader \<Rightarrow> bool" where
  "written crc frozen sid m r \<longleftrightarrow> sst_id m = sid \<and> reader_holds crc r frozen \<and> meta_spans m frozen"

lemma flush_write_ok:
  assumes "table_fits frozen" "keys_sorted frozen"
  obtains m r s' where "flush_write crc frozen sid t = Inr (Some (m, r), t\<lparr>lsm_st := s'\<rparr>)"
    "level_st s' = level_st (lsm_st t)" "readers s' = readers (lsm_st t)" "written crc frozen sid m r"
proof -
  obtain m data r where w: "write_sstable crc sid frozen = Inr (Some (m, data))" "reader_open crc sid data = Inr r"
    "reader_holds crc r frozen" "rd_meta r = m" "sst_id m = sid" "first_key m = fst (hd frozen)"
    "last_key m = fst (last frozen)" "entry_count m = length frozen" "file_size m = length data"
    by (rule write_then_open [OF assms])
  have "meta_spans m frozen" using assms w(6,7) by (simp add: meta_spans_def table_fits_def)
  then show thesis
    using w by (intro that [of m r "(lsm_st t)\<lparr>files := (files (lsm_st t))(sid \<mapsto> data),
      manifest := log_add 0 m (manifest (lsm_st t))\<rparr>"]) (auto simp: flush_write_def written_def)
qed

text \<open>Publishing puts the table in front of every other one.\<close>

lemma publish_table:
  assumes inv: "store_inv crc s" and w: "written crc frozen sid m r"
    and sid: "sid < next_of s" "sid \<notin> sst_id ` set (all_metas s)"
  defines "s' \<equiv> s\<lparr>readers := (readers s)(sst_id m \<mapsto> r),
    level_st := (level_st s)\<lparr>levels := (levels (level_st s))[0 := levels (level_st s) ! 0 @ [m]]\<rparr>\<rparr>"
  shows "store_inv crc s'" "store_entries s' = frozen @ store_entries s"
proof -
  have "length (levels (level_st s)) = MAX_LEVEL_COUNT" using inv by (simp add: store_inv_def)
  then obtain l0 rest where l: "levels (level_st s) = l0 # rest"
    by (cases "levels (level_st s)") (auto simp: MAX_LEVEL_COUNT_def)
  then have l': "levels (level_st s') = (l0 @ [m]) # rest" by (simp add: s'_def)
  have keep: "readers s' (sst_id m') = readers s (sst_id m')" if "m' \<in> set (all_metas s)" for m'
    using sid(2) w that by (auto simp: s'_def written_def) (metis imageI)
  have new: "tbl s' m = frozen" "table_ok crc s' m"
    using w by (auto simp: s'_def written_def table_ok_def tbl_def good_reader_def reader_holds_def)
  have old: "tbl s' m' = tbl s m'" "table_ok crc s' m'" if "m' \<in> set (all_metas s)" for m'
    using tbl_cong [OF keep [OF that]] table_ok_cong [OF keep [OF that], of crc] inv that by (auto simp: store_inv_def)
  have all: "set (all_metas s') = insert m (set (all_metas s))" using l l' by (auto simp: all_metas_def)
  have "distinct (map sst_id (all_metas s'))"
    using inv sid(2) w l l' by (auto simp: store_inv_def all_metas_def written_def)
  moreover have "\<forall>m' \<in> set (all_metas s'). table_ok crc s' m' \<and> sst_id m' < next_of s'"
    using all new(2) old(2) inv sid(1) w by (auto simp: store_inv_def s'_def written_def)
  moreover have "disjoint_level (levels (level_st s') ! i)" if "1 \<le> i" "i < MAX_LEVEL_COUNT" for i
    using inv that l l' by (cases i) (auto simp: store_inv_def dest!: spec [of _ i])
  ultimately show "store_inv crc s'" using inv l l' by (simp add: store_inv_def)
  have "lv_entries s' ms = lv_entries s ms" if "set ms \<subseteq> set (all_metas s)" for ms
    using old(1) that by (intro lv_entries_cong) auto
  then show "store_entries s' = frozen @ store_entries s"
    using l l' new(1) by (auto simp: store_entries_def probe_order_def all_metas_def)
qed

lemma flush_publish_ok:
  assumes inv: "tree_inv crc t" and w: "written crc frozen sid m r"
    and sid: "sid < next_of (lsm_st t)" "sid \<notin> sst_id ` set (all_metas (lsm_st t))"
    and im: "immutable_memtables t = [(sid, frozen)]"
  obtains s' where "flush_publish crc (Some (m, r)) sid t = Inr (t\<lparr>lsm_st := s', immutable_memtables := []\<rparr>)"
    "store_inv crc s'" "lsm_view (t\<lparr>lsm_st := s', immutable_memtables := []\<rparr>) = lsm_view t"
proof -
  have st: "store_inv crc (lsm_st t)" using inv by (simp add: tree_inv_def)
  define s1 where "s1 = (lsm_st t)\<lparr>readers := (readers (lsm_st t))(sst_id m \<mapsto> r),
    level_st := (level_st (lsm_st t))\<lparr>levels := (levels (level_st (lsm_st t)))[0 := levels (level_st (lsm_st t)) ! 0 @ [m]]\<rparr>\<rparr>"
  note p = publish_table [OF st w sid, folded s1_def]
  obtain s' where s': "maybe_compact crc (memtable_size_limit t) s1 = Inr s'" "store_inv crc s'" "store_view s' = store_view s1"
    using maybe_compact_ok [OF p(1)] by (auto simp: compacts_def)
  have "flush_publish crc (Some (m, r)) sid t = Inr (t\<lparr>lsm_st := s', immutable_memtables := []\<rparr>)"
    using s'(1) im by (simp add: flush_publish_def Let_def s1_def)
  moreover have "lsm_view (t\<lparr>lsm_st := s', immutable_memtables := []\<rparr>) k = lsm_view t k" for k
    using fun_cong [OF s'(3), of k] p(2) im
    by (cases "map_of (mt_entries (memt t)) k") (auto simp: lsm_view_def store_view_def frozen_entries_def map_add_def)
  ultimately show thesis using that s'(2) by blast
qed

lemma lsm_flush_ok:
  assumes inv: "tree_inv crc t" and im: "immutable_memtables t = []" and fits: "mt_size_bytes (memt t) \<le> 2 ^ 28"
  obtains t' where "lsm_flush crc force t = Inr t'" "tree_inv crc t'" "immutable_memtables t' = []"
    "lsm_view t' = lsm_view t" "memtable_size_limit t' = memtable_size_limit t"
    "mt_size_bytes (memt t') \<le> mt_size_bytes (memt t)"
    "force \<or> memtable_size_limit t \<le> mt_size_bytes (memt t) \<Longrightarrow> mt_entries (memt t') = [] \<and> mt_size_bytes (memt t') = 0"
proof (cases "flush_swap force t")
  case (Pair f t1)
  show ?thesis
  proof (cases f)
    case None
    then have "t1 = t" and c: "mt_entries (memt t) = [] \<or> \<not> force \<and> mt_size_bytes (memt t) < memtable_size_limit t"
      using Pair by (auto simp: flush_swap_def next_id_def Let_def memtable_is_empty_def split: if_splits)
    moreover have "mt_entries (memt t) = [] \<Longrightarrow> mt_size_bytes (memt t) = 0"
      using inv by (simp add: tree_inv_def memtable_inv_def)
    ultimately show ?thesis using None Pair inv im by (intro that [of t]) (auto simp: lsm_flush_def)
  next
    case (Some fs)
    obtain frozen sid where fs: "fs = (frozen, sid)" by (cases fs)
    have eq: "flush_swap force t = (Some (frozen, sid), t1)" using Pair Some fs by simp
    note sw = write_flush_swap [OF inv eq]
    have fit: "table_fits frozen" "keys_sorted frozen"
      using inv sw(3,4) fits total_size_le_mem [of "mt_entries (memt t)"]
      by (auto simp: table_fits_def tree_inv_def memtable_inv_def)
    obtain m r s2 where w: "flush_write crc frozen sid t1 = Inr (Some (m, r), t1\<lparr>lsm_st := s2\<rparr>)"
      "level_st s2 = level_st (lsm_st t1)" "readers s2 = readers (lsm_st t1)" "written crc frozen sid m r"
      by (rule flush_write_ok [OF fit, of crc sid t1])
    let ?t2 = "t1\<lparr>lsm_st := s2\<rparr>"
    note ss = same_store [OF w(2,3)]
    have i2: "tree_inv crc ?t2" using sw(1) ss(1) [of crc] by (simp add: tree_inv_def)
    have v2: "lsm_view ?t2 = lsm_view t1" using ss(2) by (simp add: lsm_view_def frozen_entries_def fun_eq_iff)
    have "\<forall>m \<in> set (all_metas (lsm_st t)). sst_id m < sid" using inv sw(6) by (simp add: tree_inv_def store_inv_def)
    then have fresh: "sid \<notin> sst_id ` set (all_metas s2)" using sw(10) w(2) by (auto simp: all_metas_def)
    have "sid < next_of (lsm_st ?t2)" "sid \<notin> sst_id ` set (all_metas (lsm_st ?t2))" "immutable_memtables ?t2 = [(sid, frozen)]"
      using sw(5,7) w(2) fresh im by simp_all
    from flush_publish_ok [OF i2 w(4) this] obtain s' where
      p: "flush_publish crc (Some (m, r)) sid ?t2 = Inr (?t2\<lparr>lsm_st := s', immutable_memtables := []\<rparr>)"
      "store_inv crc s'" "lsm_view (?t2\<lparr>lsm_st := s', immutable_memtables := []\<rparr>) = lsm_view ?t2" by blast
    show ?thesis
    proof (rule that [of "?t2\<lparr>lsm_st := s', immutable_memtables := []\<rparr>"])
      show "lsm_flush crc force t = Inr (?t2\<lparr>lsm_st := s', immutable_memtables := []\<rparr>)"
        using eq w(1) p(1) by (simp add: lsm_flush_def)
    qed (use sw p v2 in \<open>simp_all add: tree_inv_def memtable_inv_def memtable_new_def\<close>)
  qed
qed

text \<open>A write that fits a data block succeeds and updates exactly its key.\<close>

lemma lsm_write_ok:
  assumes inv: "lsm_inv crc t" and m: "memtable_inv m" "\<forall>e \<in> set (mt_entries m). entry_fits e"
    "map_of (mt_entries m) = (map_of (mt_entries (memt t)))(k \<mapsto> e)"
    and size: "mt_size_bytes m \<le> mt_size_bytes (memt t) + 2 ^ 13"
  shows "\<exists>t'. (let t = t\<lparr>memt := m\<rparr> in if mt_size_bytes (memt t) \<ge> memtable_size_limit t then lsm_flush crc False t else Inr t) = Inr t' \<and>
    lsm_inv crc t' \<and> lsm_view t' = (lsm_view t)(k := e)"
proof -
  let ?t = "t\<lparr>memt := m\<rparr>"
  have v: "lsm_view ?t = (lsm_view t)(k := e)"
    using m(3) by (auto simp: fun_eq_iff lsm_view_def frozen_entries_def map_add_def split: option.splits)
  have i: "tree_inv crc ?t" "immutable_memtables ?t = []" using inv m by (simp_all add: lsm_inv_def tree_inv_def)
  have f: "mt_size_bytes (memt ?t) \<le> 2 ^ 28" using inv size by (simp add: lsm_inv_def)
  show ?thesis
  proof (cases "mt_size_bytes m \<ge> memtable_size_limit t")
    case True
    obtain t' where "lsm_flush crc False ?t = Inr t'" "tree_inv crc t'" "immutable_memtables t' = []"
      "lsm_view t' = lsm_view ?t" "memtable_size_limit t' = memtable_size_limit ?t" "mt_size_bytes (memt t') = 0"
      by (rule lsm_flush_ok [OF i f, of False]) (use True in simp)
    then show ?thesis using True v inv by (auto simp: lsm_inv_def)
  next
    case False
    then show ?thesis using v i inv by (simp add: lsm_inv_def)
  qed
qed

lemma lsm_put_ok:
  assumes "lsm_inv crc t" "entry_fits (k, Some v)"
  shows "\<exists>t'. lsm_put crc k v t = Inr t' \<and> lsm_inv crc t' \<and> lsm_view t' = (lsm_view t)(k \<mapsto> v)"
  unfolding lsm_put_def
  using assms memtable_put_inv [of "memt t" k v] memtable_put_size [of "memt t" k v]
    set_bt_insert [of k "Some v" "mt_entries (memt t)"]
  by (intro lsm_write_ok)
    (auto simp: lsm_inv_def tree_inv_def memtable_put_def Let_def entry_fits_def entry_size_def BLOCK_DATA_CAPACITY_def BLOCK_SIZE_def)

lemma lsm_delete_ok:
  assumes "lsm_inv crc t" "entry_fits (k, None)"
  shows "\<exists>t'. lsm_delete crc k t = Inr t' \<and> lsm_inv crc t' \<and> lsm_view t' = (lsm_view t)(k := None)"
  unfolding lsm_delete_def
  using assms memtable_delete_inv [of "memt t" k] memtable_delete_size [of "memt t" k]
    set_bt_insert [of k "None" "mt_entries (memt t)"]
  by (intro lsm_write_ok)
    (auto simp: lsm_inv_def tree_inv_def memtable_delete_def Let_def entry_fits_def entry_size_def BLOCK_DATA_CAPACITY_def BLOCK_SIZE_def)

interpretation lsm: storage_engine "lsm_inv crc" "\<lambda>k e. entry_fits (k, e)" lsm_view "\<lambda>k t. lsm_get crc t k"
  "lsm_put crc" "lsm_delete crc" "\<lambda>lo hi t. lsm_scan t lo hi" for crc
proof
  fix t k v lo hi
  assume inv: "lsm_inv crc t"
  then have ti: "tree_inv crc t" by (simp add: lsm_inv_def)
  show "lsm_get crc t k = Inr (lsm_view t k)" by (rule lsm_get_ok [OF ti])
  show "\<exists>t'. lsm_put crc k v t = Inr t' \<and> lsm_inv crc t' \<and> lsm_view t' = (lsm_view t)(k \<mapsto> v)"
    if "entry_fits (k, Some v)" by (rule lsm_put_ok [OF inv that])
  show "\<exists>t'. lsm_delete crc k t = Inr t' \<and> lsm_inv crc t' \<and> lsm_view t' = (lsm_view t)(k := None)"
    if "entry_fits (k, None)" by (rule lsm_delete_ok [OF inv that])
  show "\<exists>xs. lsm_scan t lo hi = Inr xs \<and> keys_sorted xs \<and>
      map_of xs = (\<lambda>k. if range_contains lo hi k then lsm_view t k else None)"
    if "range_ok lo hi" by (rule lsm_scan_ok [OF ti that])
qed

end
