(* ===== verification/Lsm_Engine.thy ===== *)
theory Lsm_Engine
  imports Lsm_Tree
begin

text \<open>
  The storage engine over the LSM-tree, \<^verbatim>\<open>idb-storage/src/engines/lsm/engine.rs\<close>: the tree with its
  counters of live keys, of their bytes and of tombstones.  The counters are 64-bit atomics that wrap.
  Proved: the engine implements the storage contract and its counters are exact modulo \<open>2 ^ 64\<close>.
\<close>

record lsm_engine =
  eng_tree :: lsm_tree
  key_count :: "64 word"
  data_size :: "64 word"
  tombstone_count :: "64 word"

record storage_status =
  st_name :: string
  st_keys :: "64 word"
  st_size :: "64 word"
  st_disk_size :: nat
  st_live_disk_size :: nat
  st_tombstones :: "64 word"

definition count_existing_data :: "lsm_tree \<Rightarrow> (64 word \<times> 64 word) result" where
  "count_existing_data t =
    and_then (lsm_scan t Unbounded Unbounded) (\<lambda>entries.
      Inr (fold (\<lambda>(k, v) (n, sz). (n + 1, sz + of_nat (length k + length v))) entries (0, 0)))"

definition engine_open :: "(bytes \<Rightarrow> 32 word) \<Rightarrow> nat \<Rightarrow> string list \<Rightarrow> (nat \<rightharpoonup> bytes) \<Rightarrow> lsm_engine result" where
  "engine_open crc limit lines fs =
    and_then (lsm_open crc limit lines fs) (\<lambda>t.
    and_then (count_existing_data t) (\<lambda>(n, sz).
      Inr \<lparr>eng_tree = t, key_count = n, data_size = sz, tombstone_count = 0\<rparr>))"

definition engine_get :: "(bytes \<Rightarrow> 32 word) \<Rightarrow> bytes \<Rightarrow> lsm_engine \<Rightarrow> bytes option result" where
  "engine_get crc key e = lsm_get crc (eng_tree e) key"

definition engine_put :: "(bytes \<Rightarrow> 32 word) \<Rightarrow> bytes \<Rightarrow> bytes \<Rightarrow> lsm_engine \<Rightarrow> lsm_engine result" where
  "engine_put crc key val e =
    and_then (lsm_get crc (eng_tree e) key) (\<lambda>old_value.
      let e = (case old_value of
          Some old_val \<Rightarrow> e\<lparr>data_size := data_size e - of_nat (length old_val) + of_nat (length val)\<rparr>
        | None \<Rightarrow> e\<lparr>key_count := key_count e + 1, data_size := data_size e + of_nat (length key + length val)\<rparr>) in
      and_then (lsm_put crc key val (eng_tree e)) (\<lambda>t. Inr (e\<lparr>eng_tree := t\<rparr>)))"

definition engine_delete :: "(bytes \<Rightarrow> 32 word) \<Rightarrow> bytes \<Rightarrow> lsm_engine \<Rightarrow> lsm_engine result" where
  "engine_delete crc key e =
    and_then (lsm_get crc (eng_tree e) key) (\<lambda>old_value.
      let e = (case old_value of
          Some old_val \<Rightarrow> e\<lparr>key_count := key_count e - 1, data_size := data_size e - of_nat (length key + length old_val),
            tombstone_count := tombstone_count e + 1\<rparr>
        | None \<Rightarrow> e) in
      and_then (lsm_delete crc key (eng_tree e)) (\<lambda>t. Inr (e\<lparr>eng_tree := t\<rparr>)))"

definition engine_scan_range :: "bound \<Rightarrow> bound \<Rightarrow> lsm_engine \<Rightarrow> (bytes \<times> bytes) list result" where
  "engine_scan_range lo hi e = lsm_scan (eng_tree e) lo hi"

definition engine_status :: "lsm_engine \<Rightarrow> storage_status" where
  "engine_status e =
    (let disk_size = total_disk_size (level_st (lsm_st (eng_tree e))) in
     \<lparr>st_name = ''lsm'', st_keys = key_count e, st_size = data_size e, st_disk_size = disk_size,
      st_live_disk_size = disk_size, st_tombstones = tombstone_count e\<rparr>)"

definition engine_flush :: "(bytes \<Rightarrow> 32 word) \<Rightarrow> lsm_engine \<Rightarrow> lsm_engine result" where
  "engine_flush crc e = and_then (flush_memtable crc (eng_tree e)) (\<lambda>t. Inr (e\<lparr>eng_tree := t\<rparr>))"

section \<open>Exact counters\<close>

definition view_bytes :: "(bytes \<Rightarrow> bytes option) \<Rightarrow> nat" where
  "view_bytes f = (\<Sum>k \<in> dom f. length k + length (the (f k)))"

definition engine_view :: "lsm_engine \<Rightarrow> bytes \<Rightarrow> bytes option" where
  "engine_view e = lsm_view (eng_tree e)"

definition engine_inv :: "(bytes \<Rightarrow> 32 word) \<Rightarrow> lsm_engine \<Rightarrow> bool" where
  "engine_inv crc e \<longleftrightarrow> lsm_inv crc (eng_tree e) \<and>
    key_count e = of_nat (card (dom (engine_view e))) \<and> data_size e = of_nat (view_bytes (engine_view e))"

lemma view_bytes_upd_new:
  assumes "finite (dom f)" "f k = None"
  shows "view_bytes (f(k \<mapsto> v)) = view_bytes f + (length k + length v)"
    and "card (dom (f(k \<mapsto> v))) = card (dom f) + 1"
proof -
  have k: "k \<notin> dom f" using assms(2) by auto
  have "(\<Sum>x \<in> dom f. length x + length (the ((f(k \<mapsto> v)) x))) = view_bytes f"
    unfolding view_bytes_def using k by (intro sum.cong) auto
  then show "view_bytes (f(k \<mapsto> v)) = view_bytes f + (length k + length v)"
    using k assms(1) by (simp add: view_bytes_def)
  show "card (dom (f(k \<mapsto> v))) = card (dom f) + 1" using k assms(1) by simp
qed

lemma view_bytes_del:
  assumes "finite (dom f)" "f k = Some v"
  shows "view_bytes f = view_bytes (f(k := None)) + (length k + length v)"
    and "card (dom f) = card (dom (f(k := None))) + 1"
  using view_bytes_upd_new [of "f(k := None)" k v] assms by (auto simp: map_upd_triv)

lemma count_entries:
  "fold (\<lambda>(k, v) (n :: 64 word, sz :: 64 word). (n + 1, sz + of_nat (length k + length v))) es (n, sz) =
    (n + of_nat (length es), sz + of_nat (sum_list (map (\<lambda>(k, v). length k + length v) es)))"
  by (induction es arbitrary: n sz) (auto simp: algebra_simps)

lemma view_bytes_map_of:
  assumes "keys_sorted es"
  shows "view_bytes (map_of es) = sum_list (map (\<lambda>(k, v). length k + length v) es)" "card (dom (map_of es)) = length es"
proof -
  have d: "distinct (map fst es)" using keys_sorted_distinct [OF assms] .
  then show "card (dom (map_of es)) = length es" by (simp add: dom_map_of_conv_image_fst card_image distinct_map distinct_card)
  show "view_bytes (map_of es) = sum_list (map (\<lambda>(k, v). length k + length v) es)"
    using d
  proof (induction es)
    case (Cons e es)
    obtain k v where e: "e = (k, v)" by (cases e)
    have "map_of es k = None" using Cons.prems e by (auto simp: map_of_eq_None_iff)
    then show ?case using Cons e view_bytes_upd_new(1) [of "map_of es" k v]
      by (simp add: finite_dom_map_of del: fun_upd_apply)
  qed (simp add: view_bytes_def)
qed

lemma engine_put_ok:
  assumes inv: "engine_inv crc e" and fit: "entry_fits (k, Some v)"
  shows "\<exists>e'. engine_put crc k v e = Inr e' \<and> engine_inv crc e' \<and> engine_view e' = (engine_view e)(k \<mapsto> v)"
proof -
  have li: "lsm_inv crc (eng_tree e)" using inv by (simp add: engine_inv_def)
  obtain t' where t': "lsm_put crc k v (eng_tree e) = Inr t'" "lsm_inv crc t'" "lsm_view t' = (lsm_view (eng_tree e))(k \<mapsto> v)"
    using lsm.put_view [OF li fit] by blast
  have fin: "finite (dom (engine_view e))" using lsm.finite_view [OF li] by (simp add: engine_view_def)
  show ?thesis
  proof (cases "engine_view e k")
    case None
    then show ?thesis using t' inv view_bytes_upd_new [OF fin None, of v] lsm.get_view [OF li, of k]
      by (auto simp: engine_put_def engine_inv_def engine_view_def Let_def)
  next
    case (Some old)
    let ?f = "(engine_view e)(k := None)"
    have "view_bytes ((engine_view e)(k \<mapsto> v)) = view_bytes ?f + (length k + length v)"
      "card (dom ((engine_view e)(k \<mapsto> v))) = card (dom ?f) + 1"
      using view_bytes_upd_new [of ?f k v] fin by simp_all
    then show ?thesis using t' inv Some view_bytes_del [OF fin Some] lsm.get_view [OF li, of k]
      by (auto simp: engine_put_def engine_inv_def engine_view_def Let_def)
  qed
qed

lemma engine_delete_ok:
  assumes inv: "engine_inv crc e" and fit: "entry_fits (k, None)"
  shows "\<exists>e'. engine_delete crc k e = Inr e' \<and> engine_inv crc e' \<and> engine_view e' = (engine_view e)(k := None)"
proof -
  have li: "lsm_inv crc (eng_tree e)" using inv by (simp add: engine_inv_def)
  obtain t' where t': "lsm_delete crc k (eng_tree e) = Inr t'" "lsm_inv crc t'" "lsm_view t' = (lsm_view (eng_tree e))(k := None)"
    using lsm.delete_view [OF li fit] by blast
  have fin: "finite (dom (engine_view e))" using lsm.finite_view [OF li] by (simp add: engine_view_def)
  show ?thesis
  proof (cases "engine_view e k")
    case None
    then have "(engine_view e)(k := None) = engine_view e" by auto
    then show ?thesis using t' inv None lsm.get_view [OF li, of k]
      by (auto simp: engine_delete_def engine_inv_def engine_view_def Let_def)
  next
    case (Some old)
    then show ?thesis using t' inv view_bytes_del [OF fin Some] lsm.get_view [OF li, of k]
      by (auto simp: engine_delete_def engine_inv_def engine_view_def Let_def)
  qed
qed

lemma engine_flush_ok:
  assumes "engine_inv crc e"
  shows "\<exists>e'. engine_flush crc e = Inr e' \<and> engine_inv crc e' \<and> engine_view e' = engine_view e"
proof -
  have i: "tree_inv crc (eng_tree e)" "immutable_memtables (eng_tree e) = []" "mt_size_bytes (memt (eng_tree e)) \<le> 2 ^ 28"
    using assms by (auto simp: engine_inv_def lsm_inv_def)
  obtain t' where "lsm_flush crc True (eng_tree e) = Inr t'" "tree_inv crc t'" "immutable_memtables t' = []"
    "lsm_view t' = lsm_view (eng_tree e)" "memtable_size_limit t' = memtable_size_limit (eng_tree e)"
    "mt_size_bytes (memt t') \<le> mt_size_bytes (memt (eng_tree e))"
    by (rule lsm_flush_ok [OF i, of True]) blast
  then show ?thesis using assms
    by (auto simp: engine_flush_def flush_memtable_def engine_inv_def engine_view_def lsm_inv_def)
qed

interpretation lsm_eng: storage_engine "engine_inv crc" "\<lambda>k e. entry_fits (k, e)" engine_view "engine_get crc"
  "engine_put crc" "engine_delete crc" engine_scan_range for crc
proof
  fix e k v lo hi
  assume inv: "engine_inv crc e"
  then have li: "lsm_inv crc (eng_tree e)" by (simp add: engine_inv_def)
  show "engine_get crc k e = Inr (engine_view e k)" using lsm.get_view [OF li] by (simp add: engine_get_def engine_view_def)
  show "\<exists>e'. engine_put crc k v e = Inr e' \<and> engine_inv crc e' \<and> engine_view e' = (engine_view e)(k \<mapsto> v)"
    if "entry_fits (k, Some v)" by (rule engine_put_ok [OF inv that])
  show "\<exists>e'. engine_delete crc k e = Inr e' \<and> engine_inv crc e' \<and> engine_view e' = (engine_view e)(k := None)"
    if "entry_fits (k, None)" by (rule engine_delete_ok [OF inv that])
  show "\<exists>xs. engine_scan_range lo hi e = Inr xs \<and> keys_sorted xs \<and>
      map_of xs = (\<lambda>k. if range_contains lo hi k then engine_view e k else None)"
    if "range_ok lo hi" unfolding engine_scan_range_def engine_view_def by (rule lsm.scan_view [OF li that])
qed

text \<open>A new engine on an empty directory.\<close>

lemma empty_store_inv: "store_inv crc \<lparr>level_st = level_state_new, manifest = [], readers = Map.empty, files = fs\<rparr>"
  by (auto simp: store_inv_def level_state_new_def all_metas_def disjoint_level_def)

lemma lsm_open_new:
  assumes "limit \<le> 2 ^ 27"
  obtains t where "lsm_open crc limit [] Map.empty = Inr t" "lsm_inv crc t" "lsm_view t = Map.empty"
proof -
  let ?t = "\<lparr>memt = memtable_new, immutable_memtables = [],
    lsm_st = \<lparr>level_st = level_state_new, manifest = [], readers = Map.empty, files = Map.empty\<rparr>,
    memtable_size_limit = limit\<rparr>"
  have e: "concat (levels level_state_new) = []" by (simp add: level_state_new_def)
  have "lsm_open crc limit [] Map.empty = Inr ?t" by (simp add: lsm_open_def manifest_open_def e)
  moreover have "lsm_inv crc ?t" using assms empty_store_inv by (simp add: lsm_inv_def tree_inv_def memtable_new_def memtable_inv_def)
  moreover have "set (probe_order (levels level_state_new)) = {}" using e by simp
  then have "lsm_view ?t = Map.empty"
    by (simp only: set_empty) (simp add: fun_eq_iff lsm_view_def frozen_entries_def store_entries_def memtable_new_def)
  ultimately show thesis by (rule that)
qed

lemma engine_count_ok:
  assumes "lsm_inv crc t"
  shows "count_existing_data t = Inr (of_nat (card (dom (lsm_view t))), of_nat (view_bytes (lsm_view t)))"
proof -
  obtain xs where "lsm_scan t Unbounded Unbounded = Inr xs" "keys_sorted xs" "map_of xs = lsm_view t"
    using lsm.scan_all [OF assms] by blast
  then show ?thesis using view_bytes_map_of [of xs] by (simp add: count_existing_data_def count_entries del: of_nat_add)
qed

lemma engine_open_new:
  assumes "limit \<le> 2 ^ 27"
  obtains e where "engine_open crc limit [] Map.empty = Inr e" "engine_inv crc e" "engine_view e = Map.empty"
proof -
  obtain t where t: "lsm_open crc limit [] Map.empty = Inr t" "lsm_inv crc t" "lsm_view t = Map.empty"
    by (rule lsm_open_new [OF assms])
  then show thesis using engine_count_ok [OF t(2)]
    by (intro that [of "\<lparr>eng_tree = t, key_count = 0, data_size = 0, tombstone_count = 0\<rparr>"])
      (auto simp: engine_open_def engine_inv_def engine_view_def view_bytes_def)
qed

end
