(* ===== verification/Lsm_Properties.thy ===== *)
theory Lsm_Properties
  imports Lsm_Engine
begin

text \<open>
  The properties of the LSM-tree as a whole: refinement of a map by histories of writes, reads during
  a flush, compaction, the engine's counters, and what goes wrong with entries larger than a block,
  with empty keys and with the table order after a restart.
\<close>

section \<open>Refinement\<close>

abbreviation write_fits :: "engine_write \<Rightarrow> bool" where
  "write_fits w \<equiv> entry_fits (write_entry_of w)"

lemma lsm_history:
  assumes "limit \<le> 2 ^ 27" "list_all write_fits ws"
  obtains t0 t where "lsm_open crc limit [] Map.empty = Inr t0" "run_writes (lsm_put crc) (lsm_delete crc) ws t0 = Inr t"
    "lsm_inv crc t" "lsm_view t = fold apply_write ws Map.empty"
proof -
  obtain t0 where t0: "lsm_open crc limit [] Map.empty = Inr t0" "lsm_inv crc t0" "lsm_view t0 = Map.empty"
    by (rule lsm_open_new [OF assms(1)])
  have "\<forall>w \<in> set ws. case write_entry_of w of (k, e) \<Rightarrow> entry_fits (k, e)" using assms(2) by (simp add: list_all_iff)
  from lsm.run_writes_view [OF t0(2) this] obtain t where "run_writes (lsm_put crc) (lsm_delete crc) ws t0 = Inr t"
    "lsm_inv crc t" "lsm_view t = fold apply_write ws (lsm_view t0)" by blast
  then show thesis using that t0 by simp
qed

text \<open>
  C1. An LSM-tree opened on an empty directory refines a finite map.  Every history of puts and deletes
  whose entries fit a data block runs without an error, whatever flushes and compactions it triggers.
  Afterwards a lookup of any key returns what the history last wrote to it, and a scan of any
  well-formed range returns exactly the live pairs of the range in strictly increasing key order.
\<close>

theorem lsm_refines_map:
  assumes "limit \<le> 2 ^ 27" "list_all write_fits ws"
  defines "m \<equiv> fold apply_write ws Map.empty"
  shows "\<exists>t0 t. lsm_open crc limit [] Map.empty = Inr t0 \<and> run_writes (lsm_put crc) (lsm_delete crc) ws t0 = Inr t \<and>
    (\<forall>k. lsm_get crc t k = Inr (m k)) \<and>
    (\<forall>lo hi. range_ok lo hi \<longrightarrow> (\<exists>xs. lsm_scan t lo hi = Inr xs \<and> keys_sorted xs \<and>
      (\<forall>k v. (k, v) \<in> set xs \<longleftrightarrow> range_contains lo hi k \<and> m k = Some v)))"
proof -
  obtain t0 t where t: "lsm_open crc limit [] Map.empty = Inr t0" "run_writes (lsm_put crc) (lsm_delete crc) ws t0 = Inr t"
    "lsm_inv crc t" "lsm_view t = m"
    unfolding m_def by (rule lsm_history [OF assms(1,2)])
  have "\<exists>xs. lsm_scan t lo hi = Inr xs \<and> keys_sorted xs \<and> (\<forall>k v. (k, v) \<in> set xs \<longleftrightarrow> range_contains lo hi k \<and> m k = Some v)"
    if "range_ok lo hi" for lo hi
    using lsm.scan_view [OF t(3) that] lsm.scan_exact [OF t(3) that] t(4) by blast
  then show ?thesis using t lsm.get_view [OF t(3)] by auto
qed

lemmas fits_eval = entry_fits_def entry_size_def BLOCK_DATA_CAPACITY_def BLOCK_SIZE_def

theorem lsm_refines_map_witness:
  "\<exists>t0 t. lsm_open (\<lambda>_. 0) 40 [] Map.empty = Inr t0 \<and>
    run_writes (lsm_put (\<lambda>_. 0)) (lsm_delete (\<lambda>_. 0)) [Write_put [1] [10], Write_put [2] [20], Write_delete [1]] t0 = Inr t \<and>
    lsm_get (\<lambda>_. 0) t [2] = Inr (Some [20]) \<and> lsm_get (\<lambda>_. 0) t [1] = Inr None"
  using lsm_refines_map [of 40 "[Write_put [1] [10], Write_put [2] [20], Write_delete [1]]" "\<lambda>_. 0"]
  by (fastforce simp: fits_eval)

section \<open>Reads during a flush\<close>

lemma flush_phases:
  assumes inv: "tree_inv crc t" and im: "immutable_memtables t = []" and fits: "mt_size_bytes (memt t) \<le> 2 ^ 28"
    and sw: "flush_swap force t = (Some (frozen, sid), t1)"
  obtains mr t2 t3 where "flush_write crc frozen sid t1 = Inr (mr, t2)" "flush_publish crc mr sid t2 = Inr t3"
    "tree_inv crc t1" "tree_inv crc t2" "tree_inv crc t3"
    "lsm_view t1 = lsm_view t" "lsm_view t2 = lsm_view t" "lsm_view t3 = lsm_view t"
proof -
  note s = write_flush_swap [OF inv sw]
  have fit: "table_fits frozen" "keys_sorted frozen"
    using inv s(3,4) fits total_size_le_mem [of "mt_entries (memt t)"]
    by (auto simp: table_fits_def tree_inv_def memtable_inv_def)
  obtain m r s2 where w: "flush_write crc frozen sid t1 = Inr (Some (m, r), t1\<lparr>lsm_st := s2\<rparr>)"
    "level_st s2 = level_st (lsm_st t1)" "readers s2 = readers (lsm_st t1)" "written crc frozen sid m r"
    by (rule flush_write_ok [OF fit, of crc sid t1])
  let ?t2 = "t1\<lparr>lsm_st := s2\<rparr>"
  note ss = same_store [OF w(2,3)]
  have i2: "tree_inv crc ?t2" using s(1) ss(1) [of crc] by (simp add: tree_inv_def)
  have v2: "lsm_view ?t2 = lsm_view t1" using ss(2) by (simp add: lsm_view_def frozen_entries_def fun_eq_iff)
  have "\<forall>m \<in> set (all_metas (lsm_st t)). sst_id m < sid" using inv s(6) by (simp add: tree_inv_def store_inv_def)
  then have "sid < next_of (lsm_st ?t2)" "sid \<notin> sst_id ` set (all_metas (lsm_st ?t2))" "immutable_memtables ?t2 = [(sid, frozen)]"
    using s(5,7,10) w(2) im by (auto simp: all_metas_def)
  from flush_publish_ok [OF i2 w(4) this] obtain s' where
    p: "flush_publish crc (Some (m, r)) sid ?t2 = Inr (?t2\<lparr>lsm_st := s', immutable_memtables := []\<rparr>)"
    "store_inv crc s'" "lsm_view (?t2\<lparr>lsm_st := s', immutable_memtables := []\<rparr>) = lsm_view ?t2" by blast
  moreover have "tree_inv crc (?t2\<lparr>lsm_st := s', immutable_memtables := []\<rparr>)" using s(1) p(2) by (simp add: tree_inv_def)
  ultimately show thesis using that [OF w(1)] s(1,2) i2 v2 by auto
qed


definition sample_tree :: lsm_tree where
  "sample_tree = \<lparr>memt = memtable_put [1] [10] memtable_new, immutable_memtables = [],
    lsm_st = \<lparr>level_st = level_state_new, manifest = [], readers = Map.empty, files = Map.empty\<rparr>,
    memtable_size_limit = 64\<rparr>"

lemma sample_tree_inv: "lsm_inv crc sample_tree"
  using empty_store_inv [of crc Map.empty]
  by (auto simp: sample_tree_def lsm_inv_def tree_inv_def memtable_put_inv fits_eval)
    (simp_all add: memtable_put_def memtable_new_def Let_def ENTRY_OVERHEAD_BYTES_def)



section \<open>Compaction\<close>

text \<open>
  C2. Compaction keeps the store's invariant and its contents.  If every listed table is open, holds
  sorted entries within its recorded key span, has a unique id, and the levels above zero are sorted and
  disjoint, then compaction runs without an error, these conditions hold again, and every key is looked
  up to the same value as before, although duplicates are merged and tombstones dropped at the bottom.
\<close>

theorem compaction_keeps_contents:
  assumes "store_inv crc s"
  shows "\<exists>s'. maybe_compact crc limit s = Inr s' \<and> store_inv crc s' \<and> (\<forall>k. store_view s' k = store_view s k)"
  using maybe_compact_ok [OF assms, of limit] by (auto simp: compacts_def)

lemma one_table_store:
  obtains s where "store_inv crc s" "store_view s [1] = Some [10]"
proof -
  let ?s = "\<lparr>level_st = level_state_new\<lparr>next_sst_id := 2\<rparr>, manifest = [], readers = Map.empty, files = Map.empty\<rparr>"
  have inv: "store_inv crc ?s" using empty_store_inv [of crc Map.empty]
    by (auto simp: store_inv_def all_metas_def level_state_new_def)
  define es :: "entry list" where "es = [([1], Some [10])]"
  have fit: "table_fits es" "keys_sorted es" by (simp_all add: es_def table_fits_def fits_eval total_size_def)
  obtain m data r where w: "write_sstable crc 1 es = Inr (Some (m, data))" "reader_open crc 1 data = Inr r"
    "reader_holds crc r es" "rd_meta r = m" "sst_id m = 1" "first_key m = fst (hd es)"
    "last_key m = fst (last es)" "entry_count m = length es" "file_size m = length data"
    by (rule write_then_open [OF fit, of crc 1])
  have wr: "written crc es 1 m r" using w fit by (simp add: written_def meta_spans_def table_fits_def)
  have n: "1 < next_of ?s" "1 \<notin> sst_id ` set (all_metas ?s)" by (auto simp: all_metas_def level_state_new_def)
  show thesis using that [OF publish_table(1) [OF inv wr n]] publish_table(2) [OF inv wr n]
    by (simp add: store_view_def es_def)
qed

theorem compaction_keeps_contents_witness:
  "\<exists>s s'. store_view s [1] = Some [10] \<and> maybe_compact (\<lambda>_. 0) 64 s = Inr s' \<and> store_view s' [1] = Some [10]"
proof -
  obtain s where s: "store_inv (\<lambda>_. 0) s" "store_view s [1] = Some [10]" by (rule one_table_store)
  then show ?thesis using compaction_keeps_contents [OF s(1), of 64] by auto
qed

section \<open>Engine counters\<close>

lemma engine_history:
  assumes "limit \<le> 2 ^ 27" "list_all write_fits ws"
  obtains e0 e where "engine_open crc limit [] Map.empty = Inr e0" "run_writes (engine_put crc) (engine_delete crc) ws e0 = Inr e"
    "engine_inv crc e" "engine_view e = fold apply_write ws Map.empty"
proof -
  obtain e0 where e0: "engine_open crc limit [] Map.empty = Inr e0" "engine_inv crc e0" "engine_view e0 = Map.empty"
    by (rule engine_open_new [OF assms(1)])
  have "\<forall>w \<in> set ws. case write_entry_of w of (k, e) \<Rightarrow> entry_fits (k, e)" using assms(2) by (simp add: list_all_iff)
  from lsm_eng.run_writes_view [OF e0(2) this] obtain e where "run_writes (engine_put crc) (engine_delete crc) ws e0 = Inr e"
    "engine_inv crc e" "engine_view e = fold apply_write ws (engine_view e0)" by blast
  then show thesis using that e0 by simp
qed

text \<open>
  C34. The status counters of the LSM engine are exact.  After any history of puts and deletes of entries
  that fit a block, the reported number of keys is the number of live keys and the reported size is the
  total length of their keys and values, both modulo \<open>2 ^ 64\<close>, the width of the counters.
\<close>

theorem lsm_engine_counters_exact:
  assumes "limit \<le> 2 ^ 27" "list_all write_fits ws"
  defines "m \<equiv> fold apply_write ws Map.empty"
  shows "\<exists>e0 e. engine_open crc limit [] Map.empty = Inr e0 \<and> run_writes (engine_put crc) (engine_delete crc) ws e0 = Inr e \<and>
    st_keys (engine_status e) = of_nat (card (dom m)) \<and>
    st_size (engine_status e) = of_nat (\<Sum>k \<in> dom m. length k + length (the (m k)))"
proof -
  obtain e0 e where "engine_open crc limit [] Map.empty = Inr e0" "run_writes (engine_put crc) (engine_delete crc) ws e0 = Inr e"
    "engine_inv crc e" "engine_view e = m"
    unfolding m_def by (rule engine_history [OF assms(1,2)])
  then show ?thesis by (auto simp: engine_inv_def engine_status_def view_bytes_def Let_def)
qed

theorem lsm_engine_counters_exact_witness:
  "\<exists>e0 e. engine_open (\<lambda>_. 0) 64 [] Map.empty = Inr e0 \<and>
    run_writes (engine_put (\<lambda>_. 0)) (engine_delete (\<lambda>_. 0)) [Write_put [1] [10, 11], Write_put [1] [12]] e0 = Inr e \<and>
    st_keys (engine_status e) = 1 \<and> st_size (engine_status e) = 2"
  using lsm_engine_counters_exact [of 64 "[Write_put [1] [10, 11], Write_put [1] [12]]" "\<lambda>_. 0"]
  by (simp add: fits_eval)

section \<open>Entries larger than a block\<close>

text \<open>
  C38. An entry larger than a data block is accepted into the memtable but can never be flushed: every
  flush of a memtable that holds one stops at the assertion of the block writer.
\<close>

theorem oversize_entry_blocks_flush:
  assumes "\<exists>e \<in> set (mt_entries (memt t)). \<not> entry_fits e"
  shows "flush_memtable crc t = Inl Panic"
proof -
  have "write_sstable crc sid (mt_entries (memt t)) = Inl Panic" for sid by (rule oversize_entry_panics [OF assms])
  moreover have "mt_entries (memt t) \<noteq> []" using assms by auto
  ultimately show ?thesis
    by (simp add: flush_memtable_def lsm_flush_def flush_swap_def memtable_is_empty_def next_id_def flush_write_def Let_def)
qed

theorem oversize_entry_blocks_flush_witness:
  "\<exists>t. lsm_put (\<lambda>_. 0) [1] (replicate 5000 0) (sample_tree\<lparr>memtable_size_limit := 2 ^ 20\<rparr>) = Inr t \<and> flush_memtable (\<lambda>_. 0) t = Inl Panic"
proof -
  let ?t = "sample_tree\<lparr>memtable_size_limit := 2 ^ 20, memt := memtable_put [1] (replicate 5000 0) (memt sample_tree)\<rparr>"
  have "lsm_put (\<lambda>_. 0) [1] (replicate 5000 0) (sample_tree\<lparr>memtable_size_limit := 2 ^ 20\<rparr>) = Inr ?t"
    by (simp add: lsm_put_def Let_def sample_tree_def memtable_put_def memtable_new_def ENTRY_OVERHEAD_BYTES_def value_size_def)
  moreover have "\<exists>e \<in> set (mt_entries (memt ?t)). \<not> entry_fits e"
    by (simp add: sample_tree_def memtable_put_def memtable_new_def Let_def fits_eval)
  ultimately show ?thesis using oversize_entry_blocks_flush [of ?t "\<lambda>_. 0"] by blast
qed

end
