(* ===== verification/Lsm_Restart.thy ===== *)
theory Lsm_Restart
  imports Lsm_Properties
begin

text \<open>
  Restarts of the LSM-tree: the manifest of a sequence of additions and deletions replays to the levels
  it describes, a table whose first key is empty makes the manifest unreadable, and the replayed order
  of a level above zero need not be the sorted order that point lookups rely on.
\<close>

section \<open>Replaying the manifest\<close>

datatype manifest_event = Log_add nat sst_meta | Log_del nat

fun log_event :: "manifest_event \<Rightarrow> string list \<Rightarrow> string list" where
  "log_event (Log_add level m) = log_add level m"
| "log_event (Log_del sid) = log_del sid"

fun replay_event :: "manifest_event \<Rightarrow> level_state \<Rightarrow> level_state" where
  "replay_event (Log_add level m) = push_meta level m"
| "replay_event (Log_del sid) = remove_meta sid"

fun event_ok :: "manifest_event \<Rightarrow> bool" where
  "event_ok (Log_add level m) \<longleftrightarrow> level < MAX_LEVEL_COUNT \<and> meta_ok m \<and> first_key m \<noteq> [] \<and> last_key m \<noteq> []"
| "event_ok (Log_del sid) \<longleftrightarrow> sid < 2 ^ 64"

lemma log_event_append: "log_event ev lines = lines @ log_event ev []"
  by (cases ev) (simp_all add: log_add_def log_del_def)

lemma replay_event_line: "event_ok ev \<Longrightarrow> replay_lines (log_event ev []) st = Inr (replay_event ev st)"
  by (cases ev) (simp_all add: replay_add replay_del)

lemma replay_events:
  assumes "list_all event_ok evs" "replay_lines lines st0 = Inr st"
  shows "replay_lines (fold log_event evs lines) st0 = Inr (fold replay_event evs st)"
  using assms
proof (induction evs arbitrary: lines st)
  case (Cons ev evs)
  then have "replay_lines (log_event ev lines) st0 = Inr (replay_event ev st)"
    by (simp add: log_event_append [of ev lines] replay_lines_append replay_event_line)
  then show ?case using Cons by simp
qed simp


definition meta_of :: "nat \<Rightarrow> bytes \<Rightarrow> bytes \<Rightarrow> sst_meta" where
  "meta_of i a b = \<lparr>sst_id = i, first_key = a, last_key = b, file_size = 1, entry_count = 1\<rparr>"


section \<open>Empty keys\<close>

lemma replay_after_empty_key:
  assumes "first_key m = []"
  shows "manifest_open (log_add level m lines) \<noteq> Inr ls"
  using replay_add_empty_key [OF assms, of level]
  by (cases "replay_lines lines level_state_new")
    (auto simp: manifest_open_def log_append(1) [of level m lines] replay_lines_append)

lemma compact_levels_none:
  assumes "\<forall>l \<in> set ls. 1 \<le> l \<and> l < MAX_LEVEL_COUNT \<and> levels (level_st s) ! l = []"
  shows "compact_levels crc limit ls s = Inr s"
  using assms by (induction ls) (simp_all add: level_size_limit_def level_size_def)

lemma maybe_compact_none:
  assumes "levels (level_st s) = l0 # replicate 6 []" "length l0 < MAX_L0_SSTABLE_COUNT"
  shows "maybe_compact crc limit s = Inr s"
proof -
  have "levels (level_st s) ! l = []" if "1 \<le> l" "l < MAX_LEVEL_COUNT" for l
    using assms(1) that by (cases l) (auto simp: MAX_LEVEL_COUNT_def)
  then have "compact_levels crc limit [1..<MAX_LEVEL_COUNT - 1] s = Inr s" by (intro compact_levels_none) auto
  then show ?thesis using assms by (simp add: maybe_compact_def)
qed

lemma new_levels: "levels level_state_new = [] # replicate 6 []"
  by (simp add: level_state_new_def MAX_LEVEL_COUNT_def eval_nat_numeral)

text \<open>
  C37. Storing the empty key makes the tree unopenable.  The put is accepted and the flush succeeds, but
  the line it adds to the manifest has an empty field, so every later open of the tree fails.
\<close>

theorem empty_key_breaks_reopen:
  assumes "length val \<le> 4000"
  shows "\<exists>t0 t1 t2. lsm_open crc (2 ^ 20) [] Map.empty = Inr t0 \<and> lsm_put crc [] val t0 = Inr t1 \<and>
    flush_memtable crc t1 = Inr t2 \<and> (\<forall>t3. lsm_open crc limit (manifest (lsm_st t2)) (files (lsm_st t2)) \<noteq> Inr t3)"
proof -
  define s0 where "s0 = \<lparr>level_st = level_state_new, manifest = [], readers = Map.empty, files = Map.empty\<rparr>"
  define t0 where "t0 = \<lparr>memt = memtable_new, immutable_memtables = [], lsm_st = s0, memtable_size_limit = 2 ^ 20\<rparr>"
  define es :: "entry list" where "es = [([], Some val)]"
  define t1 where "t1 = t0\<lparr>memt := \<lparr>mt_entries = es, mt_size_bytes = length val + 32\<rparr>\<rparr>"
  have o: "lsm_open crc (2 ^ 20) [] Map.empty = Inr t0"
    by (simp add: lsm_open_def manifest_open_def t0_def s0_def level_state_new_def)
  have pt: "lsm_put crc [] val t0 = Inr t1"
    using assms by (simp add: lsm_put_def t0_def t1_def es_def memtable_put_def memtable_new_def Let_def ENTRY_OVERHEAD_BYTES_def)
  have fit: "table_fits es" "keys_sorted es" using assms by (simp_all add: es_def table_fits_def fits_eval total_size_def)
  obtain m data r where w: "write_sstable crc 1 es = Inr (Some (m, data))" "reader_open crc 1 data = Inr r"
    "reader_holds crc r es" "rd_meta r = m" "sst_id m = 1" "first_key m = fst (hd es)"
    "last_key m = fst (last es)" "entry_count m = length es" "file_size m = length data"
    by (rule write_then_open [OF fit, of crc 1])
  define s1 where "s1 = \<lparr>level_st = \<lparr>levels = [m] # replicate 6 [], next_sst_id = Suc (Suc 0)\<rparr>,
    manifest = log_add 0 m [], readers = [1 \<mapsto> r], files = [1 \<mapsto> data]\<rparr>"
  have "maybe_compact crc (2 ^ 20) s1 = Inr s1"
    by (rule maybe_compact_none [of _ "[m]"]) (simp_all add: s1_def MAX_L0_SSTABLE_COUNT_def)
  then have fl: "flush_memtable crc t1 = Inr (t0\<lparr>lsm_st := s1\<rparr>)"
    using w(1,2,5) new_levels
    by (simp add: flush_memtable_def lsm_flush_def flush_swap_def memtable_is_empty_def next_id_def flush_write_def
      flush_publish_def Let_def t1_def t0_def s0_def s1_def es_def level_state_new_def)
  have "manifest_open (log_add 0 m []) \<noteq> Inr ls" for ls using w(6) by (intro replay_after_empty_key) (simp add: es_def)
  then have "lsm_open crc limit (manifest s1) (files s1) \<noteq> Inr t3" for t3
    by (cases "manifest_open (log_add 0 m [])") (auto simp: lsm_open_def s1_def)
  then show ?thesis using o pt fl by (intro exI [of _ t0] exI [of _ t1] exI [of _ "t0\<lparr>lsm_st := s1\<rparr>"]) simp
qed

theorem empty_key_breaks_reopen_witness:
  "\<exists>t0 t1 t2. lsm_open (\<lambda>_. 0) (2 ^ 20) [] Map.empty = Inr t0 \<and> lsm_put (\<lambda>_. 0) [] [7] t0 = Inr t1 \<and>
    flush_memtable (\<lambda>_. 0) t1 = Inr t2 \<and> (\<forall>t3. lsm_open (\<lambda>_. 0) 64 (manifest (lsm_st t2)) (files (lsm_st t2)) \<noteq> Inr t3)"
  by (rule empty_key_breaks_reopen) simp

section \<open>The order of a replayed level\<close>

lemma written_meta_ok:
  assumes fit: "table_fits es" and w: "write_sstable crc sid es = Inr (Some (m, data))" and sid: "sid < 2 ^ 64"
  shows "meta_ok m"
proof -
  obtain bs where bs: "concat bs = es" "layout_small crc bs"
    "\<And>sid. write_sstable crc sid es = Inr (Some (layout_meta crc sid bs, layout_file crc bs))"
    by (rule write_sstable_layout [OF fit, of crc]) blast
  then have m: "m = layout_meta crc sid bs" using w by simp
  have ok: "\<forall>b \<in> set bs. block_ok b" using bs(2) by (simp add: layout_small_def)
  have "length (footer_body f) = 28" for f by (simp add: footer_body_def)
  then have "file_size m = BLOCK_SIZE * length bs + length (layout_bloom crc bs) + length (layout_index bs) + 32"
    using length_concat_blocks [OF ok] by (simp add: m layout_meta_def layout_file_def)
  then have "file_size m < 2 ^ 64" using bs(2) by (simp add: layout_small_def)
  moreover have "entry_count m \<le> 2 ^ 28"
    using fit length_le_total_size [of es] bs(1) by (simp add: m layout_meta_def table_fits_def)
  ultimately show ?thesis using sid by (simp add: meta_ok_def m layout_meta_def)
qed

text \<open>A table of one entry in a store, with the file it was written to.\<close>

definition one_table :: "(bytes \<Rightarrow> 32 word) \<Rightarrow> nat \<Rightarrow> bytes \<Rightarrow> bytes \<Rightarrow> sst_meta \<Rightarrow> bytes \<Rightarrow> sst_reader \<Rightarrow> bool" where
  "one_table crc sid k v m data r \<longleftrightarrow> reader_open crc sid data = Inr r \<and> written crc [(k, Some v)] sid m r \<and> meta_ok m \<and>
    first_key m = k \<and> last_key m = k"

lemma one_table_ex:
  assumes "length k \<le> 100" "length v \<le> 100" "sid < 2 ^ 64"
  obtains m data r where "one_table crc sid k v m data r"
proof -
  define es :: "entry list" where "es = [(k, Some v)]"
  have fit: "table_fits es" "keys_sorted es" using assms by (simp_all add: es_def table_fits_def fits_eval total_size_def)
  obtain m data r where w: "write_sstable crc sid es = Inr (Some (m, data))" "reader_open crc sid data = Inr r"
    "reader_holds crc r es" "rd_meta r = m" "sst_id m = sid" "first_key m = fst (hd es)"
    "last_key m = fst (last es)" "entry_count m = length es" "file_size m = length data"
    by (rule write_then_open [OF fit, of crc sid])
  show thesis using w fit written_meta_ok [OF fit(1) w(1) assms(3)]
    by (intro that [of m data r]) (simp add: one_table_def written_def meta_spans_def table_fits_def es_def)
qed

lemma one_table_facts:
  assumes "one_table crc sid k v m data r" "readers s sid = Some r"
  shows "sst_id m = sid" "tbl s m = [(k, Some v)]" "table_ok crc s m"
  using assms by (auto simp: one_table_def written_def tbl_def reader_holds_def table_ok_def good_reader_def)

lemma reopen_two_tables:
  assumes a: "one_table crc 1 [5] [50] m1 d1 r1" and b: "one_table crc 2 [2] [20] m2 d2 r2"
  shows "lsm_open crc limit (log_add 1 m2 (log_add 1 m1 [])) [1 \<mapsto> d1, 2 \<mapsto> d2] =
    Inr \<lparr>memt = memtable_new, immutable_memtables = [],
      lsm_st = \<lparr>level_st = \<lparr>levels = [] # [m1, m2] # replicate 5 [], next_sst_id = 3\<rparr>,
        manifest = log_add 1 m2 (log_add 1 m1 []), readers = [1 \<mapsto> r1, 2 \<mapsto> r2], files = [1 \<mapsto> d1, 2 \<mapsto> d2]\<rparr>,
      memtable_size_limit = limit\<rparr>"
proof -
  have ids: "sst_id m1 = 1" "sst_id m2 = 2" using a b by (simp_all add: one_table_def written_def)
  have lv: "levels level_state_new = [] # [] # replicate 5 []" by (simp add: new_levels eval_nat_numeral)
  have "list_all event_ok [Log_add 1 m1, Log_add 1 m2]" using a b by (simp add: one_table_def MAX_LEVEL_COUNT_def)
  from replay_events [OF this, of "[]" level_state_new level_state_new]
  have "manifest_open (log_add 1 m2 (log_add 1 m1 [])) = Inr (push_meta 1 m2 (push_meta 1 m1 level_state_new))"
    by (simp add: manifest_open_def)
  also have "push_meta 1 m2 (push_meta 1 m1 level_state_new) = \<lparr>levels = [] # [m1, m2] # replicate 5 [], next_sst_id = 3\<rparr>"
    using lv ids by (simp add: push_meta_def level_state_new_def)
  finally show ?thesis using a b ids by (simp add: lsm_open_def one_table_def)
qed

lemma probe_levels_none: "probe_levels crc rs key (replicate n []) = Inr None"
  by (induction n) (simp_all add: partition_point_def)


end
