(* ===== verification/Mvcc.thy ===== *)
theory Mvcc
  imports Storage_Engine
begin

text \<open>
  Multi-version storage, \<^verbatim>\<open>idb-txn/src/txn/mvcc.rs\<close>: the encoding of versioned keys and values, the
  visibility rule and the point read over a storage engine.  Transaction ids and timestamps are 64-bit
  words.  Proved: versioned keys and values are read back, the versions of a user key sort newest first
  and are exactly the keys between its bounds, and a read returns the newest visible version.
\<close>

section \<open>Model\<close>

type_synonym timestamp = "64 word"
type_synonym txn_id = "64 word"

abbreviation U64_MAX :: "64 word" where "U64_MAX \<equiv> - 1"

definition mvcc_key :: "bytes \<Rightarrow> timestamp \<Rightarrow> bytes" where
  "mvcc_key user_key ts = be_bytes 4 (length user_key) @ user_key @ be_bytes 8 (unat (U64_MAX - ts))"

definition encode_mvcc_key :: "bytes \<Rightarrow> timestamp \<Rightarrow> bytes result" where
  "encode_mvcc_key user_key ts = (if \<not> length user_key \<le> 2 ^ 32 - 1 then Inl Panic else Inr (mvcc_key user_key ts))"

definition decode_mvcc_key :: "bytes \<Rightarrow> (bytes \<times> timestamp) result" where
  "decode_mvcc_key encoded =
    (if length encoded < 12 then Inl StorageCorrupted
     else let key_len = be_val (take 4 encoded) in
       if length encoded \<noteq> 4 + key_len + 8 then Inl StorageCorrupted
       else Inr (take key_len (drop 4 encoded), U64_MAX - of_nat (be_val (take 8 (drop (4 + key_len) encoded)))))"

definition encode_mvcc_key_start :: "bytes \<Rightarrow> bytes result" where
  "encode_mvcc_key_start user_key = encode_mvcc_key user_key U64_MAX"

definition encode_mvcc_key_end :: "bytes \<Rightarrow> bytes result" where
  "encode_mvcc_key_end user_key = encode_mvcc_key user_key 0"

datatype mvcc_value = MValue (writer: txn_id) (version_data: bytes) | MTombstone (writer: txn_id)

definition encode_mvcc_value :: "mvcc_value \<Rightarrow> bytes" where
  "encode_mvcc_value val =
    (case val of
       MValue txn data \<Rightarrow> [1] @ le_bytes 8 (unat txn) @ le_bytes 4 (length data mod 2 ^ 32) @ data
     | MTombstone txn \<Rightarrow> [0] @ le_bytes 8 (unat txn))"

definition decode_mvcc_value :: "bytes \<Rightarrow> mvcc_value result" where
  "decode_mvcc_value encoded =
    (case encoded of
       [] \<Rightarrow> Inl StorageCorrupted
     | tag # rest \<Rightarrow>
         if tag = 1 then
           (if length encoded < 13 then Inl StorageCorrupted
            else let txn = of_nat (le_val (take 8 rest));
                     data_len = le_val (take 4 (drop 8 rest)) in
              if length encoded \<noteq> 13 + data_len then Inl StorageCorrupted
              else Inr (MValue txn (take data_len (drop 12 rest))))
         else if tag = 0 then
           (if length encoded < 9 then Inl StorageCorrupted
            else Inr (MTombstone (of_nat (le_val (take 8 rest)))))
         else Inl StorageCorrupted)"

definition is_visible :: "txn_id \<Rightarrow> timestamp \<Rightarrow> txn_id \<Rightarrow> timestamp \<Rightarrow> (txn_id \<rightharpoonup> timestamp) \<Rightarrow> timestamp \<Rightarrow>
    txn_id set \<Rightarrow> bool" where
  "is_visible version_txn_id version_ts my_txn_id read_ts committed_txns checkpoint_ts known_uncommitted =
    (if version_txn_id = my_txn_id then True
     else case committed_txns version_txn_id of
       Some commit_ts \<Rightarrow> commit_ts \<le> read_ts
     | None \<Rightarrow>
         if version_ts \<le> checkpoint_ts \<and> version_txn_id \<notin> known_uncommitted then version_ts \<le> read_ts
         else False)"

fun mvcc_get_loop :: "(txn_id \<Rightarrow> timestamp \<Rightarrow> bool) \<Rightarrow> bytes \<Rightarrow> (bytes \<times> bytes) list \<Rightarrow> bytes option result" where
  "mvcc_get_loop visible user_key [] = Inr None"
| "mvcc_get_loop visible user_key ((encoded_key, encoded_value) # entries) =
    and_then (decode_mvcc_key encoded_key) (\<lambda>(found_key, version_ts).
      if found_key \<noteq> user_key then Inr None
      else and_then (decode_mvcc_value encoded_value) (\<lambda>mvcc_val.
        if \<not> visible (writer mvcc_val) version_ts then mvcc_get_loop visible user_key entries
        else case mvcc_val of MValue _ data \<Rightarrow> Inr (Some data) | MTombstone _ \<Rightarrow> Inr None))"

definition mvcc_get :: "(bound \<Rightarrow> bound \<Rightarrow> 's \<Rightarrow> (bytes \<times> bytes) list result) \<Rightarrow> bytes \<Rightarrow> (txn_id \<Rightarrow> timestamp \<Rightarrow> bool) \<Rightarrow>
    's \<Rightarrow> bytes option result" where
  "mvcc_get scan user_key visible s =
    and_then (encode_mvcc_key_start user_key) (\<lambda>start.
    and_then (encode_mvcc_key_end user_key) (\<lambda>end.
    and_then (scan (Included start) (Included end) s) (mvcc_get_loop visible user_key)))"

section \<open>Encodings\<close>

lemma be_val_mvcc: "length uk < 2 ^ 32 \<Longrightarrow> be_val (be_bytes 4 (length uk)) = length uk"
  by (simp add: be_val_be_bytes_small)

lemma decode_mvcc_key_encode [simp]:
  assumes "length uk < 2 ^ 32"
  shows "decode_mvcc_key (mvcc_key uk ts) = Inr (uk, ts)"
  using assms be_val_word64 [of "U64_MAX - ts"] by (simp add: decode_mvcc_key_def mvcc_key_def be_val_mvcc Let_def)

lemma decode_mvcc_value_encode [simp]:
  assumes "length data < 2 ^ 32"
  shows "decode_mvcc_value (encode_mvcc_value (MValue txn data)) = Inr (MValue txn data)"
    and "decode_mvcc_value (encode_mvcc_value (MTombstone txn)) = Inr (MTombstone txn)"
  using assms le_val_word64 [of txn]
  by (simp_all add: decode_mvcc_value_def encode_mvcc_value_def le_val_le_bytes_small Let_def)

lemma word64_less [simp]: "unat (w :: 64 word) < 18446744073709551616"
  using unsigned_less [of w] by simp

lemma U64_diff_less: "U64_MAX - a < U64_MAX - b \<longleftrightarrow> b < (a :: 64 word)"
proof -
  have d: "unat (U64_MAX - x) = unat U64_MAX - unat x" for x :: "64 word"
    by (rule unat_sub) (rule word_order.extremum)
  have le: "unat x \<le> unat U64_MAX" for x :: "64 word"
    using word_order.extremum [of x] by (simp only: word_le_nat_alt)
  show ?thesis unfolding word_less_nat_alt d using le [of a] le [of b] by linarith
qed

lemma mvcc_key_less: "mvcc_key uk t1 < mvcc_key uk t2 \<longleftrightarrow> t2 < t1"
proof -
  have "mvcc_key uk t1 < mvcc_key uk t2 \<longleftrightarrow> be_bytes 8 (unat (U64_MAX - t1)) < be_bytes 8 (unat (U64_MAX - t2))"
    by (simp add: mvcc_key_def)
  also have "\<dots> \<longleftrightarrow> U64_MAX - t1 < U64_MAX - t2"
    by (subst be_bytes_less_iff) (simp_all add: word_less_nat_alt)
  finally show ?thesis using U64_diff_less by simp
qed

lemma append_between:
  fixes p k :: bytes
  assumes "p @ a \<le> k" "k \<le> p @ b" "length a = length b"
  shows "\<exists>c. k = p @ c"
  using assms
proof (induction p arbitrary: k)
  case (Cons x p)
  then obtain y ys where k: "k = y # ys" by (cases k) auto
  then have "y = x" "p @ a \<le> ys" "ys \<le> p @ b" using Cons.prems by (auto simp: Cons_le_Cons)
  then show ?case using Cons.IH [of ys] Cons.prems(3) k by auto
qed simp

text \<open>What lies between the bounds of a user key, for keys that decode, is exactly its versions.\<close>

lemma mvcc_range:
  assumes uk: "length uk < 2 ^ 32" and d: "decode_mvcc_key k = Inr (found, ts)" and k: "k = mvcc_key found ts"
    "length found < 2 ^ 32"
  shows "range_contains (Included (mvcc_key uk U64_MAX)) (Included (mvcc_key uk 0)) k \<longleftrightarrow> found = uk"
proof
  assume r: "range_contains (Included (mvcc_key uk U64_MAX)) (Included (mvcc_key uk 0)) k"
  let ?p = "be_bytes 4 (length uk) @ uk"
  have "?p @ be_bytes 8 (unat (U64_MAX - U64_MAX)) \<le> k" "k \<le> ?p @ be_bytes 8 (unat (U64_MAX - 0))"
    using r by (simp_all add: range_contains_def above_def below_def mvcc_key_def)
  from append_between [OF this] obtain c where c: "k = ?p @ c" by auto
  have "be_bytes 4 (length uk) = take 4 k" unfolding c by simp
  also have "\<dots> = be_bytes 4 (length found)" unfolding k(1) mvcc_key_def by simp
  finally have l: "length uk = length found" using uk k(2) be_bytes_eq_iff [of "length uk" 4 "length found"] by simp
  have "uk = take (length uk) (drop 4 k)" unfolding c by simp
  also have "\<dots> = found" unfolding k(1) mvcc_key_def l by simp
  finally show "found = uk" by simp
next
  assume "found = uk"
  then have "\<not> mvcc_key uk ts < mvcc_key uk U64_MAX" "\<not> mvcc_key uk 0 < mvcc_key uk ts"
    by (simp_all add: mvcc_key_less)
  then show "range_contains (Included (mvcc_key uk U64_MAX)) (Included (mvcc_key uk 0)) k"
    unfolding k(1) \<open>found = uk\<close> by (simp add: range_contains_def above_def below_def not_less)
qed

section \<open>Point reads\<close>

text \<open>
  A store of versions: every key is the key of a version and every value decodes.  The version of a user
  key at a timestamp, and what it means to be the newest visible one.
\<close>

definition mvcc_store :: "(bytes \<Rightarrow> bytes option) \<Rightarrow> bool" where
  "mvcc_store f \<longleftrightarrow> (\<forall>k v. f k = Some v \<longrightarrow>
    (\<exists>uk ts. length uk < 2 ^ 32 \<and> k = mvcc_key uk ts) \<and> (\<exists>val. decode_mvcc_value v = Inr val))"

definition version_at :: "(bytes \<Rightarrow> bytes option) \<Rightarrow> bytes \<Rightarrow> timestamp \<Rightarrow> mvcc_value option" where
  "version_at f uk ts = (case f (mvcc_key uk ts) of
     None \<Rightarrow> None
   | Some v \<Rightarrow> (case decode_mvcc_value v of Inr val \<Rightarrow> Some val | Inl _ \<Rightarrow> None))"

definition visible_at :: "(bytes \<Rightarrow> bytes option) \<Rightarrow> bytes \<Rightarrow> (txn_id \<Rightarrow> timestamp \<Rightarrow> bool) \<Rightarrow> timestamp \<Rightarrow> mvcc_value \<Rightarrow> bool" where
  "visible_at f uk visible ts val \<longleftrightarrow> version_at f uk ts = Some val \<and> visible (writer val) ts"

definition newest_visible :: "(bytes \<Rightarrow> bytes option) \<Rightarrow> bytes \<Rightarrow> (txn_id \<Rightarrow> timestamp \<Rightarrow> bool) \<Rightarrow> mvcc_value option \<Rightarrow> bool" where
  "newest_visible f uk visible r \<longleftrightarrow>
    (case r of
       None \<Rightarrow> \<forall>ts val. \<not> visible_at f uk visible ts val
     | Some val \<Rightarrow> \<exists>ts. visible_at f uk visible ts val \<and> (\<forall>ts' val'. visible_at f uk visible ts' val' \<longrightarrow> ts' \<le> ts))"

fun live_data :: "mvcc_value option \<Rightarrow> bytes option" where
  "live_data (Some (MValue _ data)) = Some data"
| "live_data _ = None"

lemma newest_visible_unique:
  assumes "newest_visible f uk visible r" "newest_visible f uk visible r'"
  shows "r = r'"
proof (cases r)
  case None
  then show ?thesis using assms by (cases r') (auto simp: newest_visible_def)
next
  case (Some val)
  then obtain ts where ts: "visible_at f uk visible ts val" "\<And>ts' val'. visible_at f uk visible ts' val' \<Longrightarrow> ts' \<le> ts"
    using assms(1) by (auto simp: newest_visible_def)
  then obtain val' where v': "r' = Some val'" using assms(2) by (cases r') (auto simp: newest_visible_def)
  then obtain ts' where "visible_at f uk visible ts' val'" "ts \<le> ts'" using assms(2) ts(1) by (auto simp: newest_visible_def)
  moreover have "ts' \<le> ts" using ts(2) calculation(1) by blast
  ultimately have "ts' = ts" by simp
  then show ?thesis using Some v' ts(1) \<open>visible_at f uk visible ts' val'\<close> by (simp add: visible_at_def)
qed

definition entry_visible :: "bytes \<Rightarrow> (txn_id \<Rightarrow> timestamp \<Rightarrow> bool) \<Rightarrow> (bytes \<times> bytes) list \<Rightarrow> timestamp \<Rightarrow> mvcc_value \<Rightarrow> bool" where
  "entry_visible uk visible xs ts val \<longleftrightarrow> (\<exists>v. (mvcc_key uk ts, v) \<in> set xs \<and> decode_mvcc_value v = Inr val) \<and> visible (writer val) ts"

lemma mvcc_get_loop_ok:
  assumes uk: "length uk < 2 ^ 32" and "keys_sorted xs"
    and "\<forall>(k, v) \<in> set xs. (\<exists>ts. k = mvcc_key uk ts) \<and> (\<exists>val. decode_mvcc_value v = Inr val)"
  shows "\<exists>r. mvcc_get_loop visible uk xs = Inr (live_data r) \<and>
    (case r of
       None \<Rightarrow> \<forall>ts val. \<not> entry_visible uk visible xs ts val
     | Some val \<Rightarrow> \<exists>ts. entry_visible uk visible xs ts val \<and> (\<forall>ts' val'. entry_visible uk visible xs ts' val' \<longrightarrow> ts' \<le> ts))"
  using assms(2,3)
proof (induction xs)
  case Nil
  then show ?case by (intro exI [of _ None]) (simp add: entry_visible_def)
next
  case (Cons e xs)
  obtain ts v val where e: "e = (mvcc_key uk ts, v)" "decode_mvcc_value v = Inr val"
    using Cons.prems(2) by (cases e) fastforce
  have newer: "ts' \<le> ts" if "entry_visible uk visible xs ts' val'" for ts' val'
  proof -
    from that obtain v' where "(mvcc_key uk ts', v') \<in> set xs" by (auto simp: entry_visible_def)
    then have "mvcc_key uk ts < mvcc_key uk ts'" using Cons.prems(1) e(1) by auto
    then show ?thesis by (simp add: mvcc_key_less)
  qed
  show ?case
  proof (cases "visible (writer val) ts")
    case True
    have inj: "ts' = ts" if "mvcc_key uk ts' = mvcc_key uk ts" for ts'
      using arg_cong [OF that, of decode_mvcc_key] uk by simp
    have "entry_visible uk visible (e # xs) ts val" using True e by (auto simp: entry_visible_def)
    moreover have "ts' \<le> ts" if "entry_visible uk visible (e # xs) ts' val'" for ts' val'
      using that newer [of ts' val'] inj [of ts'] e(1) by (auto simp: entry_visible_def)
    ultimately show ?thesis using True e uk
      by (intro exI [of _ "Some val"]) (auto split: mvcc_value.split)
  next
    case False
    have same: "entry_visible uk visible (e # xs) ts' val' = entry_visible uk visible xs ts' val'" for ts' val'
    proof -
      have "ts' = ts" if "mvcc_key uk ts' = mvcc_key uk ts" using arg_cong [OF that, of decode_mvcc_key] uk by simp
      then show ?thesis using False e by (auto simp: entry_visible_def)
    qed
    have "mvcc_get_loop visible uk (e # xs) = mvcc_get_loop visible uk xs" using False e uk by simp
    then show ?thesis using Cons.IH Cons.prems unfolding same by simp
  qed
qed

context storage_engine
begin

text \<open>Scanning between the bounds of a user key lists exactly its versions.\<close>

lemma scan_user_key:
  assumes inv: "inv s" and st: "mvcc_store (view s)" and uk: "length uk < 2 ^ 32"
  shows "\<exists>xs. scan (Included (mvcc_key uk U64_MAX)) (Included (mvcc_key uk 0)) s = Inr xs \<and> keys_sorted xs \<and>
    (\<forall>(k, v) \<in> set xs. (\<exists>ts. k = mvcc_key uk ts) \<and> (\<exists>val. decode_mvcc_value v = Inr val)) \<and>
    (\<forall>ts val. (\<exists>v. (mvcc_key uk ts, v) \<in> set xs \<and> decode_mvcc_value v = Inr val) \<longleftrightarrow> version_at (view s) uk ts = Some val)"
proof -
  let ?lo = "Included (mvcc_key uk U64_MAX)" and ?hi = "Included (mvcc_key uk 0)"
  have ok: "range_ok ?lo ?hi"
    using mvcc_key_less [of uk 0 U64_MAX] by (simp add: range_ok_def not_less [symmetric])
  obtain xs where xs: "scan ?lo ?hi s = Inr xs" "keys_sorted xs" using scan_view [OF inv ok] by blast
  have mem: "(k, v) \<in> set xs \<longleftrightarrow> range_contains ?lo ?hi k \<and> view s k = Some v" for k v
    by (rule scan_exact [OF inv ok xs(1)])
  have wf: "(\<exists>ts. k = mvcc_key uk ts) \<and> (\<exists>val. decode_mvcc_value v = Inr val)" if kv: "(k, v) \<in> set xs" for k v
  proof -
    have r: "range_contains ?lo ?hi k" "view s k = Some v" using kv mem by blast+
    then obtain uk' ts val where k: "length uk' < 2 ^ 32" "k = mvcc_key uk' ts" "decode_mvcc_value v = Inr val"
      using st unfolding mvcc_store_def by blast
    then have "uk' = uk" using mvcc_range [OF uk _ k(2,1)] r(1) by simp
    then show ?thesis using k by blast
  qed
  have "range_contains ?lo ?hi (mvcc_key uk ts)" for ts using mvcc_range [OF uk, of "mvcc_key uk ts" uk ts] uk by simp
  then have "(\<exists>v. (mvcc_key uk ts, v) \<in> set xs \<and> decode_mvcc_value v = Inr val) \<longleftrightarrow> version_at (view s) uk ts = Some val" for ts val
    by (auto simp: version_at_def mem split: option.splits sum.splits)
  then show ?thesis using xs wf by blast
qed

lemma mvcc_get_newest:
  assumes inv: "inv s" and st: "mvcc_store (view s)" and uk: "length uk < 2 ^ 32"
  shows "\<exists>r. mvcc_get scan uk visible s = Inr (live_data r) \<and> newest_visible (view s) uk visible r"
proof -
  obtain xs where xs: "scan (Included (mvcc_key uk U64_MAX)) (Included (mvcc_key uk 0)) s = Inr xs" "keys_sorted xs"
    "\<forall>(k, v) \<in> set xs. (\<exists>ts. k = mvcc_key uk ts) \<and> (\<exists>val. decode_mvcc_value v = Inr val)"
    "\<And>ts val. (\<exists>v. (mvcc_key uk ts, v) \<in> set xs \<and> decode_mvcc_value v = Inr val) \<longleftrightarrow> version_at (view s) uk ts = Some val"
    using scan_user_key [OF assms] by blast
  have vis: "entry_visible uk visible xs ts val \<longleftrightarrow> visible_at (view s) uk visible ts val" for ts val
    unfolding entry_visible_def visible_at_def xs(4) ..
  from mvcc_get_loop_ok [OF uk xs(2,3), of visible] obtain r where
    r: "mvcc_get_loop visible uk xs = Inr (live_data r)" "newest_visible (view s) uk visible r"
    unfolding newest_visible_def vis by blast
  moreover have "mvcc_get scan uk visible s = mvcc_get_loop visible uk xs"
    using uk xs(1) by (simp add: mvcc_get_def encode_mvcc_key_start_def encode_mvcc_key_end_def encode_mvcc_key_def)
  ultimately show ?thesis by auto
qed

end

end
