(* ===== verification/Mvcc_Scan.thy ===== *)
theory Mvcc_Scan
  imports Mvcc
begin

text \<open>
  The range scan over versions, \<^verbatim>\<open>MvccScan\<close> and \<^verbatim>\<open>mvcc_scan\<close> of \<^verbatim>\<open>idb-txn/src/txn/mvcc.rs\<close>.  Versioned keys
  start with the length of the user key, so the scan visits one bucket per key length: it seeks the next
  occupied bucket, intersects it with the requested range and keeps the newest visible version of each
  user key.  The search for a bucket may not end for an arbitrary engine and is a partial function; over
  an engine that meets its contract it is proved to end, and the result is exactly the visible live pairs
  of the range.
\<close>

section \<open>Model\<close>

fun inc_carry :: "bytes \<Rightarrow> bytes \<times> bool" where
  "inc_carry [] = ([], True)"
| "inc_carry (b # bs) =
    (case inc_carry bs of (r, carry) \<Rightarrow>
       if \<not> carry then (b # r, False)
       else if b = 0xFF then (0 # r, True) else ((b + 1) # r, False))"

fun dec_borrow :: "bytes \<Rightarrow> bytes \<times> bool" where
  "dec_borrow [] = ([], True)"
| "dec_borrow (b # bs) =
    (case dec_borrow bs of (r, borrow) \<Rightarrow>
       if \<not> borrow then (b # r, False)
       else if b = 0 then (0xFF # r, True) else ((b - 1) # r, False))"

definition min_user_key_at_length_ge :: "bytes \<Rightarrow> nat \<Rightarrow> bytes option" where
  "min_user_key_at_length_ge start l =
    (if l \<ge> length start then Some (start @ replicate (l - length start) 0)
     else case inc_carry (take l start) of (uk, carry) \<Rightarrow> if carry then None else Some uk)"

definition max_user_key_at_length_le :: "bytes \<Rightarrow> nat \<Rightarrow> bytes option" where
  "max_user_key_at_length_le stop l =
    (if l \<le> length stop then Some (take l stop)
     else case dec_borrow stop of (p, borrow) \<Rightarrow>
       if borrow then None else Some (p @ replicate (l - length p) 0xFF))"

fun resolve_bucket :: "(txn_id \<Rightarrow> timestamp \<Rightarrow> bool) \<Rightarrow> bytes option \<Rightarrow> bool \<Rightarrow> (bytes \<times> bytes) list \<Rightarrow> (bytes \<times> bytes) list result" where
  "resolve_bucket visible current_user_key found_visible [] = Inr []"
| "resolve_bucket visible current_user_key found_visible ((encoded_key, encoded_value) # entries) =
    and_then (decode_mvcc_key encoded_key) (\<lambda>(user_key, version_ts).
      let found_visible = (if current_user_key \<noteq> Some user_key then False else found_visible) in
      if found_visible then resolve_bucket visible (Some user_key) found_visible entries
      else and_then (decode_mvcc_value encoded_value) (\<lambda>mvcc_val.
        if \<not> visible (writer mvcc_val) version_ts then resolve_bucket visible (Some user_key) found_visible entries
        else case mvcc_val of
          MValue _ data \<Rightarrow> and_then (resolve_bucket visible (Some user_key) True entries) (\<lambda>rest. Inr ((user_key, data) # rest))
        | MTombstone _ \<Rightarrow> resolve_bucket visible (Some user_key) True entries))"

partial_function (option) arm_next_bucket :: "(bound \<Rightarrow> bound \<Rightarrow> 's \<Rightarrow> (bytes \<times> bytes) list result) \<Rightarrow> bytes \<Rightarrow> bytes \<Rightarrow>
    's \<Rightarrow> bytes \<Rightarrow> ((bytes \<times> bytes) list \<times> bytes \<times> bool) option result option" where
  "arm_next_bucket scan start_key end_key s probe_pos =
    (case scan (Included probe_pos) Unbounded s of
       Inl e \<Rightarrow> Some (Inl e)
     | Inr [] \<Rightarrow> Some (Inr None)
     | Inr ((probe_key, _) # _) \<Rightarrow>
         if length probe_key < 4 then Some (Inr None)
         else let bucket_len = be_val (take 4 probe_key) in
           if length probe_key \<noteq> 4 + bucket_len + 8 then Some (Inr None)
           else let last_bucket = (\<not> bucket_len + 1 < 2 ^ 32);
                    probe_pos = (if last_bucket then probe_pos else be_bytes 4 (bucket_len + 1)) in
             case (min_user_key_at_length_ge start_key bucket_len, max_user_key_at_length_le end_key bucket_len) of
               (Some min_uk, Some max_uk) \<Rightarrow>
                 if min_uk \<le> max_uk then
                   Some (and_then (encode_mvcc_key_start min_uk) (\<lambda>scan_start.
                     and_then (encode_mvcc_key_end max_uk) (\<lambda>scan_end.
                     and_then (scan (Included scan_start) (Included scan_end) s) (\<lambda>inner.
                       Inr (Some (inner, probe_pos, last_bucket))))))
                 else if last_bucket then Some (Inr None) else arm_next_bucket scan start_key end_key s probe_pos
             | _ \<Rightarrow> if last_bucket then Some (Inr None) else arm_next_bucket scan start_key end_key s probe_pos)"

partial_function (option) mvcc_scan_loop :: "(bound \<Rightarrow> bound \<Rightarrow> 's \<Rightarrow> (bytes \<times> bytes) list result) \<Rightarrow> (txn_id \<Rightarrow> timestamp \<Rightarrow> bool) \<Rightarrow>
    bytes \<Rightarrow> bytes \<Rightarrow> 's \<Rightarrow> bytes \<Rightarrow> (bytes \<times> bytes) list result option" where
  "mvcc_scan_loop scan visible start_key end_key s probe_pos =
    Option.bind (arm_next_bucket scan start_key end_key s probe_pos) (\<lambda>armed.
      case armed of
        Inl e \<Rightarrow> Some (Inl e)
      | Inr None \<Rightarrow> Some (Inr [])
      | Inr (Some (inner, probe_pos, last_bucket)) \<Rightarrow>
          case resolve_bucket visible None False inner of
            Inl e \<Rightarrow> Some (Inl e)
          | Inr out \<Rightarrow>
              if last_bucket then Some (Inr out)
              else Option.bind (mvcc_scan_loop scan visible start_key end_key s probe_pos) (\<lambda>more.
                Some (and_then more (\<lambda>rest. Inr (out @ rest)))))"

definition mvcc_scan :: "(bound \<Rightarrow> bound \<Rightarrow> 's \<Rightarrow> (bytes \<times> bytes) list result) \<Rightarrow> bytes \<Rightarrow> bytes \<Rightarrow>
    (txn_id \<Rightarrow> timestamp \<Rightarrow> bool) \<Rightarrow> 's \<Rightarrow> (bytes \<times> bytes) list result option" where
  "mvcc_scan scan start_key end_key visible s = mvcc_scan_loop scan visible start_key end_key s (replicate 12 0)"

section \<open>Bucket bounds\<close>

lemma inc_carry_length [simp]: "length (fst (inc_carry p)) = length p"
  by (induction p) (auto split: prod.splits)

lemma dec_borrow_length [simp]: "length (fst (dec_borrow p)) = length p"
  by (induction p) (auto split: prod.splits)

lemma byte_inc_le: "b \<noteq> 0xFF \<Longrightarrow> (b + 1 \<le> (c :: byte)) = (b < c)"
  by unat_arith auto

lemma byte_dec_le: "b \<noteq> 0 \<Longrightarrow> (c \<le> b - (1 :: byte)) = (c < b)"
  by unat_arith

lemma byte_le_max: "(b :: byte) \<le> 0xFF"
  by unat_arith auto

lemma inc_carry_order:
  assumes "length uk = length p"
  shows "if snd (inc_carry p) then \<not> p < uk \<and> fst (inc_carry p) \<le> uk else (fst (inc_carry p) \<le> uk) = (p < uk)"
  using assms
proof (induction p arbitrary: uk)
  case (Cons b p)
  then obtain c us where uk: "uk = c # us" "length us = length p" by (cases uk) auto
  note IH = Cons.IH [OF uk(2)]
  show ?case
    using IH byte_inc_le [of b c] byte_le_max [of c] uk(1)
    by (cases "inc_carry p") (auto simp: Cons_le_Cons Cons_less_Cons le_less not_less split: if_splits)
qed simp

lemma dec_borrow_order:
  assumes "length uk = length p"
  shows "if snd (dec_borrow p) then \<not> uk < p \<and> uk \<le> fst (dec_borrow p) else (uk \<le> fst (dec_borrow p)) = (uk < p)"
  using assms
proof (induction p arbitrary: uk)
  case (Cons b p)
  then obtain c us where uk: "uk = c # us" "length us = length p" by (cases uk) auto
  note IH = Cons.IH [OF uk(2)]
  show ?case
    using IH byte_dec_le [of b c] byte_le_max [of c] uk(1)
    by (cases "dec_borrow p") (auto simp: Cons_le_Cons Cons_less_Cons le_less not_less word_gt_0 split: if_splits)
qed simp

text \<open>
  The bounds of a bucket are exact: among the keys of one length, those at or above \<^verbatim>\<open>start\<close> are those at or
  above the lower bound, and there are none when it is missing; likewise for the upper bound.
\<close>

lemma same_length_append_le:
  fixes a :: bytes
  assumes "length a = length b" "length c = length d" "c \<le> d"
  shows "a @ c \<le> b @ d \<longleftrightarrow> a \<le> b"
  using assms by (induction a b rule: list_induct2) (auto simp: Cons_le_Cons)

lemma take_less_iff:
  fixes uk :: bytes
  assumes "length uk < length start"
  shows "start \<le> uk \<longleftrightarrow> take (length uk) start < uk"
  using assms
proof (induction uk arbitrary: start)
  case Nil
  then show ?case by (cases start) auto
next
  case (Cons b uk)
  then obtain c rest where "start = c # rest" by (cases start) auto
  then show ?case using Cons by (auto simp: Cons_le_Cons Cons_less_Cons)
qed

lemma take_le_iff:
  fixes uk :: bytes
  assumes "length uk \<le> length stop"
  shows "uk \<le> stop \<longleftrightarrow> uk \<le> take (length uk) stop"
  using assms
proof (induction uk arbitrary: stop)
  case (Cons b uk)
  then obtain c rest where st: "stop = c # rest" "length uk \<le> length rest" by (cases stop) auto
  have "uk \<le> rest \<longleftrightarrow> uk \<le> take (length uk) rest" by (rule Cons.IH [OF st(2)])
  then show ?case unfolding st(1) by (simp add: Cons_le_Cons)
qed simp

lemma zeros_le: "replicate (length uk) 0 \<le> (uk :: bytes)"
  by (induction uk) (auto simp: Cons_le_Cons le_less word_gt_0)

lemma le_ones: "(uk :: bytes) \<le> replicate (length uk) 0xFF"
  using byte_le_max by (induction uk) (auto simp: Cons_le_Cons le_less)

lemma min_user_key_ge:
  assumes "length uk = l"
  shows "start \<le> uk \<longleftrightarrow> (\<exists>m. min_user_key_at_length_ge start l = Some m \<and> m \<le> uk)"
proof (cases "l \<ge> length start")
  case True
  define a where "a = take (length start) uk"
  define d where "d = drop (length start) uk"
  have uk: "uk = a @ d" "length a = length start" "length d = l - length start"
    using assms True by (auto simp: a_def d_def)
  have "start \<le> uk \<longleftrightarrow> start \<le> a"
    using uk same_length_append_le [of start a "[]" "[]"] take_le_iff [of start uk] by (simp add: a_def)
  moreover have "start @ replicate (l - length start) 0 \<le> uk \<longleftrightarrow> start \<le> a"
    unfolding uk(1) using zeros_le [of d] uk(2,3) by (intro same_length_append_le) simp_all
  ultimately show ?thesis using True by (simp add: min_user_key_at_length_ge_def)
next
  case False
  then have "start \<le> uk \<longleftrightarrow> take l start < uk" using take_less_iff [of uk start] assms by simp
  then show ?thesis using False inc_carry_order [of uk "take l start"] assms
    by (auto simp: min_user_key_at_length_ge_def split: prod.splits if_splits)
qed

lemma max_user_key_le:
  assumes "length uk = l"
  shows "uk \<le> stop \<longleftrightarrow> (\<exists>m. max_user_key_at_length_le stop l = Some m \<and> uk \<le> m)"
proof (cases "l \<le> length stop")
  case True
  then have "uk \<le> stop \<longleftrightarrow> uk \<le> take l stop" using take_le_iff [of uk stop] unfolding assms by blast
  then show ?thesis using True unfolding max_user_key_at_length_le_def by auto
next
  case False
  define a where "a = take (length stop) uk"
  define d where "d = drop (length stop) uk"
  have uk: "uk = a @ d" "length a = length stop" "length d = l - length stop"
    using assms False by (auto simp: a_def d_def)
  have up: "uk \<le> stop \<longleftrightarrow> a < stop"
    unfolding a_def using False assms by (intro take_less_iff) simp
  obtain p b where p: "dec_borrow stop = (p, b)" "length p = length stop"
    using dec_borrow_length [of stop] by (cases "dec_borrow stop") auto
  have le: "uk \<le> p @ replicate (l - length p) 0xFF \<longleftrightarrow> a \<le> p"
    unfolding uk(1) using le_ones [of d] uk(2,3) p(2) by (intro same_length_append_le) simp_all
  have ord: "if b then \<not> a < stop else (a \<le> p) = (a < stop)"
    using dec_borrow_order [OF uk(2)] unfolding p(1) by (cases b) simp_all
  have m: "max_user_key_at_length_le stop l = (if b then None else Some (p @ replicate (l - length p) 0xFF))"
    using False p(1) by (simp add: max_user_key_at_length_le_def)
  show ?thesis
  proof (cases b)
    case True
    then show ?thesis unfolding up m using ord by simp
  next
    case False
    then show ?thesis unfolding up m using ord le by auto
  qed
qed

lemma min_user_key_length: "min_user_key_at_length_ge start l = Some m \<Longrightarrow> length m = l"
  using inc_carry_length [of "take l start"]
  by (cases "inc_carry (take l start)") (auto simp: min_user_key_at_length_ge_def min_def split: if_splits)

lemma max_user_key_length: "max_user_key_at_length_le stop l = Some m \<Longrightarrow> length m = l"
  using dec_borrow_length [of stop]
  by (cases "dec_borrow stop") (auto simp: max_user_key_at_length_le_def split: if_splits)

section \<open>The order of versioned keys\<close>

definition version_less :: "bytes \<times> timestamp \<Rightarrow> bytes \<times> timestamp \<Rightarrow> bool" where
  "version_less a b \<longleftrightarrow> length (fst a) < length (fst b) \<or>
    length (fst a) = length (fst b) \<and> (fst a < fst b \<or> fst a = fst b \<and> snd b < snd a)"

lemma mvcc_key_less_iff:
  assumes "length u1 < 2 ^ 32" "length u2 < 2 ^ 32"
  shows "mvcc_key u1 t1 < mvcc_key u2 t2 \<longleftrightarrow> version_less (u1, t1) (u2, t2)"
proof (cases "length u1 = length u2")
  case True
  then have "mvcc_key u1 t1 < mvcc_key u2 t2 \<longleftrightarrow>
      u1 < u2 \<or> u1 = u2 \<and> be_bytes 8 (unat (U64_MAX - t1)) < be_bytes 8 (unat (U64_MAX - t2))"
    unfolding mvcc_key_def by (simp add: append_less_same_length)
  also have "\<dots> \<longleftrightarrow> u1 < u2 \<or> u1 = u2 \<and> t2 < t1"
    using mvcc_key_less [of u1 t1 t2] by (simp add: mvcc_key_def)
  finally show ?thesis using True by (simp add: version_less_def)
next
  case False
  then show ?thesis unfolding mvcc_key_def
    using assms be_bytes_less_iff [of "length u1" 4 "length u2"] be_bytes_eq_iff [of "length u1" 4 "length u2"]
    by (simp add: append_less_same_length version_less_def)
qed

definition user_less :: "bytes \<Rightarrow> bytes \<Rightarrow> bool" where
  "user_less a b \<longleftrightarrow> length a < length b \<or> length a = length b \<and> a < b"

lemma user_less_trans: "user_less a b \<Longrightarrow> user_less b c \<Longrightarrow> user_less a c"
  by (auto simp: user_less_def)

lemma user_less_irrefl [simp]: "\<not> user_less a a"
  by (simp add: user_less_def)

lemma version_less_user: "version_less (u1, t1) (u2, t2) \<longleftrightarrow> user_less u1 u2 \<or> u1 = u2 \<and> t2 < t1"
  by (auto simp: version_less_def user_less_def)

definition versions :: "(bytes \<times> bytes) list \<Rightarrow> bool" where
  "versions xs \<longleftrightarrow> (\<forall>(k, v) \<in> set xs. (\<exists>uk ts. length uk < 2 ^ 32 \<and> k = mvcc_key uk ts) \<and> (\<exists>val. decode_mvcc_value v = Inr val))"

definition newest_in :: "(bytes \<times> bytes) list \<Rightarrow> bytes \<Rightarrow> (txn_id \<Rightarrow> timestamp \<Rightarrow> bool) \<Rightarrow> mvcc_value \<Rightarrow> bool" where
  "newest_in xs uk visible val \<longleftrightarrow>
    (\<exists>ts. entry_visible uk visible xs ts val \<and> (\<forall>ts' val'. entry_visible uk visible xs ts' val' \<longrightarrow> ts' \<le> ts))"

lemma mvcc_key_inj:
  assumes "mvcc_key u1 t1 = mvcc_key u2 t2" "length u1 < 2 ^ 32" "length u2 < 2 ^ 32"
  shows "u1 = u2 \<and> t1 = t2"
  using arg_cong [OF assms(1), of decode_mvcc_key] assms(2,3) by simp

lemma mvcc_key_length: "length (mvcc_key uk ts) = 12 + length uk"
  by (simp add: mvcc_key_def)

lemma mvcc_key_inj1:
  assumes "mvcc_key u1 t1 = mvcc_key u2 t2" "length u1 < 2 ^ 32"
  shows "u1 = u2 \<and> t1 = t2"
  using mvcc_key_inj [OF assms] arg_cong [OF assms(1), of length] assms(2) by (simp add: mvcc_key_length)

text \<open>Entries in front of the list, seen from the versions of one user key.\<close>

lemma entry_visible_Cons:
  assumes "length u < 2 ^ 32" "decode_mvcc_value v = Inr val"
  shows "entry_visible uk visible ((mvcc_key u t, v) # xs) ts val' \<longleftrightarrow>
    uk = u \<and> ts = t \<and> val' = val \<and> visible (writer val) t \<or> entry_visible uk visible xs ts val'"
proof -
  have "mvcc_key uk ts = mvcc_key u t \<longleftrightarrow> uk = u \<and> ts = t"
    using mvcc_key_inj1 [of u t uk ts] assms(1) by auto
  then show ?thesis using assms(2) by (auto simp: entry_visible_def)
qed

lemma entry_visible_later:
  assumes s: "keys_sorted ((mvcc_key u t, v) # xs)" and u: "length u < 2 ^ 32" and vs: "versions xs"
    and e: "entry_visible uk visible xs ts val"
  shows "user_less u uk \<or> uk = u \<and> ts < t"
proof -
  from e obtain v' where m: "(mvcc_key uk ts, v') \<in> set xs" by (auto simp: entry_visible_def)
  from m vs have "\<exists>uk' ts'. length uk' < 2 ^ 32 \<and> mvcc_key uk ts = mvcc_key uk' ts'" unfolding versions_def by blast
  then have "length uk < 2 ^ 32" using mvcc_key_inj1 by metis
  moreover have "mvcc_key u t < mvcc_key uk ts" using s m by auto
  ultimately show ?thesis using u by (auto simp: mvcc_key_less_iff version_less_user)
qed

section \<open>One bucket\<close>

definition bucket_result :: "(txn_id \<Rightarrow> timestamp \<Rightarrow> bool) \<Rightarrow> (bytes \<Rightarrow> bool) \<Rightarrow> (bytes \<times> bytes) list \<Rightarrow> (bytes \<times> bytes) list \<Rightarrow> bool" where
  "bucket_result visible skip xs out \<longleftrightarrow> sorted_wrt user_less (map fst out) \<and>
    (\<forall>uk data. (uk, data) \<in> set out \<longleftrightarrow> \<not> skip uk \<and> (\<exists>w. newest_in xs uk visible (MValue w data)))"

lemma newest_in_other:
  assumes "length u < 2 ^ 32" "decode_mvcc_value v = Inr val" "uk \<noteq> u \<or> \<not> visible (writer val) t"
  shows "newest_in ((mvcc_key u t, v) # xs) uk visible val' = newest_in xs uk visible val'"
proof -
  have "entry_visible uk visible ((mvcc_key u t, v) # xs) ts val'' = entry_visible uk visible xs ts val''" for ts val''
    using assms(3) by (auto simp: entry_visible_Cons [OF assms(1,2)])
  then show ?thesis by (simp add: newest_in_def)
qed

lemma newest_in_head:
  assumes s: "keys_sorted ((mvcc_key u t, v) # xs)" and u: "length u < 2 ^ 32" and vs: "versions xs"
    and d: "decode_mvcc_value v = Inr val" and vis: "visible (writer val) t"
  shows "newest_in ((mvcc_key u t, v) # xs) u visible val' \<longleftrightarrow> val' = val"
proof -
  let ?e = "entry_visible u visible ((mvcc_key u t, v) # xs)"
  have h: "?e ts val' \<longleftrightarrow> ts = t \<and> val' = val \<or> entry_visible u visible xs ts val'" for ts val'
    using vis by (auto simp: entry_visible_Cons [OF u d])
  have later: "ts < t" if "entry_visible u visible xs ts val'" for ts val'
    using entry_visible_later [OF s u vs that] by simp
  have le: "ts \<le> t" if "?e ts val'" for ts val'
    using that later [of ts val'] unfolding h by (auto intro: order.strict_implies_order)
  have t: "?e t val' \<longleftrightarrow> val' = val" for val' unfolding h using later [of t val'] by auto
  show ?thesis unfolding newest_in_def
  proof
    assume "\<exists>ts. ?e ts val' \<and> (\<forall>ts' val'. ?e ts' val' \<longrightarrow> ts' \<le> ts)"
    then obtain ts where ts: "?e ts val'" "t \<le> ts" using t by blast
    then have "ts = t" using le [OF ts(1)] by (intro order.antisym)
    then show "val' = val" using ts(1) t by simp
  next
    assume "val' = val"
    then show "\<exists>ts. ?e ts val' \<and> (\<forall>ts' val'. ?e ts' val' \<longrightarrow> ts' \<le> ts)" using t le by blast
  qed
qed

lemma versions_Cons: "versions ((k, v) # xs) \<longleftrightarrow>
    (\<exists>uk ts. length uk < 2 ^ 32 \<and> k = mvcc_key uk ts) \<and> (\<exists>val. decode_mvcc_value v = Inr val) \<and> versions xs"
  by (auto simp: versions_def)

lemma newest_in_later:
  assumes "keys_sorted ((mvcc_key u t, v) # xs)" "length u < 2 ^ 32" "versions xs" "newest_in xs uk visible val"
  shows "uk = u \<or> user_less u uk"
  using assms(4) entry_visible_later [OF assms(1-3)] unfolding newest_in_def by blast

lemma entry_later:
  assumes "keys_sorted ((mvcc_key u t, v) # xs)" "length u < 2 ^ 32" "(mvcc_key uk ts, v') \<in> set xs" "length uk < 2 ^ 32"
  shows "uk = u \<or> user_less u uk"
proof -
  have "mvcc_key u t < mvcc_key uk ts" using assms(1,3) by auto
  then show ?thesis using assms(2,4) by (auto simp: mvcc_key_less_iff version_less_user)
qed

lemma bucket_result_head:
  assumes s: "keys_sorted ((mvcc_key u t, v) # xs)" and u: "length u < 2 ^ 32" and vs: "versions xs"
    and d: "decode_mvcc_value v = Inr val" and vis: "visible (writer val) t"
    and out: "bucket_result visible (\<lambda>uk. u = uk) xs out"
    and skip: "\<not> skip u" "\<And>uk val'. skip uk \<Longrightarrow> \<not> newest_in xs uk visible val'"
  shows "bucket_result visible skip ((mvcc_key u t, v) # xs) ((case val of MValue _ data \<Rightarrow> [(u, data)] | MTombstone _ \<Rightarrow> []) @ out)"
proof -
  have mem: "(uk, data) \<in> set out \<longleftrightarrow> u \<noteq> uk \<and> (\<exists>w. newest_in xs uk visible (MValue w data))" for uk data
    using out by (simp add: bucket_result_def)
  have "user_less u uk" if "uk \<in> fst ` set out" for uk
    using that mem newest_in_later [OF s u vs] by fastforce
  then have "sorted_wrt user_less (map fst ((case val of MValue _ data \<Rightarrow> [(u, data)] | MTombstone _ \<Rightarrow> []) @ out))"
    using out by (auto simp: bucket_result_def split: mvcc_value.split)
  moreover have "(\<exists>w. newest_in ((mvcc_key u t, v) # xs) uk visible (MValue w data)) \<longleftrightarrow>
      (if uk = u then (\<exists>w. val = MValue w data) else (\<exists>w. newest_in xs uk visible (MValue w data)))" for uk data
    using newest_in_head [where visible = visible, OF s u vs d vis] newest_in_other [OF u d, of uk visible t xs] by auto
  ultimately show ?thesis using mem skip by (auto simp: bucket_result_def split: mvcc_value.split)
qed

lemma resolve_bucket_ok:
  assumes "keys_sorted xs" "versions xs"
    and "\<forall>c uk ts v. cur = Some c \<longrightarrow> found \<longrightarrow> length uk < 2 ^ 32 \<longrightarrow> (mvcc_key uk ts, v) \<in> set xs \<longrightarrow> uk = c \<or> user_less c uk"
  shows "\<exists>out. resolve_bucket visible cur found xs = Inr out \<and> bucket_result visible (\<lambda>uk. cur = Some uk \<and> found) xs out"
  using assms
proof (induction xs arbitrary: cur found)
  case Nil
  then show ?case by (simp add: bucket_result_def newest_in_def entry_visible_def)
next
  case (Cons e xs)
  obtain u t v val where e: "e = (mvcc_key u t, v)" "length u < 2 ^ 32" "decode_mvcc_value v = Inr val" and vs: "versions xs"
    using Cons.prems(2) by (cases e) (auto simp: versions_Cons)
  note s = Cons.prems(1) [unfolded e(1)]
  have sx: "keys_sorted xs" using s by simp
  have later: "uk = u \<or> user_less u uk" if "newest_in xs uk visible val'" for uk val'
    by (rule newest_in_later [OF s e(2) vs that])
  let ?f = "cur = Some u \<and> found"
  have IH: "\<exists>out. resolve_bucket visible (Some u) f xs = Inr out \<and> bucket_result visible (\<lambda>uk. u = uk \<and> f) xs out" for f
    using Cons.IH [OF sx vs, of "Some u" f] entry_later [OF s e(2)] by auto
  have gone: "\<not> newest_in xs c visible val'" if c: "cur = Some c" "found" "\<not> ?f" for c val'
  proof
    assume n: "newest_in xs c visible val'"
    have "c \<noteq> u" using c by auto
    moreover have "u = c \<or> user_less c u" using Cons.prems(3) c e(1,2) by auto
    moreover have "c = u \<or> user_less u c" by (rule later [OF n])
    ultimately show False using user_less_trans [of u c u] by simp
  qed
  show ?case
  proof (cases "visible (writer val) t \<and> \<not> ?f")
    case False
    have same: "newest_in (e # xs) uk visible val' = newest_in xs uk visible val'" if "\<not> (cur = Some uk \<and> found)" for uk val'
      unfolding e(1) using False that by (intro newest_in_other [OF e(2,3)]) auto
    obtain out where out: "resolve_bucket visible (Some u) ?f xs = Inr out" "bucket_result visible (\<lambda>uk. u = uk \<and> ?f) xs out"
      using IH by blast
    have "resolve_bucket visible cur found (e # xs) = resolve_bucket visible (Some u) ?f xs"
    proof (cases "cur = Some u")
      case True
      then show ?thesis using False e by (cases found) simp_all
    next
      case other: False
      then show ?thesis using False e by simp
    qed
    moreover have "\<not> (u = uk \<and> ?f) \<and> (\<exists>w. newest_in xs uk visible (MValue w data)) \<longleftrightarrow>
        \<not> (cur = Some uk \<and> found) \<and> (\<exists>w. newest_in (e # xs) uk visible (MValue w data))" for uk data
      using same [of uk] gone [of uk] by blast
    then have "bucket_result visible (\<lambda>uk. cur = Some uk \<and> found) (e # xs) out"
      using out(2) unfolding bucket_result_def by simp
    ultimately show ?thesis using out(1) by auto
  next
    case True
    obtain out where out: "resolve_bucket visible (Some u) True xs = Inr out" "bucket_result visible (\<lambda>uk. u = uk) xs out"
      using IH [of True] by auto
    let ?new = "case val of MValue _ data \<Rightarrow> [(u, data)] | MTombstone _ \<Rightarrow> []"
    have "resolve_bucket visible cur found (e # xs) = Inr (?new @ out)"
      using True e out(1) by (auto simp: Let_def split: mvcc_value.split)
    moreover have "bucket_result visible (\<lambda>uk. cur = Some uk \<and> found) (e # xs) (?new @ out)"
      unfolding e(1) using gone True by (intro bucket_result_head [OF s e(2) vs e(3) _ out(2)]) auto
    ultimately show ?thesis by blast
  qed
qed

section \<open>The sequence of buckets\<close>

definition probe_at :: "bytes \<Rightarrow> nat \<Rightarrow> bool" where
  "probe_at p n \<longleftrightarrow> (\<forall>uk ts. length uk < 2 ^ 32 \<longrightarrow> (p \<le> mvcc_key uk ts \<longleftrightarrow> n \<le> length uk))"

definition present :: "(bytes \<Rightarrow> bytes option) \<Rightarrow> bytes \<Rightarrow> bool" where
  "present f uk \<longleftrightarrow> (\<exists>ts v. f (mvcc_key uk ts) = Some v)"

definition bucket_entries :: "(bytes \<Rightarrow> bytes option) \<Rightarrow> bytes \<Rightarrow> bytes \<Rightarrow> nat \<Rightarrow> (bytes \<times> bytes) list \<Rightarrow> bool" where
  "bucket_entries f a b l xs \<longleftrightarrow> keys_sorted xs \<and>
    (\<forall>k v. (k, v) \<in> set xs \<longleftrightarrow> f k = Some v \<and> (\<exists>uk ts. k = mvcc_key uk ts \<and> length uk = l \<and> a \<le> uk \<and> uk \<le> b))"

lemma append_le_same_length:
  fixes a :: bytes
  assumes "length a = length b"
  shows "a \<le> b @ r \<longleftrightarrow> a \<le> b"
proof -
  have "\<not> b @ r < a @ [] \<longleftrightarrow> \<not> b < a" using assms append_less_same_length [of b a r "[]"] by simp
  then show ?thesis by (simp add: not_less)
qed

lemma probe_at_be:
  assumes "n < 2 ^ 32"
  shows "probe_at (be_bytes 4 n) n"
proof -
  have "be_bytes 4 n \<le> mvcc_key uk ts \<longleftrightarrow> n \<le> length uk" if "length uk < 2 ^ 32" for uk ts
  proof -
    have "be_bytes 4 n \<le> mvcc_key uk ts \<longleftrightarrow> be_bytes 4 n \<le> be_bytes 4 (length uk)"
      unfolding mvcc_key_def by (intro append_le_same_length) simp
    also have "\<dots> \<longleftrightarrow> n \<le> length uk"
      using assms that be_bytes_less_iff [of "length uk" 4 n] by (simp add: not_less [symmetric])
    finally show ?thesis .
  qed
  then show ?thesis by (simp add: probe_at_def)
qed

lemma probe_at_start: "probe_at (replicate 12 0) 0"
  unfolding probe_at_def
proof (intro allI impI)
  fix uk ts
  have "take 12 (mvcc_key uk ts) @ drop 12 (mvcc_key uk ts) = mvcc_key uk ts" by simp
  moreover have "replicate 12 0 \<le> take 12 (mvcc_key uk ts)"
    using zeros_le [of "take 12 (mvcc_key uk ts)"] by (simp add: mvcc_key_length)
  ultimately show "(replicate 12 0 \<le> mvcc_key uk ts) = (0 \<le> length uk)"
    using append_le_same_length [of "replicate 12 0" "take 12 (mvcc_key uk ts)" "drop 12 (mvcc_key uk ts)"]
    by (simp add: mvcc_key_length)
qed

lemma present_length:
  assumes "mvcc_store f" "f (mvcc_key uk ts) = Some v"
  shows "length uk < 2 ^ 32"
proof -
  obtain uk' ts' where "length uk' < 2 ^ 32" "mvcc_key uk ts = mvcc_key uk' ts'"
    using assms unfolding mvcc_store_def by blast
  then show ?thesis using mvcc_key_inj1 by metis
qed

lemma mvcc_bucket_range:
  assumes "length uk < 2 ^ 32" "length mn < 2 ^ 32" "length mx = length mn"
  shows "range_contains (Included (mvcc_key mn U64_MAX)) (Included (mvcc_key mx 0)) (mvcc_key uk ts) \<longleftrightarrow>
    length uk = length mn \<and> mn \<le> uk \<and> uk \<le> mx"
proof -
  have "mvcc_key mn U64_MAX \<le> mvcc_key uk ts \<longleftrightarrow> \<not> version_less (uk, ts) (mn, U64_MAX)"
    using assms mvcc_key_less_iff [of uk mn ts U64_MAX] by (simp add: not_less [symmetric])
  moreover have "mvcc_key uk ts \<le> mvcc_key mx 0 \<longleftrightarrow> \<not> version_less (mx, 0) (uk, ts)"
    using assms mvcc_key_less_iff [of mx uk 0 ts] by (simp add: not_less [symmetric])
  ultimately show ?thesis using assms
    by (auto simp: range_contains_def above_def below_def version_less_def not_less)
qed

lemma no_intersection:
  assumes "\<nexists>mn mx. min_user_key_at_length_ge a l = Some mn \<and> max_user_key_at_length_le b l = Some mx \<and> mn \<le> mx" "length uk = l"
  shows "\<not> (a \<le> uk \<and> uk \<le> b)"
proof
  assume "a \<le> uk \<and> uk \<le> b"
  then have "a \<le> uk" "uk \<le> b" by simp_all
  from iffD1 [OF min_user_key_ge [OF assms(2)] this(1)] obtain mn where mn: "min_user_key_at_length_ge a l = Some mn" "mn \<le> uk" by blast
  from iffD1 [OF max_user_key_le [OF assms(2)] \<open>uk \<le> b\<close>] obtain mx where mx: "max_user_key_at_length_le b l = Some mx" "uk \<le> mx" by blast
  have "mn \<le> mx" by (rule order_trans [OF mn(2) mx(2)])
  then show False using assms(1) mn(1) mx(1) by blast
qed

definition armed_ok :: "(bytes \<Rightarrow> bytes option) \<Rightarrow> bytes \<Rightarrow> bytes \<Rightarrow> nat \<Rightarrow> ((bytes \<times> bytes) list \<times> bytes \<times> bool) option \<Rightarrow> bool" where
  "armed_ok f a b n r \<longleftrightarrow>
    (case r of
       None \<Rightarrow> \<forall>uk. present f uk \<and> a \<le> uk \<and> uk \<le> b \<longrightarrow> length uk < n
     | Some (inner, p, fin) \<Rightarrow> \<exists>l. n \<le> l \<and> l < 2 ^ 32 \<and> bucket_entries f a b l inner \<and>
         (\<forall>uk. present f uk \<and> a \<le> uk \<and> uk \<le> b \<longrightarrow> length uk < n \<or> l \<le> length uk) \<and>
         (if fin then l + 1 = 2 ^ 32 else l + 1 < 2 ^ 32 \<and> probe_at p (l + 1)))"

lemma armed_ok_skip:
  assumes "armed_ok f a b (l + 1) r" "n \<le> l" "\<forall>uk. present f uk \<and> n \<le> length uk \<longrightarrow> l \<le> length uk"
    and "\<forall>uk. length uk = l \<longrightarrow> \<not> (a \<le> uk \<and> uk \<le> b)"
  shows "armed_ok f a b n r"
proof -
  have k: "length uk < n \<or> l + 1 \<le> length uk" if "present f uk" "a \<le> uk" "uk \<le> b" for uk
  proof -
    have "length uk \<noteq> l" using assms(4) that by blast
    moreover have "n \<le> length uk \<longrightarrow> l \<le> length uk" using assms(3) that(1) by blast
    ultimately show ?thesis by linarith
  qed
  show ?thesis
  proof (cases r)
    case None
    have "length uk < n" if "present f uk" "a \<le> uk" "uk \<le> b" for uk
    proof -
      have "length uk < l + 1" using assms(1) that unfolding armed_ok_def None by simp
      then show ?thesis using k [OF that] by linarith
    qed
    then show ?thesis unfolding armed_ok_def None by simp
  next
    case (Some q)
    obtain inner p fin where q: "q = (inner, p, fin)" by (cases q) auto
    obtain l' where l': "l + 1 \<le> l'" "l' < 2 ^ 32" "bucket_entries f a b l' inner"
      "\<forall>uk. present f uk \<and> a \<le> uk \<and> uk \<le> b \<longrightarrow> length uk < l + 1 \<or> l' \<le> length uk"
      "if fin then l' + 1 = 2 ^ 32 else l' + 1 < 2 ^ 32 \<and> probe_at p (l' + 1)"
      using assms(1) unfolding armed_ok_def Some q by auto
    have "length uk < n \<or> l' \<le> length uk" if "present f uk" "a \<le> uk" "uk \<le> b" for uk
    proof -
      have "length uk < l + 1 \<or> l' \<le> length uk" using l'(4) that by blast
      then show ?thesis using k [OF that] by linarith
    qed
    then show ?thesis using l' assms(2) unfolding armed_ok_def Some q
      by (simp only: option.case prod.case) (intro exI [of _ l'] conjI; simp)
  qed
qed

lemma armed_ok_last:
  assumes "l + 1 = 2 ^ 32" "mvcc_store f" "\<forall>uk. present f uk \<and> n \<le> length uk \<longrightarrow> l \<le> length uk"
    and "\<forall>uk. length uk = l \<longrightarrow> \<not> (a \<le> uk \<and> uk \<le> b)"
  shows "armed_ok f a b n None"
proof -
  have "length uk < n" if "present f uk" "a \<le> uk" "uk \<le> b" for uk
  proof (rule ccontr)
    assume "\<not> length uk < n"
    then have "l \<le> length uk" using assms(3) that by auto
    moreover have "length uk < 2 ^ 32" using that(1) present_length [OF assms(2)] unfolding present_def by blast
    ultimately have "length uk = l" using assms(1) by simp
    then show False using assms(4) that by blast
  qed
  then show ?thesis by (simp add: armed_ok_def)
qed

lemma arm_unfold:
  assumes "scan (Included p) Unbounded s = Inr ((mvcc_key u t, v) # rest)" "length u < 2 ^ 32"
  shows "arm_next_bucket scan a b s p =
    (let fin = (\<not> length u + 1 < 2 ^ 32);
         p' = (if fin then p else be_bytes 4 (length u + 1));
         go = (if fin then Some (Inr None) else arm_next_bucket scan a b s p') in
     case (min_user_key_at_length_ge a (length u), max_user_key_at_length_le b (length u)) of
       (Some mn, Some mx) \<Rightarrow>
         if mn \<le> mx then
           Some (and_then (encode_mvcc_key_start mn) (\<lambda>lo. and_then (encode_mvcc_key_end mx) (\<lambda>hi.
             and_then (scan (Included lo) (Included hi) s) (\<lambda>inner. Inr (Some (inner, p', fin))))))
         else go
     | _ \<Rightarrow> go)"
proof -
  have "length (mvcc_key u t) = 4 + length u + 8" "be_val (take 4 (mvcc_key u t)) = length u"
    using assms(2) by (simp_all add: mvcc_key_def be_val_mvcc)
  then show ?thesis by (subst arm_next_bucket.simps) (simp add: assms(1) Let_def split: option.split)
qed

context storage_engine
begin

lemma first_in_bucket:
  assumes inv: "inv s" and st: "mvcc_store (view s)" and p: "probe_at p n"
    and xs: "scan (Included p) Unbounded s = Inr xs"
  shows "(case xs of [] \<Rightarrow> \<forall>uk. present (view s) uk \<longrightarrow> length uk < n
    | (k, v) # _ \<Rightarrow> \<exists>u t. k = mvcc_key u t \<and> length u < 2 ^ 32 \<and> n \<le> length u \<and>
        (\<forall>uk. present (view s) uk \<and> n \<le> length uk \<longrightarrow> length u \<le> length uk))"
proof -
  have ok: "range_ok (Included p) Unbounded" by (simp add: range_ok_def)
  have ks: "keys_sorted xs" using scan_view [OF inv ok] xs by auto
  have mem: "(mvcc_key uk ts, v) \<in> set xs \<longleftrightarrow> n \<le> length uk \<and> view s (mvcc_key uk ts) = Some v" for uk ts v
    using scan_exact [OF inv ok xs, of "mvcc_key uk ts" v] present_length [OF st, of uk ts v] p
    by (auto simp: range_contains_def above_def below_def probe_at_def)
  show ?thesis
  proof (cases xs)
    case Nil
    then show ?thesis using mem unfolding present_def by (auto simp: not_le [symmetric])
  next
    case (Cons e rest)
    obtain k v where e: "e = (k, v)" by (cases e)
    have "view s k = Some v" using scan_exact [OF inv ok xs, of k v] Cons e by simp
    then obtain u t where u: "length u < 2 ^ 32" "k = mvcc_key u t" using st unfolding mvcc_store_def by blast
    have "n \<le> length u" using mem [of u t v] Cons e u(2) by simp
    moreover have "length u \<le> length uk" if "present (view s) uk" "n \<le> length uk" for uk
    proof -
      from that obtain ts v' where v': "view s (mvcc_key uk ts) = Some v'" unfolding present_def by blast
      then have "(mvcc_key uk ts, v') \<in> set xs" using mem that(2) by simp
      then have "\<not> mvcc_key uk ts < mvcc_key u t" using ks Cons e u(2) by auto
      then show ?thesis using mvcc_key_less_iff [of uk u ts t] present_length [OF st v'] u(1)
        by (auto simp: version_less_def)
    qed
    ultimately show ?thesis using Cons e u by auto
  qed
qed

lemma bucket_scan:
  assumes inv: "inv s" and st: "mvcc_store (view s)" and l: "l < 2 ^ 32"
    and m: "min_user_key_at_length_ge a l = Some mn" "max_user_key_at_length_le b l = Some mx" "mn \<le> mx"
  shows "\<exists>xs. scan (Included (mvcc_key mn U64_MAX)) (Included (mvcc_key mx 0)) s = Inr xs \<and> bucket_entries (view s) a b l xs"
proof -
  let ?lo = "Included (mvcc_key mn U64_MAX)" and ?hi = "Included (mvcc_key mx 0)"
  note len = min_user_key_length [OF m(1)] max_user_key_length [OF m(2)]
  have "range_contains ?lo ?hi (mvcc_key mn 0)"
    using mvcc_bucket_range [of mn mn mx 0] len l m(3) by simp
  then have ok: "range_ok ?lo ?hi" by (auto simp: range_ok_def range_contains_def above_def below_def)
  obtain xs where xs: "scan ?lo ?hi s = Inr xs" "keys_sorted xs" using scan_view [OF inv ok] by blast
  have r: "range_contains ?lo ?hi (mvcc_key uk ts) \<longleftrightarrow> length uk = l \<and> a \<le> uk \<and> uk \<le> b" if "length uk < 2 ^ 32" for uk ts
    using mvcc_bucket_range [of uk mn mx ts] that len l m(1,2) min_user_key_ge [of uk l a] max_user_key_le [of uk l b]
    by auto
  have "(k, v) \<in> set xs \<longleftrightarrow> view s k = Some v \<and> (\<exists>uk ts. k = mvcc_key uk ts \<and> length uk = l \<and> a \<le> uk \<and> uk \<le> b)" for k v
  proof (cases "view s k = Some v")
    case True
    then obtain uk ts where "length uk < 2 ^ 32" "k = mvcc_key uk ts" using st unfolding mvcc_store_def by blast
    moreover from this have "(\<exists>uk' ts'. k = mvcc_key uk' ts' \<and> length uk' = l \<and> a \<le> uk' \<and> uk' \<le> b) \<longleftrightarrow>
        length uk = l \<and> a \<le> uk \<and> uk \<le> b"
      using mvcc_key_inj1 by metis
    ultimately show ?thesis using scan_exact [OF inv ok xs(1), of k v] True r by simp
  next
    case False
    then show ?thesis using scan_exact [OF inv ok xs(1), of k v] by simp
  qed
  then show ?thesis using xs unfolding bucket_entries_def by blast
qed

lemma arm_next_bucket_ok:
  assumes inv: "inv s" and st: "mvcc_store (view s)" and "probe_at p n"
  shows "\<exists>r. arm_next_bucket scan a b s p = Some (Inr r) \<and> armed_ok (view s) a b n r"
  using assms(3)
proof (induction "2 ^ 32 - n" arbitrary: n p rule: less_induct)
  case less
  have ok: "range_ok (Included p) Unbounded" by (simp add: range_ok_def)
  obtain xs where xs: "scan (Included p) Unbounded s = Inr xs" using scan_view [OF inv ok] by blast
  note first = first_in_bucket [OF inv st less.prems xs]
  show ?case
  proof (cases xs)
    case Nil
    then show ?thesis using first xs by (simp add: arm_next_bucket.simps armed_ok_def)
  next
    case (Cons e rest)
    then obtain u t v where e: "e = (mvcc_key u t, v)" "length u < 2 ^ 32" "n \<le> length u"
      "\<forall>uk. present (view s) uk \<and> n \<le> length uk \<longrightarrow> length u \<le> length uk"
      using first by (cases e) auto
    define l where "l = length u"
    note hd_facts = e(2-4) [folded l_def]
    let ?fin = "\<not> l + 1 < 2 ^ 32"
    let ?p' = "if ?fin then p else be_bytes 4 (l + 1)"
    let ?go = "if ?fin then Some (Inr None) else arm_next_bucket scan a b s ?p'"
    note arm = arm_unfold [where scan = scan and s = s and p = p and a = a and b = b, OF xs [unfolded Cons e(1)] e(2), folded l_def]
    show ?thesis
    proof (cases "\<exists>mn mx. min_user_key_at_length_ge a l = Some mn \<and> max_user_key_at_length_le b l = Some mx \<and> mn \<le> mx")
      case True
      then obtain mn mx where m: "min_user_key_at_length_ge a l = Some mn" "max_user_key_at_length_le b l = Some mx" "mn \<le> mx" by blast
      obtain ys where ys: "scan (Included (mvcc_key mn U64_MAX)) (Included (mvcc_key mx 0)) s = Inr ys" "bucket_entries (view s) a b l ys"
        using bucket_scan [OF inv st hd_facts(1) m] by blast
      have "arm_next_bucket scan a b s p = Some (Inr (Some (ys, ?p', ?fin)))"
        unfolding arm using m ys(1) hd_facts(1) min_user_key_length [OF m(1)] max_user_key_length [OF m(2)]
        by (simp add: Let_def encode_mvcc_key_start_def encode_mvcc_key_end_def encode_mvcc_key_def)
      moreover have "armed_ok (view s) a b n (Some (ys, ?p', ?fin))"
        unfolding armed_ok_def option.case prod.case using hd_facts ys(2) probe_at_be [of "l + 1"]
        by (intro exI [of _ l]) (auto simp: not_less)
      ultimately show ?thesis by blast
    next
      case False
      have go: "arm_next_bucket scan a b s p = ?go" unfolding arm Let_def using False by (auto split: option.split)
      have none: "\<forall>uk. length uk = l \<longrightarrow> \<not> (a \<le> uk \<and> uk \<le> b)"
        using no_intersection [OF False] by blast
      show ?thesis
      proof (cases ?fin)
        case True
        then have "armed_ok (view s) a b n None"
          using hd_facts none by (intro armed_ok_last [OF _ st, of l]) auto
        then show ?thesis using go True by simp
      next
        case False
        have dec: "2 ^ 32 - (l + 1) < 2 ^ 32 - n" using False hd_facts(2) by linarith
        have probe: "probe_at (be_bytes 4 (l + 1)) (l + 1)" using False by (intro probe_at_be) simp
        obtain r where "arm_next_bucket scan a b s (be_bytes 4 (l + 1)) = Some (Inr r)" "armed_ok (view s) a b (l + 1) r"
          using less.hyps [OF dec probe] by blast
        then show ?thesis using go False armed_ok_skip [OF _ hd_facts(2,3) none] by auto
      qed
    qed
  qed
qed

end

section \<open>The whole scan\<close>

definition live_in_range :: "(bytes \<Rightarrow> bytes option) \<Rightarrow> (txn_id \<Rightarrow> timestamp \<Rightarrow> bool) \<Rightarrow> bytes \<Rightarrow> bytes \<Rightarrow> bytes \<Rightarrow> bytes \<Rightarrow> bool" where
  "live_in_range f visible a b uk data \<longleftrightarrow> a \<le> uk \<and> uk \<le> b \<and> (\<exists>w. newest_visible f uk visible (Some (MValue w data)))"

definition scan_result :: "(bytes \<Rightarrow> bytes option) \<Rightarrow> (txn_id \<Rightarrow> timestamp \<Rightarrow> bool) \<Rightarrow> bytes \<Rightarrow> bytes \<Rightarrow> nat \<Rightarrow> (bytes \<times> bytes) list \<Rightarrow> bool" where
  "scan_result f visible a b n out \<longleftrightarrow> sorted_wrt user_less (map fst out) \<and>
    (\<forall>uk data. (uk, data) \<in> set out \<longleftrightarrow> n \<le> length uk \<and> live_in_range f visible a b uk data)"

lemma newest_visible_present: "newest_visible f uk visible (Some val) \<Longrightarrow> present f uk"
  by (auto simp: newest_visible_def visible_at_def version_at_def present_def split: option.splits)

lemma live_in_rangeD: "live_in_range f visible a b uk data \<Longrightarrow> present f uk \<and> a \<le> uk \<and> uk \<le> b"
  by (auto simp: live_in_range_def dest: newest_visible_present)

lemma newest_in_bucket:
  assumes be: "bucket_entries f a b l xs" and l: "l < 2 ^ 32"
  shows "newest_in xs uk visible val \<longleftrightarrow> length uk = l \<and> a \<le> uk \<and> uk \<le> b \<and> newest_visible f uk visible (Some val)"
proof -
  have "(mvcc_key uk ts, v) \<in> set xs \<longleftrightarrow> length uk = l \<and> a \<le> uk \<and> uk \<le> b \<and> f (mvcc_key uk ts) = Some v" for ts v
    using be l mvcc_key_inj1 unfolding bucket_entries_def by metis
  then have "entry_visible uk visible xs ts val \<longleftrightarrow> length uk = l \<and> a \<le> uk \<and> uk \<le> b \<and> visible_at f uk visible ts val" for ts val
    by (auto simp: entry_visible_def visible_at_def version_at_def split: option.splits sum.splits)
  then show ?thesis unfolding newest_in_def newest_visible_def option.case by blast
qed

lemma bucket_versions: "bucket_entries f a b l xs \<Longrightarrow> mvcc_store f \<Longrightarrow> versions xs"
  unfolding bucket_entries_def mvcc_store_def versions_def by blast

lemma bucket_live:
  assumes "bucket_entries f a b l xs" "l < 2 ^ 32" "bucket_result visible (\<lambda>_. False) xs out"
  shows "(uk, data) \<in> set out \<longleftrightarrow> length uk = l \<and> live_in_range f visible a b uk data"
  using assms(3) newest_in_bucket [OF assms(1,2)] by (auto simp: bucket_result_def live_in_range_def)

lemma scan_result_append:
  assumes "bucket_entries f a b l xs" "l < 2 ^ 32" "bucket_result visible (\<lambda>_. False) xs out"
    and "scan_result f visible a b (l + 1) rest" "n \<le> l"
    and "\<forall>uk. present f uk \<and> a \<le> uk \<and> uk \<le> b \<longrightarrow> length uk < n \<or> l \<le> length uk"
  shows "scan_result f visible a b n (out @ rest)"
proof -
  note out = bucket_live [OF assms(1-3)]
  have rest: "(uk, data) \<in> set rest \<longleftrightarrow> l + 1 \<le> length uk \<and> live_in_range f visible a b uk data" for uk data
    using assms(4) by (simp add: scan_result_def)
  have "user_less u1 u2" if "u1 \<in> fst ` set out" "u2 \<in> fst ` set rest" for u1 u2
    using that out rest by (fastforce simp: user_less_def)
  then have "sorted_wrt user_less (map fst (out @ rest))"
    using assms(3,4) by (auto simp: bucket_result_def scan_result_def sorted_wrt_append)
  moreover have "(uk, data) \<in> set (out @ rest) \<longleftrightarrow> n \<le> length uk \<and> live_in_range f visible a b uk data" for uk data
  proof -
    have "live_in_range f visible a b uk data \<Longrightarrow> length uk < n \<or> l \<le> length uk" using assms(6) live_in_rangeD by blast
    then show ?thesis using out rest assms(5) by auto
  qed
  ultimately show ?thesis by (simp add: scan_result_def)
qed

lemma scan_result_Nil:
  assumes "\<forall>uk. present f uk \<and> a \<le> uk \<and> uk \<le> b \<longrightarrow> length uk < n"
  shows "scan_result f visible a b n []"
  using assms by (auto simp: scan_result_def dest!: live_in_rangeD)

context storage_engine
begin

lemma mvcc_scan_loop_ok:
  assumes inv: "inv s" and st: "mvcc_store (view s)" and "probe_at p n"
  shows "\<exists>out. mvcc_scan_loop scan visible a b s p = Some (Inr out) \<and> scan_result (view s) visible a b n out"
  using assms(3)
proof (induction "2 ^ 32 - n" arbitrary: n p rule: less_induct)
  case less
  obtain r where r: "arm_next_bucket scan a b s p = Some (Inr r)" "armed_ok (view s) a b n r"
    using arm_next_bucket_ok [OF inv st less.prems] by blast
  show ?case
  proof (cases r)
    case None
    then have "mvcc_scan_loop scan visible a b s p = Some (Inr [])" using r(1) by (subst mvcc_scan_loop.simps) simp
    then show ?thesis using r(2) None by (auto simp: armed_ok_def intro: scan_result_Nil)
  next
    case (Some q)
    obtain inner p' fin where q: "q = (inner, p', fin)" by (cases q) auto
    obtain l where l: "n \<le> l" "l < 2 ^ 32" "bucket_entries (view s) a b l inner"
      "\<forall>uk. present (view s) uk \<and> a \<le> uk \<and> uk \<le> b \<longrightarrow> length uk < n \<or> l \<le> length uk"
      "if fin then l + 1 = 2 ^ 32 else l + 1 < 2 ^ 32 \<and> probe_at p' (l + 1)"
      using r(2) unfolding armed_ok_def Some q option.case prod.case by blast
    obtain out where out: "resolve_bucket visible None False inner = Inr out" "bucket_result visible (\<lambda>_. False) inner out"
      using resolve_bucket_ok [of inner None False visible] l(3) bucket_versions [OF l(3) st]
      by (auto simp: bucket_entries_def)
    have "\<exists>rest. mvcc_scan_loop scan visible a b s p = Some (Inr (out @ rest)) \<and> scan_result (view s) visible a b (l + 1) rest"
    proof (cases fin)
      case True
      have "scan_result (view s) visible a b (l + 1) []"
        using l(5) True present_length [OF st] by (intro scan_result_Nil) (auto simp: present_def)
      then show ?thesis using True r(1) out(1) unfolding Some q by (subst mvcc_scan_loop.simps) auto
    next
      case False
      then have "2 ^ 32 - (l + 1) < 2 ^ 32 - n" using l(1,5) by auto
      from less.hyps [OF this] obtain rest where
        "mvcc_scan_loop scan visible a b s p' = Some (Inr rest)" "scan_result (view s) visible a b (l + 1) rest"
        using False l(5) by auto
      then show ?thesis using False r(1) out(1) unfolding Some q by (subst mvcc_scan_loop.simps) auto
    qed
    then show ?thesis using scan_result_append [OF l(3,2) out(2) _ l(1,4)] by blast
  qed
qed

lemma mvcc_scan_ok:
  assumes "inv s" "mvcc_store (view s)"
  shows "\<exists>out. mvcc_scan scan a b visible s = Some (Inr out) \<and> scan_result (view s) visible a b 0 out"
  using mvcc_scan_loop_ok [OF assms probe_at_start] by (simp add: mvcc_scan_def)

end

end
