(* ===== verification/Wal_Record.thy ===== *)
theory Wal_Record
  imports IDB_Prelude
begin

text \<open>
  Log records of the write-ahead log (\<^verbatim>\<open>idb-wal/src/wal/record.rs\<close>, \<^verbatim>\<open>lsn.rs\<close>): payload
  variants, constructors, the length-prefixed and checksummed binary format and its decoder.
  The checksum is the third-party function \<^verbatim>\<open>crc32fast::hash\<close>, a parameter \<^verbatim>\<open>crc\<close> of the
  definitions; no property here assumes anything about it.
\<close>

section \<open>Model\<close>

definition HEADER_SIZE :: nat where "HEADER_SIZE = 29"

definition CRC_SIZE :: nat where "CRC_SIZE = 4"

definition MIN_RECORD_SIZE :: nat where "MIN_RECORD_SIZE = HEADER_SIZE + CRC_SIZE"

definition MAX_RECORD_SIZE :: nat where "MAX_RECORD_SIZE = 64 * 1024 * 1024"

type_synonym lsn = "64 word"

definition LSN_INVALID :: lsn where "LSN_INVALID = - 1"

definition lsn_is_valid :: "lsn \<Rightarrow> bool" where "lsn_is_valid l \<longleftrightarrow> l \<noteq> LSN_INVALID"

datatype log_record_type =
  RtPut | RtDelete | RtBegin | RtCommit | RtAbort | RtCheckpoint | RtTxnPut | RtTxnDelete

fun record_type_u8 :: "log_record_type \<Rightarrow> byte" where
  "record_type_u8 RtPut = 1"
| "record_type_u8 RtDelete = 2"
| "record_type_u8 RtBegin = 3"
| "record_type_u8 RtCommit = 4"
| "record_type_u8 RtAbort = 5"
| "record_type_u8 RtCheckpoint = 6"
| "record_type_u8 RtTxnPut = 7"
| "record_type_u8 RtTxnDelete = 8"

definition record_type_from_u8 :: "byte \<Rightarrow> log_record_type option" where
  "record_type_from_u8 b =
    (if b = 1 then Some RtPut else if b = 2 then Some RtDelete else if b = 3 then Some RtBegin
     else if b = 4 then Some RtCommit else if b = 5 then Some RtAbort
     else if b = 6 then Some RtCheckpoint else if b = 7 then Some RtTxnPut
     else if b = 8 then Some RtTxnDelete else None)"

datatype log_payload =
    Put (put_key: bytes) (put_value: bytes)
  | Delete bytes
  | Begin
  | Commit "64 word"
  | Abort
  | Checkpoint (active_txn_ids: "64 word list") (oracle_ts: "64 word") (next_txn_id: "64 word")
  | TxnPut bytes bytes "bytes option"
  | TxnDelete bytes "bytes option"

record log_record =
  rec_lsn :: lsn
  rec_txn_id :: "64 word"
  rec_prev_lsn :: lsn
  rec_payload :: log_payload

definition mk_put :: "bytes \<Rightarrow> bytes \<Rightarrow> log_record" where
  "mk_put key val =
    \<lparr>rec_lsn = LSN_INVALID, rec_txn_id = 0, rec_prev_lsn = LSN_INVALID, rec_payload = Put key val\<rparr>"

definition mk_delete :: "bytes \<Rightarrow> log_record" where
  "mk_delete key =
    \<lparr>rec_lsn = LSN_INVALID, rec_txn_id = 0, rec_prev_lsn = LSN_INVALID, rec_payload = Delete key\<rparr>"

definition mk_begin :: "64 word \<Rightarrow> log_record" where
  "mk_begin txn_id =
    \<lparr>rec_lsn = LSN_INVALID, rec_txn_id = txn_id, rec_prev_lsn = LSN_INVALID, rec_payload = Begin\<rparr>"

definition mk_commit :: "64 word \<Rightarrow> lsn \<Rightarrow> 64 word \<Rightarrow> log_record" where
  "mk_commit txn_id prev commit_ts =
    \<lparr>rec_lsn = LSN_INVALID, rec_txn_id = txn_id, rec_prev_lsn = prev, rec_payload = Commit commit_ts\<rparr>"

definition mk_abort :: "64 word \<Rightarrow> lsn \<Rightarrow> log_record" where
  "mk_abort txn_id prev =
    \<lparr>rec_lsn = LSN_INVALID, rec_txn_id = txn_id, rec_prev_lsn = prev, rec_payload = Abort\<rparr>"

definition mk_txn_put :: "64 word \<Rightarrow> lsn \<Rightarrow> bytes \<Rightarrow> bytes \<Rightarrow> bytes option \<Rightarrow> log_record" where
  "mk_txn_put txn_id prev key val old =
    \<lparr>rec_lsn = LSN_INVALID, rec_txn_id = txn_id, rec_prev_lsn = prev, rec_payload = TxnPut key val old\<rparr>"

definition mk_txn_delete :: "64 word \<Rightarrow> lsn \<Rightarrow> bytes \<Rightarrow> bytes option \<Rightarrow> log_record" where
  "mk_txn_delete txn_id prev key old =
    \<lparr>rec_lsn = LSN_INVALID, rec_txn_id = txn_id, rec_prev_lsn = prev, rec_payload = TxnDelete key old\<rparr>"

definition mk_checkpoint :: "64 word list \<Rightarrow> 64 word \<Rightarrow> 64 word \<Rightarrow> log_record" where
  "mk_checkpoint active ots next =
    \<lparr>rec_lsn = LSN_INVALID, rec_txn_id = 0, rec_prev_lsn = LSN_INVALID,
     rec_payload = Checkpoint active ots next\<rparr>"

definition record_type :: "log_record \<Rightarrow> log_record_type" where
  "record_type r =
    (case rec_payload r of
       Put _ _ \<Rightarrow> RtPut
     | Delete _ \<Rightarrow> RtDelete
     | Begin \<Rightarrow> RtBegin
     | Commit _ \<Rightarrow> RtCommit
     | Abort \<Rightarrow> RtAbort
     | Checkpoint _ _ _ \<Rightarrow> RtCheckpoint
     | TxnPut _ _ _ \<Rightarrow> RtTxnPut
     | TxnDelete _ _ \<Rightarrow> RtTxnDelete)"

definition payload_size :: "log_payload \<Rightarrow> nat" where
  "payload_size p =
    (case p of
       Put key val \<Rightarrow> 2 + length key + 2 + length val
     | Delete key \<Rightarrow> 2 + length key
     | Begin \<Rightarrow> 0
     | Commit _ \<Rightarrow> 8
     | Abort \<Rightarrow> 0
     | Checkpoint active _ _ \<Rightarrow> 4 + length active * 8 + 8 + 8
     | TxnPut key val old \<Rightarrow>
         let base = 2 + length key + 2 + length val + 1 in
         (case old of Some ov \<Rightarrow> base + 2 + length ov | None \<Rightarrow> base)
     | TxnDelete key old \<Rightarrow>
         let base = 2 + length key + 1 in
         (case old of Some ov \<Rightarrow> base + 2 + length ov | None \<Rightarrow> base))"

definition u16_prefixed :: "bytes \<Rightarrow> bytes" where
  "u16_prefixed s = le_bytes 2 (length s mod 2 ^ 16) @ s"

definition old_value_bytes :: "bytes option \<Rightarrow> bytes" where
  "old_value_bytes old = (case old of Some ov \<Rightarrow> [1] @ u16_prefixed ov | None \<Rightarrow> [0])"

definition encode_payload :: "log_payload \<Rightarrow> bytes \<Rightarrow> bytes" where
  "encode_payload p buf =
    (case p of
       Put key val \<Rightarrow> buf @ u16_prefixed key @ u16_prefixed val
     | Delete key \<Rightarrow> buf @ u16_prefixed key
     | Begin \<Rightarrow> buf
     | Commit commit_ts \<Rightarrow> buf @ le_bytes 8 (unat commit_ts)
     | Abort \<Rightarrow> buf
     | Checkpoint active ots next \<Rightarrow>
         buf @ le_bytes 4 (length active mod 2 ^ 32)
           @ concat (map (\<lambda>id. le_bytes 8 (unat id)) active)
           @ le_bytes 8 (unat ots) @ le_bytes 8 (unat next)
     | TxnPut key val old \<Rightarrow> buf @ u16_prefixed key @ u16_prefixed val @ old_value_bytes old
     | TxnDelete key old \<Rightarrow> buf @ u16_prefixed key @ old_value_bytes old)"

definition encode_header :: "nat \<Rightarrow> log_record \<Rightarrow> bytes" where
  "encode_header total_size r =
    le_bytes 4 total_size @ [record_type_u8 (record_type r)] @ le_bytes 8 (unat (rec_lsn r))
      @ le_bytes 8 (unat (rec_txn_id r)) @ le_bytes 8 (unat (rec_prev_lsn r))"

definition record_encode :: "(bytes \<Rightarrow> 32 word) \<Rightarrow> log_record \<Rightarrow> bytes result" where
  "record_encode crc r =
    (let total_size = HEADER_SIZE + payload_size (rec_payload r) + CRC_SIZE in
     if total_size > MAX_RECORD_SIZE then Inl Panic
     else let buf = encode_payload (rec_payload r) (encode_header total_size r) in
       if length buf \<noteq> total_size - CRC_SIZE then Inl Panic
       else Inr (buf @ le_bytes 4 (unat (crc buf))))"

definition u16_at :: "bytes \<Rightarrow> nat \<Rightarrow> nat" where
  "u16_at buf off = le_val (take 2 (drop off buf))"

definition u64_at :: "bytes \<Rightarrow> nat \<Rightarrow> 64 word" where
  "u64_at buf off = of_nat (le_val (take 8 (drop off buf)))"

text \<open>The trailing \<^verbatim>\<open>has_old | old_len | old\<close> field, shared by the two transactional payloads.\<close>

definition decode_old_value :: "bytes \<Rightarrow> nat \<Rightarrow> bytes option result" where
  "decode_old_value buf oo =
    (if buf ! oo = 1 then
       if length buf < oo + 3 then Inl StorageCorrupted
       else let ol = u16_at buf (oo + 1) in
         if length buf < oo + 3 + ol then Inl StorageCorrupted
         else Inr (Some (take ol (drop (oo + 3) buf)))
     else Inr None)"

definition decode_payload :: "log_record_type \<Rightarrow> bytes \<Rightarrow> log_payload result" where
  "decode_payload rt buf =
    (case rt of
       RtPut \<Rightarrow>
         if length buf < 4 then Inl StorageCorrupted
         else let key_len = u16_at buf 0 in
           if length buf < 2 + key_len + 2 then Inl StorageCorrupted
           else let key = take key_len (drop 2 buf);
                    val_offset = 2 + key_len;
                    val_len = u16_at buf val_offset in
             if length buf < val_offset + 2 + val_len then Inl StorageCorrupted
             else Inr (Put key (take val_len (drop (val_offset + 2) buf)))
     | RtDelete \<Rightarrow>
         if length buf < 2 then Inl StorageCorrupted
         else let key_len = u16_at buf 0 in
           if length buf < 2 + key_len then Inl StorageCorrupted
           else Inr (Delete (take key_len (drop 2 buf)))
     | RtBegin \<Rightarrow> Inr Begin
     | RtCommit \<Rightarrow>
         if length buf < 8 then Inl StorageCorrupted else Inr (Commit (u64_at buf 0))
     | RtAbort \<Rightarrow> Inr Abort
     | RtCheckpoint \<Rightarrow>
         if length buf < 4 then Inl StorageCorrupted
         else let count = le_val (take 4 buf) in
           if length buf < 4 + count * 8 then Inl StorageCorrupted
           else let active = map (\<lambda>i. u64_at buf (4 + i * 8)) [0..<count];
                    ts_offset = 4 + count * 8;
                    ots = (if length buf \<ge> ts_offset + 8 then u64_at buf ts_offset else 0);
                    nid_offset = ts_offset + 8;
                    next = (if length buf \<ge> nid_offset + 8 then u64_at buf nid_offset else 0)
             in Inr (Checkpoint active ots next)
     | RtTxnPut \<Rightarrow>
         if length buf < 4 then Inl StorageCorrupted
         else let key_len = u16_at buf 0 in
           if length buf < 2 + key_len + 2 then Inl StorageCorrupted
           else let key = take key_len (drop 2 buf);
                    vo = 2 + key_len;
                    val_len = u16_at buf vo in
             if length buf < vo + 2 + val_len + 1 then Inl StorageCorrupted
             else let val = take val_len (drop (vo + 2) buf) in
               and_then (decode_old_value buf (vo + 2 + val_len)) (\<lambda>old. Inr (TxnPut key val old))
     | RtTxnDelete \<Rightarrow>
         if length buf < 2 then Inl StorageCorrupted
         else let key_len = u16_at buf 0 in
           if length buf < 2 + key_len + 1 then Inl StorageCorrupted
           else let key = take key_len (drop 2 buf) in
             and_then (decode_old_value buf (2 + key_len)) (\<lambda>old. Inr (TxnDelete key old)))"

definition record_decode :: "(bytes \<Rightarrow> 32 word) \<Rightarrow> bytes \<Rightarrow> (log_record \<times> nat) result" where
  "record_decode crc buf =
    (if length buf < 4 then Inl StorageCorrupted
     else let len = le_val (take 4 buf) in
       if len < MIN_RECORD_SIZE then Inl StorageCorrupted
       else if len > MAX_RECORD_SIZE then Inl StorageCorrupted
       else if length buf < len then Inl StorageCorrupted
       else let record_buf = take len buf;
                stored_crc = (of_nat (le_val (drop (len - 4) record_buf)) :: 32 word);
                computed_crc = crc (take (len - 4) record_buf) in
         if stored_crc \<noteq> computed_crc then Inl StorageCorrupted
         else and_then (ok_or StorageCorrupted (record_type_from_u8 (record_buf ! 4))) (\<lambda>rt.
           and_then (decode_payload rt (drop HEADER_SIZE (take (len - CRC_SIZE) record_buf))) (\<lambda>p.
             Inr (\<lparr>rec_lsn = u64_at record_buf 5, rec_txn_id = u64_at record_buf 13,
                   rec_prev_lsn = u64_at record_buf 21, rec_payload = p\<rparr>, len))))"

section \<open>Payload round trip\<close>

text \<open>The lengths a record can carry: keys and values are written with a 16-bit length.\<close>

definition old_ok :: "bytes option \<Rightarrow> bool" where
  "old_ok old = (case old of Some ov \<Rightarrow> length ov < 2 ^ 16 | None \<Rightarrow> True)"

definition payload_ok :: "log_payload \<Rightarrow> bool" where
  "payload_ok p =
    (case p of
       Put key val \<Rightarrow> length key < 2 ^ 16 \<and> length val < 2 ^ 16
     | Delete key \<Rightarrow> length key < 2 ^ 16
     | TxnPut key val old \<Rightarrow> length key < 2 ^ 16 \<and> length val < 2 ^ 16 \<and> old_ok old
     | TxnDelete key old \<Rightarrow> length key < 2 ^ 16 \<and> old_ok old
     | _ \<Rightarrow> True)"

lemma length_encode_payload: "length (encode_payload p buf) = length buf + payload_size p"
proof -
  have "length (concat (map (\<lambda>id. le_bytes 8 (unat (id :: 64 word))) ids)) = 8 * length ids" for ids
    by (induction ids) auto
  then show ?thesis
    by (auto simp: encode_payload_def payload_size_def u16_prefixed_def old_value_bytes_def
        split: log_payload.split option.split)
qed

lemma encode_payload_append: "encode_payload p buf = buf @ encode_payload p []"
  by (simp add: encode_payload_def split: log_payload.split)

lemma record_type_roundtrip [simp]: "record_type_from_u8 (record_type_u8 t) = Some t"
  by (cases t) (simp_all add: record_type_from_u8_def)

lemma length_u16_prefixed [simp]: "length (u16_prefixed s) = 2 + length s"
  by (simp add: u16_prefixed_def)

lemma u16_at_prefixed:
  assumes "length s < 2 ^ 16" "length pre = off"
  shows "u16_at (pre @ u16_prefixed s @ rest) off = length s"
    and "take (length s) (drop (off + 2) (pre @ u16_prefixed s @ rest)) = s"
proof -
  have "le_val (le_bytes 2 (length s)) = length s"
    using assms(1) by (intro le_val_le_bytes_small) simp
  then show "u16_at (pre @ u16_prefixed s @ rest) off = length s"
    using assms by (simp add: u16_at_def u16_prefixed_def)
  show "take (length s) (drop (off + 2) (pre @ u16_prefixed s @ rest)) = s"
    using assms(2) by (simp add: u16_prefixed_def)
qed

definition payload_type :: "log_payload \<Rightarrow> log_record_type" where
  "payload_type p = record_type \<lparr>rec_lsn = 0, rec_txn_id = 0, rec_prev_lsn = 0, rec_payload = p\<rparr>"

lemma record_type_payload: "record_type r = payload_type (rec_payload r)"
  by (simp add: payload_type_def record_type_def)

lemma decode_old_value_roundtrip:
  assumes "old_ok old" "length pre = oo"
  shows "decode_old_value (pre @ old_value_bytes old) oo = Inr old"
proof (cases old)
  case None
  then show ?thesis using assms(2)
    by (auto simp: decode_old_value_def old_value_bytes_def nth_append)
next
  case (Some ov)
  have len: "length ov < 2 ^ 16" using assms(1) Some by (simp add: old_ok_def)
  have buf: "pre @ old_value_bytes old = (pre @ [1]) @ u16_prefixed ov @ []"
    by (simp add: Some old_value_bytes_def)
  have "u16_at (pre @ old_value_bytes old) (oo + 1) = length ov"
    and "take (length ov) (drop (oo + 1 + 2) (pre @ old_value_bytes old)) = ov"
    unfolding buf using assms(2) by (intro u16_at_prefixed len; simp)+
  then show ?thesis
    using assms(2) by (simp add: decode_old_value_def Some old_value_bytes_def nth_append numeral_3_eq_3)
qed

lemma u64_at_append:
  "length pre = off \<Longrightarrow> u64_at (pre @ le_bytes 8 (unat w) @ rest) off = w"
  by (simp add: u64_at_def codec_simps)

lemma u64_at_concat:
  assumes "i < length ids" "length pre = off"
  shows "u64_at (pre @ concat (map (\<lambda>id. le_bytes 8 (unat id)) ids) @ rest) (off + i * 8) = ids ! i"
  using assms
proof (induction ids arbitrary: i pre off)
  case (Cons a ids)
  show ?case
  proof (cases i)
    case 0
    then show ?thesis using u64_at_append [OF Cons.prems(2), of a] by simp
  next
    case (Suc j)
    then show ?thesis
      using Cons.IH [of j "pre @ le_bytes 8 (unat a)" "off + 8"] Cons.prems by (simp add: add.assoc)
  qed
qed simp

lemma decode_checkpoint_roundtrip:
  assumes "length active < 2 ^ 32"
  shows "decode_payload RtCheckpoint (encode_payload (Checkpoint active ots next) []) =
    Inr (Checkpoint active ots next)"
proof -
  let ?n = "length active"
  let ?c = "concat (map (\<lambda>id. le_bytes 8 (unat id)) active)"
  let ?buf = "le_bytes 4 ?n @ ?c @ le_bytes 8 (unat ots) @ le_bytes 8 (unat next)"
  have c: "length ?c = ?n * 8" by (induction active) auto
  have buf: "encode_payload (Checkpoint active ots next) [] = ?buf"
    using assms by (simp add: encode_payload_def)
  have cnt: "le_val (take 4 ?buf) = ?n"
    using assms by (simp add: le_val_le_bytes)
  have act: "map (\<lambda>i. u64_at ?buf (4 + i * 8)) [0..<?n] = active"
    by (rule nth_equalityI) (simp_all add: u64_at_concat del: append.simps)
  have ots: "u64_at ?buf (4 + ?n * 8) = ots"
    using u64_at_append [of "le_bytes 4 ?n @ ?c" "4 + ?n * 8"] c by simp
  have nxt: "u64_at ?buf (4 + ?n * 8 + 8) = next"
    using u64_at_append [of "le_bytes 4 ?n @ ?c @ le_bytes 8 (unat ots)" "4 + ?n * 8 + 8" "next" "[]"] c by simp
  show ?thesis
    unfolding buf decode_payload_def log_record_type.case Let_def cnt act ots nxt
    using c by simp
qed

lemma u16_at_first:
  assumes "length s < 2 ^ 16"
  shows "u16_at (u16_prefixed s @ rest) 0 = length s" "take (length s) (drop 2 (u16_prefixed s @ rest)) = s"
proof -
  show "u16_at (u16_prefixed s @ rest) 0 = length s"
    using u16_at_prefixed(1) [OF assms, of "[]" 0] by simp
  show "take (length s) (drop 2 (u16_prefixed s @ rest)) = s" by (simp add: u16_prefixed_def)
qed

lemma u16_at_second:
  assumes "length t < 2 ^ 16"
  shows "u16_at (u16_prefixed s @ u16_prefixed t @ rest) (2 + length s) = length t"
    and "take (length t) (drop (2 + length s + 2) (u16_prefixed s @ u16_prefixed t @ rest)) = t"
  using u16_at_prefixed [OF assms, of "u16_prefixed s" "2 + length s" rest] by simp_all

lemma decode_payload_roundtrip:
  assumes "payload_ok p" "payload_size p < 2 ^ 32"
  shows "decode_payload (payload_type p) (encode_payload p []) = Inr p"
proof (cases p)
  case (Put key val)
  then have len: "length key < 2 ^ 16" "length val < 2 ^ 16" using assms by (simp_all add: payload_ok_def)
  show ?thesis
    using u16_at_first [OF len(1), of "u16_prefixed val"] u16_at_second [OF len(2), of key "[]"]
    by (simp add: Put payload_type_def record_type_def decode_payload_def encode_payload_def Let_def)
next
  case (Delete key)
  then have "length key < 2 ^ 16" using assms by (simp add: payload_ok_def)
  from u16_at_first [OF this, of "[]"] show ?thesis
    by (simp add: Delete payload_type_def record_type_def decode_payload_def encode_payload_def Let_def)
next
  case (Commit c)
  then show ?thesis using u64_at_append [of "[]" 0 c "[]"]
    by (simp add: payload_type_def record_type_def decode_payload_def encode_payload_def)
next
  case (Checkpoint a b c)
  then have "length a < 2 ^ 32" using assms(2) by (simp add: payload_size_def)
  from decode_checkpoint_roundtrip [OF this] show ?thesis
    by (simp add: Checkpoint payload_type_def record_type_def)
next
  case (TxnPut key val old)
  then have len: "length key < 2 ^ 16" "length val < 2 ^ 16" "old_ok old"
    using assms by (simp_all add: payload_ok_def)
  have old: "decode_old_value (u16_prefixed key @ u16_prefixed val @ old_value_bytes old)
      (2 + length key + 2 + length val) = Inr old"
    using decode_old_value_roundtrip [OF len(3), of "u16_prefixed key @ u16_prefixed val"] by simp
  have "0 < length (old_value_bytes old)" by (simp add: old_value_bytes_def split: option.split)
  then show ?thesis
    using u16_at_first [OF len(1), of "u16_prefixed val @ old_value_bytes old"]
      u16_at_second [OF len(2), of key "old_value_bytes old"] old
    by (simp add: TxnPut payload_type_def record_type_def decode_payload_def encode_payload_def Let_def)
next
  case (TxnDelete key old)
  then have len: "length key < 2 ^ 16" "old_ok old" using assms by (simp_all add: payload_ok_def)
  have old: "decode_old_value (u16_prefixed key @ old_value_bytes old) (2 + length key) = Inr old"
    using decode_old_value_roundtrip [OF len(2), of "u16_prefixed key"] by simp
  have "0 < length (old_value_bytes old)" by (simp add: old_value_bytes_def split: option.split)
  then show ?thesis
    using u16_at_first [OF len(1), of "old_value_bytes old"] old
    by (simp add: TxnDelete payload_type_def record_type_def decode_payload_def encode_payload_def Let_def)
qed (simp_all add: payload_type_def record_type_def decode_payload_def)

section \<open>Record round trip\<close>

lemma length_encode_header [simp]: "length (encode_header n r) = HEADER_SIZE"
  by (simp add: encode_header_def HEADER_SIZE_def)

lemma record_encode_eq:
  "record_encode crc r =
    (let total = HEADER_SIZE + payload_size (rec_payload r) + CRC_SIZE;
         buf = encode_header total r @ encode_payload (rec_payload r) [] in
     if total > MAX_RECORD_SIZE then Inl Panic else Inr (buf @ le_bytes 4 (unat (crc buf))))"
  using encode_payload_append [of "rec_payload r" "encode_header _ r"]
  by (simp add: record_encode_def Let_def length_encode_payload)

lemma length_record_encode:
  "record_encode crc r = Inr bs \<Longrightarrow>
    length bs = HEADER_SIZE + payload_size (rec_payload r) + CRC_SIZE \<and> length bs \<le> MAX_RECORD_SIZE"
  by (auto simp: record_encode_eq Let_def CRC_SIZE_def length_encode_payload split: if_splits)

lemma header_fields:
  assumes "buf = encode_header n r @ rest"
  shows "buf ! 4 = record_type_u8 (record_type r)" "u64_at buf 5 = rec_lsn r"
    "u64_at buf 13 = rec_txn_id r" "u64_at buf 21 = rec_prev_lsn r" "take 4 buf = le_bytes 4 n"
proof -
  let ?t = "[record_type_u8 (record_type r)]"
  let ?l = "le_bytes 8 (unat (rec_lsn r))" and ?x = "le_bytes 8 (unat (rec_txn_id r))"
  note b = assms [unfolded encode_header_def]
  show "buf ! 4 = record_type_u8 (record_type r)" by (simp add: b nth_append)
  show "u64_at buf 5 = rec_lsn r"
    using u64_at_append [of "le_bytes 4 n @ ?t" 5 "rec_lsn r"] by (simp add: b)
  show "u64_at buf 13 = rec_txn_id r"
    using u64_at_append [of "le_bytes 4 n @ ?t @ ?l" 13 "rec_txn_id r"] by (simp add: b)
  show "u64_at buf 21 = rec_prev_lsn r"
    using u64_at_append [of "le_bytes 4 n @ ?t @ ?l @ ?x" 21 "rec_prev_lsn r"] by (simp add: b)
  show "take 4 buf = le_bytes 4 n" by (simp add: b)
qed

text \<open>What decoding a well-framed buffer comes down to, whatever its payload bytes are.\<close>

lemma record_decode_framed:
  assumes n_def: "n = HEADER_SIZE + length pl + CRC_SIZE" and buf_def: "buf = encode_header n r @ pl"
    and le: "n \<le> MAX_RECORD_SIZE"
  shows "record_decode crc (buf @ le_bytes 4 (unat (crc buf)) @ rest) =
    and_then (decode_payload (record_type r) pl) (\<lambda>p. Inr (r\<lparr>rec_payload := p\<rparr>, n))"
proof -
  let ?crc = "le_bytes 4 (unat (crc buf))"
  let ?b = "buf @ ?crc @ rest"
  have nn: "n = length buf + 4" "n - 4 = length buf"
    by (simp_all add: n_def buf_def HEADER_SIZE_def CRC_SIZE_def)
  have n32: "n < 256 ^ 4" using le by (simp add: MAX_RECORD_SIZE_def)
  have fields: "?b ! 4 = record_type_u8 (record_type r)" "take 4 ?b = le_bytes 4 n"
    using header_fields [of ?b n r] by (simp_all add: buf_def)
  have tb: "take n ?b = buf @ ?crc" by (simp add: nn)
  have len: "le_val (take 4 ?b) = n" using fields(2) n32 by (simp add: codec_simps)
  have "buf @ ?crc = encode_header n r @ pl @ ?crc" by (simp only: buf_def append_assoc)
  note hf = header_fields [OF this]
  have p1: "take (n - 4) (buf @ ?crc) = buf" "drop (n - 4) (buf @ ?crc) = ?crc"
    "drop HEADER_SIZE (take (n - CRC_SIZE) (buf @ ?crc)) = pl"
    by (simp_all add: nn CRC_SIZE_def) (simp add: buf_def)
  have guards: "\<not> length ?b < 4" "\<not> n < MIN_RECORD_SIZE" "\<not> n > MAX_RECORD_SIZE" "\<not> length ?b < n"
    using le nn by (auto simp: n_def MIN_RECORD_SIZE_def)
  have upd: "\<lparr>rec_lsn = rec_lsn r, rec_txn_id = rec_txn_id r, rec_prev_lsn = rec_prev_lsn r, rec_payload = p\<rparr>
      = r\<lparr>rec_payload := p\<rparr>" for p
    by (cases r) simp
  show ?thesis
    unfolding record_decode_def Let_def len tb p1 hf upd
    using guards by (simp add: codec_simps)
qed

lemma record_decode_encode:
  assumes "record_encode crc r = Inr bs" "payload_ok (rec_payload r)"
  shows "record_decode crc (bs @ rest) = Inr (r, length bs)"
proof -
  let ?pl = "encode_payload (rec_payload r) []"
  let ?n = "HEADER_SIZE + length ?pl + CRC_SIZE"
  have len: "length ?pl = payload_size (rec_payload r)" by (simp add: length_encode_payload)
  have le: "?n \<le> MAX_RECORD_SIZE" and bl: "length bs = ?n"
    using length_record_encode [OF assms(1)] len by simp_all
  have bs: "bs = (encode_header ?n r @ ?pl) @ le_bytes 4 (unat (crc (encode_header ?n r @ ?pl)))"
    using assms(1) len by (auto simp: record_encode_eq Let_def split: if_splits)
  have "payload_size (rec_payload r) < 2 ^ 32"
    using le len by (simp add: MAX_RECORD_SIZE_def)
  then have "decode_payload (record_type r) ?pl = Inr (rec_payload r)"
    using decode_payload_roundtrip [OF assms(2)] by (simp add: record_type_payload)
  then show ?thesis
    using record_decode_framed [OF refl refl le, of crc r rest] bl by (simp add: bs)
qed

lemma u16_at_less: "u16_at buf off < 2 ^ 16"
proof -
  have "u16_at buf off < 256 ^ length (take 2 (drop off buf))" by (simp only: u16_at_def le_val_less)
  also have "\<dots> \<le> 256 ^ 2" by (rule power_increasing) auto
  finally show ?thesis by simp
qed

lemma decode_old_value_ok: "decode_old_value buf oo = Inr old \<Longrightarrow> old_ok old"
  using u16_at_less [of buf "oo + 1"]
  by (auto simp: decode_old_value_def old_ok_def Let_def split: if_splits)

lemma decode_payload_ok: "decode_payload rt buf = Inr p \<Longrightarrow> payload_ok p"
  using u16_at_less [of buf]
  by (cases rt)
    (auto simp: decode_payload_def payload_ok_def Let_def and_then_eq_Inr min_less_iff_disj
      dest: decode_old_value_ok split: if_splits)

lemma record_decode_bounds:
  assumes "record_decode crc buf = Inr (r, n)"
  shows "payload_ok (rec_payload r)" "MIN_RECORD_SIZE \<le> n" "n \<le> length buf"
  using assms
  by (auto simp: record_decode_def Let_def and_then_eq_Inr dest: decode_payload_ok split: if_splits)

text \<open>Exactly the records whose keys and values fit a 16-bit length are read back.\<close>

lemma record_roundtrip_iff:
  assumes "record_encode crc r = Inr bs"
  shows "record_decode crc (bs @ rest) = Inr (r, length bs) \<longleftrightarrow> payload_ok (rec_payload r)"
  using record_decode_encode [OF assms] record_decode_bounds(1) by blast

lemma record_decode_torn:
  assumes "record_encode crc r = Inr bs" "bs = p @ q" "q \<noteq> []"
  shows "record_decode crc p = Inl StorageCorrupted"
proof (cases "length p < 4")
  case True
  then show ?thesis by (simp add: record_decode_def)
next
  case False
  let ?n = "HEADER_SIZE + payload_size (rec_payload r) + CRC_SIZE"
  obtain rest where bs: "bs = encode_header ?n r @ rest"
    using assms(1) by (auto simp: record_encode_eq Let_def split: if_splits)
  have le: "length bs = ?n" "?n \<le> MAX_RECORD_SIZE" using length_record_encode [OF assms(1)] by simp_all
  have "take 4 p = take 4 bs" using False assms(2) by simp
  then have "le_val (take 4 p) = ?n"
    using header_fields(5) [OF bs] le(2) by (simp add: le_val_le_bytes MAX_RECORD_SIZE_def)
  moreover have "length p < ?n" using assms(2,3) le(1) by (cases q) auto
  ultimately show ?thesis using False le(2) by (simp add: record_decode_def Let_def)
qed

lemma record_encode_nonempty: "record_encode crc r = Inr bs \<Longrightarrow> bs \<noteq> []"
  using length_record_encode [of crc r bs] by (auto simp: HEADER_SIZE_def)

text \<open>A concrete record and its encoding under a constant checksum, for examples.\<close>

definition sample_record :: log_record where
  "sample_record = \<lparr>rec_lsn = 0, rec_txn_id = 1, rec_prev_lsn = 0, rec_payload = Begin\<rparr>"

definition sample_bytes :: bytes where
  "sample_bytes = [33, 0, 0, 0, 3, 0, 0, 0, 0, 0, 0, 0, 0, 1, 0, 0, 0, 0, 0, 0, 0,
    0, 0, 0, 0, 0, 0, 0, 0, 1, 0, 0, 0]"

lemma le_bytes_numeral:
  "le_bytes (numeral n) x = of_nat x # le_bytes (pred_numeral n) (x div 256)"
  by (simp only: numeral_eq_Suc [of n] le_bytes.simps)



lemma sample_header: "encode_header 33 sample_record = take 29 sample_bytes"
  by (simp add: encode_header_def sample_record_def sample_bytes_def record_type_def LSN_INVALID_def le_bytes_numeral)


lemma sample_encode: "record_encode (\<lambda>_. 1) sample_record = Inr sample_bytes"
proof -
  have "payload_size (rec_payload sample_record) = 0" "encode_payload (rec_payload sample_record) buf = buf" for buf
    by (simp_all add: payload_size_def encode_payload_def sample_record_def)
  then have "record_encode (\<lambda>_. 1) sample_record = Inr (take 29 sample_bytes @ le_bytes 4 1)"
    using sample_header
    by (simp add: record_encode_def HEADER_SIZE_def CRC_SIZE_def MAX_RECORD_SIZE_def sample_bytes_def)
  then show ?thesis by (simp add: sample_bytes_def le_bytes_numeral)
qed

section \<open>Properties\<close>

text \<open>
  C27. A record that the encoder accepts is read back from the front of any buffer precisely
  when its keys and values are shorter than 65536 bytes. Longer ones are encoded without an
  error but with a truncated length field.
\<close>

theorem record_roundtrip:
  assumes "record_encode crc r = Inr bs"
  shows "record_decode crc (bs @ rest) = Inr (r, length bs) \<longleftrightarrow> payload_ok (rec_payload r)"
  using assms by (rule record_roundtrip_iff)

theorem record_roundtrip_witness:
  "record_decode (\<lambda>_. 1) (sample_bytes @ [7]) = Inr (sample_record, 33)"
  using record_roundtrip [OF sample_encode, of "[7]"]
  by (simp add: payload_ok_def sample_record_def) (simp add: sample_bytes_def)

text \<open>
  C28. A record cut short at any byte is rejected as corrupted: the decoder never reads past the
  bytes it is given and never returns a partial record.
\<close>

theorem torn_record_rejected:
  assumes "record_encode crc r = Inr bs" "bs = p @ q" "q \<noteq> []"
  shows "record_decode crc p = Inl StorageCorrupted"
  using assms by (rule record_decode_torn)

theorem torn_record_rejected_witness: "record_decode (\<lambda>_. 1) (take 30 sample_bytes) = Inl StorageCorrupted"
  by (rule torn_record_rejected [OF sample_encode append_take_drop_id [symmetric]]) (simp add: sample_bytes_def)

end
