(* ===== verification/Wal_Log.thy ===== *)
theory Wal_Log
  imports Wal_Record "HOL-Library.Sublist"
begin

text \<open>
  The log as a directory of segment files: the writer (\<^verbatim>\<open>idb-wal/src/wal/writer.rs\<close>), the
  forward reader (\<^verbatim>\<open>reader.rs\<close>), segment truncation and the checkpoint search (\<^verbatim>\<open>mod.rs\<close>).
  A directory is the list of its segments \<^verbatim>\<open>(id, contents)\<close> in ascending id order, as
  \<^verbatim>\<open>list_segments\<close> returns it; the file system itself is not modelled, and contents are what
  has been written through the buffered writer. Proved: a log written by appends is read back
  exactly, a crash that cuts the last segment at any byte loses only a suffix of the records,
  truncation drops no record at or above its threshold, and what reopening does to a torn tail.
\<close>

section \<open>Model\<close>

definition DEFAULT_MAX_SEGMENT_SIZE :: nat where "DEFAULT_MAX_SEGMENT_SIZE = 16 * 1024 * 1024"

definition MAX_SEGMENTS :: nat where "MAX_SEGMENTS = 100000"

definition MAX_RECOVERY_RECORDS :: nat where "MAX_RECOVERY_RECORDS = 100000000"

type_synonym wal_dir = "(nat \<times> bytes) list"

record wal_writer =
  closed_segments :: wal_dir
  active_segment_id :: nat
  active_data :: bytes
  active_segment_size :: nat
  next_lsn :: lsn
  max_segment_size :: nat

definition writer_dir :: "wal_writer \<Rightarrow> wal_dir" where
  "writer_dir w = closed_segments w @ [(active_segment_id w, active_data w)]"

definition writer_create :: "wal_dir \<Rightarrow> wal_writer result" where
  "writer_create dir =
    (if dir \<noteq> [] then Inl Panic
     else Inr \<lparr>closed_segments = [], active_segment_id = 0, active_data = [], active_segment_size = 0,
               next_lsn = 0, max_segment_size = DEFAULT_MAX_SEGMENT_SIZE\<rparr>)"

text \<open>
  The decoding loop \<^verbatim>\<open>while offset < data.len()\<close>: the records read and whether the loop ended
  at the end of the data (rather than at an undecodable position).
\<close>

function scan_data :: "(bytes \<Rightarrow> 32 word) \<Rightarrow> bytes \<Rightarrow> log_record list \<times> bool" where
  "scan_data crc data =
    (if data = [] then ([], True)
     else case record_decode crc data of
       Inl _ \<Rightarrow> ([], False)
     | Inr (r, consumed) \<Rightarrow>
         (case scan_data crc (drop consumed data) of (rs, clean) \<Rightarrow> (r # rs, clean)))"
  by pat_completeness auto
termination
proof (relation "measure (\<lambda>(crc, data). length data)", simp, goal_cases)
  case (1 crc data x a b)
  then have "0 < b" using record_decode_bounds(2) [of crc data a b]
    by (simp add: MIN_RECORD_SIZE_def HEADER_SIZE_def)
  then show ?case using 1 by simp
qed

declare scan_data.simps [simp del]

definition highest_lsn :: "(bytes \<Rightarrow> 32 word) \<Rightarrow> bytes \<Rightarrow> lsn option" where
  "highest_lsn crc data =
    (case fst (scan_data crc data) of [] \<Rightarrow> None | rs \<Rightarrow> Some (rec_lsn (last rs)))"

text \<open>The backward search over the earlier segments, given in reverse order.\<close>

fun found_lsn :: "(bytes \<Rightarrow> 32 word) \<Rightarrow> wal_dir \<Rightarrow> lsn option" where
  "found_lsn crc [] = None"
| "found_lsn crc ((_, d) # segs) =
    (case highest_lsn crc d of Some l \<Rightarrow> Some l | None \<Rightarrow> found_lsn crc segs)"

definition writer_open :: "(bytes \<Rightarrow> 32 word) \<Rightarrow> wal_dir \<Rightarrow> wal_writer result" where
  "writer_open crc dir =
    (if dir = [] then writer_create dir
     else let (last_id, last_data) = last dir;
              next = (case highest_lsn crc last_data of
                        Some l \<Rightarrow> l + 1
                      | None \<Rightarrow> (case found_lsn crc (rev (butlast dir)) of Some l \<Rightarrow> l + 1 | None \<Rightarrow> 0))
          in Inr \<lparr>closed_segments = butlast dir, active_segment_id = last_id, active_data = last_data,
                  active_segment_size = length last_data, next_lsn = next,
                  max_segment_size = DEFAULT_MAX_SEGMENT_SIZE\<rparr>)"

definition rotate_segment :: "wal_writer \<Rightarrow> wal_writer result" where
  "rotate_segment w =
    (let next_id = active_segment_id w + 1 in
     if \<not> next_id < MAX_SEGMENTS then Inl Panic
     else Inr (w\<lparr>closed_segments := closed_segments w @ [(active_segment_id w, active_data w)],
                 active_segment_id := next_id, active_data := [], active_segment_size := 0\<rparr>))"

definition writer_append ::
    "(bytes \<Rightarrow> 32 word) \<Rightarrow> log_record \<Rightarrow> wal_writer \<Rightarrow> (lsn \<times> wal_writer) result" where
  "writer_append crc record w =
    (let l = next_lsn w;
         record = record\<lparr>rec_lsn := l\<rparr>;
         w = w\<lparr>next_lsn := l + 1\<rparr> in
     and_then (record_encode crc record) (\<lambda>encoded.
       let record_size = length encoded in
       and_then (if active_segment_size w > 0 \<and> active_segment_size w + record_size > max_segment_size w
                 then rotate_segment w else Inr w) (\<lambda>w.
         Inr (l, w\<lparr>active_data := active_data w @ encoded,
                   active_segment_size := active_segment_size w + record_size\<rparr>))))"

fun append_all :: "(bytes \<Rightarrow> 32 word) \<Rightarrow> log_record list \<Rightarrow> wal_writer \<Rightarrow> wal_writer result" where
  "append_all crc [] w = Inr w"
| "append_all crc (r # rs) w = and_then (writer_append crc r w) (\<lambda>(_, w). append_all crc rs w)"

text \<open>
  What the forward iterator yields: the records at or above \<^verbatim>\<open>start\<close>, then an error when an
  undecodable position is not in the last segment, and an error once the record bound is hit.
\<close>

fun scan_items :: "(bytes \<Rightarrow> 32 word) \<Rightarrow> lsn \<Rightarrow> wal_dir \<Rightarrow> log_record result list" where
  "scan_items crc start [] = []"
| "scan_items crc start ((_, d) # segs) =
    (case scan_data crc d of (rs, clean) \<Rightarrow>
       map Inr (filter (\<lambda>r. \<not> rec_lsn r < start) rs)
         @ (if clean then scan_items crc start segs
            else if segs = [] then [] else [Inl StorageCorrupted]))"

definition scan_forward :: "(bytes \<Rightarrow> 32 word) \<Rightarrow> lsn \<Rightarrow> wal_dir \<Rightarrow> log_record result list" where
  "scan_forward crc start dir =
    (let items = scan_items crc start dir in
     if MAX_RECOVERY_RECORDS \<le> length (filter (\<lambda>i. \<not> isl i) items)
     then take MAX_RECOVERY_RECORDS items @ [Inl StorageCorrupted] else items)"

fun collect_results :: "'a result list \<Rightarrow> 'a list result" where
  "collect_results [] = Inr []"
| "collect_results (Inl e # _) = Inl e"
| "collect_results (Inr x # rs) = and_then (collect_results rs) (\<lambda>xs. Inr (x # xs))"

fun last_checkpoint_loop :: "log_record result list \<Rightarrow> lsn \<Rightarrow> lsn" where
  "last_checkpoint_loop [] acc = acc"
| "last_checkpoint_loop (Inl _ # _) acc = acc"
| "last_checkpoint_loop (Inr r # items) acc =
    last_checkpoint_loop items (if record_type r = RtCheckpoint then rec_lsn r else acc)"

definition find_last_checkpoint :: "(bytes \<Rightarrow> 32 word) \<Rightarrow> wal_dir \<Rightarrow> lsn" where
  "find_last_checkpoint crc dir =
    (if dir = [] then LSN_INVALID else last_checkpoint_loop (scan_forward crc 0 dir) LSN_INVALID)"

definition truncate_before :: "(bytes \<Rightarrow> 32 word) \<Rightarrow> lsn \<Rightarrow> wal_dir \<Rightarrow> nat \<times> wal_dir" where
  "truncate_before crc threshold dir =
    (if length dir \<le> 1 then (0, dir)
     else let droppable = (\<lambda>(id :: nat, d).
                let h = (case highest_lsn crc d of Some l \<Rightarrow> l | None \<Rightarrow> LSN_INVALID)
                in lsn_is_valid h \<and> h < threshold)
          in (length (filter droppable (butlast dir)),
              filter (\<lambda>s. \<not> droppable s) (butlast dir) @ [last dir]))"

section \<open>Scanning encoded records\<close>

definition rec_ok :: "(bytes \<Rightarrow> 32 word) \<Rightarrow> log_record \<Rightarrow> bool" where
  "rec_ok crc r \<longleftrightarrow> payload_ok (rec_payload r) \<and> (\<exists>bs. record_encode crc r = Inr bs)"

definition enc_bytes :: "(bytes \<Rightarrow> 32 word) \<Rightarrow> log_record \<Rightarrow> bytes" where
  "enc_bytes crc r = (case record_encode crc r of Inl _ \<Rightarrow> [] | Inr bs \<Rightarrow> bs)"

definition log_bytes :: "(bytes \<Rightarrow> 32 word) \<Rightarrow> log_record list \<Rightarrow> bytes" where
  "log_bytes crc rs = concat (map (enc_bytes crc) rs)"

lemma log_bytes_simps [simp]:
  "log_bytes crc [] = []" "log_bytes crc (r # rs) = enc_bytes crc r @ log_bytes crc rs"
  "log_bytes crc (rs @ ss) = log_bytes crc rs @ log_bytes crc ss"
  by (simp_all add: log_bytes_def)

lemma enc_bytes_encode: "rec_ok crc r \<Longrightarrow> record_encode crc r = Inr (enc_bytes crc r)"
  by (auto simp: rec_ok_def enc_bytes_def)

lemma enc_bytes_nonempty: "rec_ok crc r \<Longrightarrow> enc_bytes crc r \<noteq> []"
  using record_encode_nonempty enc_bytes_encode by blast

lemma decode_enc_bytes:
  "rec_ok crc r \<Longrightarrow> record_decode crc (enc_bytes crc r @ rest) = Inr (r, length (enc_bytes crc r))"
  using record_decode_encode [OF enc_bytes_encode] by (simp add: rec_ok_def)

lemma scan_data_Nil [simp]: "scan_data crc [] = ([], True)"
  by (simp add: scan_data.simps)

lemma scan_data_enc:
  assumes "rec_ok crc r"
  shows "scan_data crc (enc_bytes crc r @ rest) = (r # fst (scan_data crc rest), snd (scan_data crc rest))"
  using enc_bytes_nonempty [OF assms] decode_enc_bytes [OF assms, of rest]
  by (subst scan_data.simps) (simp add: split_beta)

lemma scan_data_log:
  assumes "\<forall>r \<in> set rs. rec_ok crc r"
  shows "scan_data crc (log_bytes crc rs @ rest) = (rs @ fst (scan_data crc rest), snd (scan_data crc rest))"
  using assms by (induction rs) (simp_all add: scan_data_enc)

lemma scan_data_fail: "data \<noteq> [] \<Longrightarrow> record_decode crc data = Inl e \<Longrightarrow> scan_data crc data = ([], False)"
  by (subst scan_data.simps) simp

lemma scan_data_torn:
  assumes "rec_ok crc r" "enc_bytes crc r = p @ q" "q \<noteq> []"
  shows "fst (scan_data crc p) = []"
  using scan_data_fail [OF _ record_decode_torn [OF enc_bytes_encode [OF assms(1)] assms(2,3)]]
  by (cases "p = []") auto

text \<open>
  A log cut at any byte: the reader returns exactly the records that lie completely before
  the cut.
\<close>

lemma scan_data_cut:
  assumes "\<forall>r \<in> set rs. rec_ok crc r" "prefix p (log_bytes crc rs)"
  shows "\<exists>k \<le> length rs. fst (scan_data crc p) = take k rs \<and> length (log_bytes crc (take k rs)) \<le> length p \<and>
    (k < length rs \<longrightarrow> length p < length (log_bytes crc (take (Suc k) rs)))"
  using assms
proof (induction rs arbitrary: p)
  case (Cons r rs)
  have ok: "rec_ok crc r" using Cons.prems by simp
  from Cons.prems(2) consider (inside) q where "enc_bytes crc r = p @ q" "q \<noteq> []"
    | (after) p' where "p = enc_bytes crc r @ p'" "prefix p' (log_bytes crc rs)"
    by (auto simp: prefix_def append_eq_append_conv2) (metis append_Nil2)+
  then show ?case
  proof cases
    case inside
    then show ?thesis using scan_data_torn [OF ok inside] by (intro exI [of _ 0]) (cases q, auto)
  next
    case after
    then obtain k where k: "k \<le> length rs" "fst (scan_data crc p') = take k rs"
      "length (log_bytes crc (take k rs)) \<le> length p'"
      "k < length rs \<longrightarrow> length p' < length (log_bytes crc (take (Suc k) rs))"
      using Cons by auto
    then show ?thesis using after scan_data_enc [OF ok] by (intro exI [of _ "Suc k"]) auto
  qed
qed simp

section \<open>Directories of encoded records\<close>

text \<open>\<^verbatim>\<open>dir_holds crc dir rss\<close>: segment by segment, the directory is the encoding of \<^verbatim>\<open>rss\<close>.\<close>

definition dir_holds :: "(bytes \<Rightarrow> 32 word) \<Rightarrow> wal_dir \<Rightarrow> log_record list list \<Rightarrow> bool" where
  "dir_holds crc dir rss \<longleftrightarrow>
    map snd dir = map (log_bytes crc) rss \<and> (\<forall>rs \<in> set rss. \<forall>r \<in> set rs. rec_ok crc r)"

lemma dir_holds_Nil [simp]: "dir_holds crc [] rss \<longleftrightarrow> rss = []"
  by (auto simp: dir_holds_def)

lemma dir_holds_append:
  "length dir = length rss \<Longrightarrow>
   dir_holds crc (dir @ dir') (rss @ rss') \<longleftrightarrow> dir_holds crc dir rss \<and> dir_holds crc dir' rss'"
  by (auto simp: dir_holds_def)

lemma dir_holds_length: "dir_holds crc dir rss \<Longrightarrow> length dir = length rss"
  by (auto simp: dir_holds_def dest: map_eq_imp_length_eq)

lemma dir_holds_single [simp]:
  "dir_holds crc [(i, d)] [rs] \<longleftrightarrow> d = log_bytes crc rs \<and> (\<forall>r \<in> set rs. rec_ok crc r)"
  by (auto simp: dir_holds_def)

lemma scan_items_holds:
  "dir_holds crc dir rss \<Longrightarrow>
   scan_items crc start (dir @ dir') =
     map Inr (filter (\<lambda>r. \<not> rec_lsn r < start) (concat rss)) @ scan_items crc start dir'"
proof (induction dir arbitrary: rss)
  case (Cons s dir)
  obtain i d where s: "s = (i, d)" by fastforce
  from Cons.prems s obtain rs rss' where rss: "rss = rs # rss'" "d = log_bytes crc rs"
    "\<forall>r \<in> set rs. rec_ok crc r" "dir_holds crc dir rss'"
    by (auto simp: dir_holds_def)
  show ?case
    using Cons.IH [OF rss(4)] scan_data_log [OF rss(3), of "[]"] by (simp add: s rss)
qed simp

lemma collect_results_Inr [simp]: "collect_results (map Inr xs) = Inr xs"
  by (induction xs) auto

lemma filter_isl_map_Inr [simp]: "filter (\<lambda>i. \<not> isl i) (map Inr xs) = map Inr xs"
  by (induction xs) auto

lemma scan_forward_holds:
  assumes "dir_holds crc dir rss" "length (concat rss) < MAX_RECOVERY_RECORDS"
  shows "scan_forward crc start dir = map Inr (filter (\<lambda>r. \<not> rec_lsn r < start) (concat rss))"
proof -
  have "scan_items crc start dir = map Inr (filter (\<lambda>r. \<not> rec_lsn r < start) (concat rss))"
    using scan_items_holds [OF assms(1), of start "[]"] by simp
  moreover have "length (filter (\<lambda>r. \<not> rec_lsn r < start) (concat rss)) < MAX_RECOVERY_RECORDS"
    using assms(2) length_filter_le le_less_trans by blast
  ultimately show ?thesis by (simp add: scan_forward_def Let_def)
qed

section \<open>The writer invariant\<close>

definition wal_inv :: "(bytes \<Rightarrow> 32 word) \<Rightarrow> wal_writer \<Rightarrow> log_record list \<Rightarrow> bool" where
  "wal_inv crc w rs \<longleftrightarrow>
    (\<exists>rss. dir_holds crc (writer_dir w) rss \<and> concat rss = rs) \<and> active_segment_size w = length (active_data w)"

lemma wal_inv_create: "writer_create [] = Inr w \<Longrightarrow> wal_inv crc w []"
  by (auto simp: writer_create_def wal_inv_def writer_dir_def dir_holds_def intro!: exI [of _ "[[]]"])

lemma dir_holds_snocE:
  assumes "dir_holds crc (dir @ [(i, d)]) rss"
  obtains rss' rs where "rss = rss' @ [rs]" "dir_holds crc dir rss'" "d = log_bytes crc rs"
    "\<forall>r \<in> set rs. rec_ok crc r"
proof -
  have "rss \<noteq> []" using dir_holds_length [OF assms] by auto
  then obtain rss' rs where rss: "rss = rss' @ [rs]" by (metis append_butlast_last_id)
  then have "length dir = length rss'" using dir_holds_length [OF assms] by simp
  then show thesis using assms rss that dir_holds_append [of dir rss' crc "[(i, d)]" "[rs]"] by auto
qed

lemma writer_append_inv:
  assumes "wal_inv crc w rs" "writer_append crc r w = Inr (l, w')" "payload_ok (rec_payload r)"
  shows "wal_inv crc w' (rs @ [r\<lparr>rec_lsn := next_lsn w\<rparr>]) \<and> l = next_lsn w \<and> next_lsn w' = next_lsn w + 1"
proof -
  let ?r = "r\<lparr>rec_lsn := next_lsn w\<rparr>"
  obtain enc where enc: "record_encode crc ?r = Inr enc"
    using assms(2) by (auto simp: writer_append_def Let_def and_then_eq_Inr)
  then have ok: "rec_ok crc ?r" and e: "enc = enc_bytes crc ?r"
    using assms(3) by (auto simp: rec_ok_def enc_bytes_def)
  obtain rss where "dir_holds crc (closed_segments w @ [(active_segment_id w, active_data w)]) rss"
    and rs: "concat rss = rs"
    using assms(1) by (auto simp: wal_inv_def writer_dir_def)
  then obtain rss' as where rss: "rss = rss' @ [as]" "dir_holds crc (closed_segments w) rss'"
    "active_data w = log_bytes crc as" "\<forall>r \<in> set as. rec_ok crc r" by (elim dir_holds_snocE)
  have len: "length (closed_segments w) = length rss'" by (rule dir_holds_length [OF rss(2)])
  let ?rot = "active_segment_size w > 0 \<and> active_segment_size w + length enc > max_segment_size w"
  have eqs: "l = next_lsn w" "next_lsn w' = next_lsn w + 1"
    "active_segment_size w' = length (active_data w')"
    and dir: "writer_dir w' = (if ?rot then writer_dir w @ [(active_segment_id w + 1, enc)]
       else closed_segments w @ [(active_segment_id w, active_data w @ enc)])"
    using assms(1,2) enc
    by (auto simp: writer_append_def rotate_segment_def Let_def and_then_eq_Inr writer_dir_def wal_inv_def
        split: if_splits)
  have "\<exists>rss2. dir_holds crc (writer_dir w') rss2 \<and> concat rss2 = rs @ [?r]"
  proof (cases ?rot)
    case True
    have "dir_holds crc (writer_dir w') ((rss' @ [as]) @ [[?r]])"
      unfolding dir using True rss len ok e by (simp add: writer_dir_def dir_holds_append del: append_assoc)
    then show ?thesis using rs rss(1) by (intro exI [of _ "(rss' @ [as]) @ [[?r]]"]) simp
  next
    case False
    have "dir_holds crc (writer_dir w') (rss' @ [as @ [?r]])"
      unfolding dir if_not_P [OF False] using rss len ok e by (simp add: dir_holds_append)
    then show ?thesis using rs rss(1) by (intro exI [of _ "rss' @ [as @ [?r]]"]) simp
  qed
  then show ?thesis using eqs by (simp add: wal_inv_def)
qed

text \<open>The records a sequence of appends writes, with the sequence numbers they are given.\<close>

fun with_lsns :: "lsn \<Rightarrow> log_record list \<Rightarrow> log_record list" where
  "with_lsns l [] = []"
| "with_lsns l (r # rs) = r\<lparr>rec_lsn := l\<rparr> # with_lsns (l + 1) rs"

lemma append_all_inv:
  assumes "wal_inv crc w done" "append_all crc rs w = Inr w'" "\<forall>r \<in> set rs. payload_ok (rec_payload r)"
  shows "wal_inv crc w' (done @ with_lsns (next_lsn w) rs) \<and> next_lsn w' = next_lsn w + of_nat (length rs)"
  using assms
proof (induction rs arbitrary: w "done")
  case (Cons r rs)
  obtain l w1 where w1: "writer_append crc r w = Inr (l, w1)" "append_all crc rs w1 = Inr w'"
    using Cons.prems(2) by (auto simp: and_then_eq_Inr)
  have "payload_ok (rec_payload r)" using Cons.prems(3) by simp
  note s = writer_append_inv [OF Cons.prems(1) w1(1) this]
  from s have i: "wal_inv crc w1 (done @ [r\<lparr>rec_lsn := next_lsn w\<rparr>])" and n: "next_lsn w1 = next_lsn w + 1"
    by auto
  show ?case using Cons.IH [OF i w1(2)] Cons.prems(3) by (simp add: n algebra_simps)
qed simp

lemma length_with_lsns [simp]: "length (with_lsns l rs) = length rs"
  by (induction rs arbitrary: l) auto

lemma fresh_log_read_back:
  assumes "writer_create [] = Inr w0" "append_all crc rs w0 = Inr w"
    and "\<forall>r \<in> set rs. payload_ok (rec_payload r)" "length rs < MAX_RECOVERY_RECORDS"
  shows "collect_results (scan_forward crc 0 (writer_dir w)) = Inr (with_lsns 0 rs)"
proof -
  have "next_lsn w0 = 0" using assms(1) by (auto simp: writer_create_def)
  then have "wal_inv crc w (with_lsns 0 rs)"
    using append_all_inv [OF wal_inv_create [OF assms(1)] assms(2,3)] by simp
  then obtain rss where rss: "dir_holds crc (writer_dir w) rss" "concat rss = with_lsns 0 rs"
    by (auto simp: wal_inv_def)
  then show ?thesis using scan_forward_holds [OF rss(1), of 0] assms(4) by simp
qed

section \<open>Crashes and reopening\<close>

definition crash_dir :: "wal_writer \<Rightarrow> nat \<Rightarrow> wal_dir" where
  "crash_dir w k = closed_segments w @ [(active_segment_id w, take k (active_data w))]"

definition surviving_bytes :: "wal_writer \<Rightarrow> nat \<Rightarrow> nat" where
  "surviving_bytes w k = length (concat (map snd (crash_dir w k)))"

lemma scan_items_last: "scan_items crc 0 [(i, d)] = map Inr (fst (scan_data crc d))"
  by (simp add: split_beta)

lemma scan_forward_items:
  assumes "scan_items crc start dir = map Inr rs" "length rs < MAX_RECOVERY_RECORDS"
  shows "scan_forward crc start dir = map Inr rs"
  using assms by (simp add: scan_forward_def)

lemma concat_log_bytes: "concat (map (log_bytes crc) rss) = log_bytes crc (concat rss)"
  by (induction rss) auto

lemma crash_reads_prefix:
  assumes "wal_inv crc w rs" "length rs < MAX_RECOVERY_RECORDS"
  shows "\<exists>m \<le> length rs. collect_results (scan_forward crc 0 (crash_dir w k)) = Inr (take m rs) \<and>
    length (log_bytes crc (take m rs)) \<le> surviving_bytes w k \<and>
    (m < length rs \<longrightarrow> surviving_bytes w k < length (log_bytes crc (take (Suc m) rs)))"
proof -
  obtain rss where h: "dir_holds crc (closed_segments w @ [(active_segment_id w, active_data w)]) rss"
    and rs: "concat rss = rs"
    using assms(1) by (auto simp: wal_inv_def writer_dir_def)
  from h obtain rss' as where rss: "rss = rss' @ [as]" "dir_holds crc (closed_segments w) rss'"
    "active_data w = log_bytes crc as" "\<forall>r \<in> set as. rec_ok crc r" by (elim dir_holds_snocE)
  have "prefix (take k (active_data w)) (log_bytes crc as)" by (simp add: rss(3) take_is_prefix)
  from scan_data_cut [OF rss(4) this] obtain j where
    j: "j \<le> length as" "fst (scan_data crc (take k (active_data w))) = take j as"
    "length (log_bytes crc (take j as)) \<le> length (take k (active_data w))"
    "j < length as \<longrightarrow> length (take k (active_data w)) < length (log_bytes crc (take (Suc j) as))" by blast
  let ?m = "length (concat rss') + j"
  have rs2: "rs = concat rss' @ as" using rs rss(1) by simp
  have tk: "take ?m rs = concat rss' @ take j as" "take (Suc ?m) rs = concat rss' @ take (Suc j) as"
    by (simp_all add: rs2)
  have "scan_items crc 0 (crash_dir w k) = map Inr (take ?m rs)"
    unfolding crash_dir_def scan_items_holds [OF rss(2)] scan_items_last using j(2) tk(1) by simp
  moreover have "length (take ?m rs) < MAX_RECOVERY_RECORDS" using assms(2) by simp
  ultimately have "collect_results (scan_forward crc 0 (crash_dir w k)) = Inr (take ?m rs)"
    by (simp only: scan_forward_items collect_results_Inr)
  moreover have "surviving_bytes w k = length (log_bytes crc (concat rss')) + length (take k (active_data w))"
    using rss(2) by (simp add: surviving_bytes_def crash_dir_def dir_holds_def flip: concat_log_bytes)
  ultimately show ?thesis
    using j(1,3,4) by (intro exI [of _ ?m]) (auto simp: tk rs2)
qed

lemma highest_lsn_log:
  "\<forall>r \<in> set rs. rec_ok crc r \<Longrightarrow>
   highest_lsn crc (log_bytes crc rs) = (if rs = [] then None else Some (rec_lsn (last rs)))"
  using scan_data_log [of rs crc "[]"] by (auto simp: highest_lsn_def split: list.split)

lemma found_lsn_holds:
  "dir_holds crc dir rss \<Longrightarrow>
   found_lsn crc (rev dir) = (if concat rss = [] then None else Some (rec_lsn (last (concat rss))))"
proof (induction dir arbitrary: rss rule: rev_induct)
  case (snoc s dir)
  obtain i d where s: "s = (i, d)" by fastforce
  from snoc.prems [unfolded s] obtain rss' rs where rss: "rss = rss' @ [rs]" "dir_holds crc dir rss'"
    "d = log_bytes crc rs" "\<forall>r \<in> set rs. rec_ok crc r" by (elim dir_holds_snocE)
  show ?case using snoc.IH [OF rss(2)] highest_lsn_log [OF rss(4)] by (auto simp: s rss)
qed simp

lemma reopen_continues:
  assumes "wal_inv crc w rs" "rs \<noteq> []" "writer_open crc (writer_dir w) = Inr w'"
  shows "wal_inv crc w' rs \<and> next_lsn w' = rec_lsn (last rs) + 1 \<and> writer_dir w' = writer_dir w"
proof -
  obtain rss where h: "dir_holds crc (closed_segments w @ [(active_segment_id w, active_data w)]) rss"
    and rs: "concat rss = rs"
    using assms(1) by (auto simp: wal_inv_def writer_dir_def)
  from h obtain rss' as where rss: "rss = rss' @ [as]" "dir_holds crc (closed_segments w) rss'"
    "active_data w = log_bytes crc as" "\<forall>r \<in> set as. rec_ok crc r" by (elim dir_holds_snocE)
  have w': "writer_dir w' = writer_dir w" "active_segment_size w' = length (active_data w')"
    using assms(3) by (auto simp: writer_open_def writer_dir_def)
  have "next_lsn w' = rec_lsn (last rs) + 1"
    using assms(2,3) rs rss highest_lsn_log [OF rss(4)] found_lsn_holds [OF rss(2)]
    by (cases "as = []") (auto simp: writer_open_def writer_dir_def)
  then show ?thesis using w' assms(1) by (simp add: wal_inv_def)
qed

text \<open>
  Reopening keeps a torn tail in place and appends behind it. Unless the torn bytes together
  with what follows happen to decode, the reader stops there and never reaches the new record.
\<close>

lemma torn_tail_hides_append:
  assumes dir: "dir_holds crc closed rss" "\<forall>r \<in> set as. rec_ok crc r" "torn \<noteq> []"
    "record_decode crc torn = Inl e0"
    and w: "writer_open crc (closed @ [(i, log_bytes crc as @ torn)]) = Inr w"
    and app: "writer_append crc r w = Inr (l, w')"
    and fits: "length (log_bytes crc as @ torn @ enc_bytes crc (r\<lparr>rec_lsn := l\<rparr>)) \<le> DEFAULT_MAX_SEGMENT_SIZE"
    and garbage: "record_decode crc (torn @ enc_bytes crc (r\<lparr>rec_lsn := l\<rparr>)) = Inl e"
    and few: "length (concat rss @ as) < MAX_RECOVERY_RECORDS"
  shows "collect_results (scan_forward crc 0 (writer_dir w')) = Inr (concat rss @ as)"
proof -
  have cw: "closed_segments w = closed" "active_data w = log_bytes crc as @ torn"
    "active_segment_size w = length (log_bytes crc as @ torn)" "max_segment_size w = DEFAULT_MAX_SEGMENT_SIZE"
    using w by (auto simp: writer_open_def)
  have "active_data w' = log_bytes crc as @ torn @ enc_bytes crc (r\<lparr>rec_lsn := l\<rparr>)"
    and cl: "closed_segments w' = closed"
    using app fits cw
    by (auto simp: writer_append_def rotate_segment_def Let_def and_then_eq_Inr enc_bytes_def split: if_splits)
  moreover have "scan_data crc (torn @ enc_bytes crc (r\<lparr>rec_lsn := l\<rparr>)) = ([], False)"
    using dir(3) by (intro scan_data_fail [OF _ garbage]) simp
  ultimately have "fst (scan_data crc (active_data w')) = as"
    using scan_data_log [OF dir(2)] by simp
  then have "scan_items crc 0 (writer_dir w') = map Inr (concat rss @ as)"
    unfolding writer_dir_def cl scan_items_holds [OF dir(1)] scan_items_last by simp
  then show ?thesis by (simp only: scan_forward_items [OF _ few] collect_results_Inr)
qed

section \<open>Runs of the log\<close>

text \<open>
  The states of a log that is created, appended to, and any number of times closed and
  reopened, with the records it has accepted.
\<close>

inductive wal_run :: "(bytes \<Rightarrow> 32 word) \<Rightarrow> wal_writer \<Rightarrow> log_record list \<Rightarrow> bool" for crc where
  create: "writer_create [] = Inr w \<Longrightarrow> wal_run crc w []"
| append: "wal_run crc w rs \<Longrightarrow> writer_append crc r w = Inr (l, w') \<Longrightarrow> payload_ok (rec_payload r) \<Longrightarrow>
    wal_run crc w' (rs @ [r\<lparr>rec_lsn := l\<rparr>])"
| reopen: "wal_run crc w rs \<Longrightarrow> writer_open crc (writer_dir w) = Inr w' \<Longrightarrow> wal_run crc w' rs"

lemma reopen_empty:
  assumes "wal_inv crc w []" "writer_open crc (writer_dir w) = Inr w'"
  shows "wal_inv crc w' [] \<and> next_lsn w' = 0 \<and> writer_dir w' = writer_dir w"
proof -
  obtain rss where h: "dir_holds crc (closed_segments w @ [(active_segment_id w, active_data w)]) rss"
    and rs: "concat rss = []"
    using assms(1) by (auto simp: wal_inv_def writer_dir_def)
  from h obtain rss' as where rss: "rss = rss' @ [as]" "dir_holds crc (closed_segments w) rss'"
    "active_data w = log_bytes crc as" "\<forall>r \<in> set as. rec_ok crc r" by (elim dir_holds_snocE)
  then have "as = []" "concat rss' = []" using rs by auto
  then have "next_lsn w' = 0"
    using assms(2) rss highest_lsn_log [OF rss(4)] found_lsn_holds [OF rss(2)]
    by (auto simp: writer_open_def writer_dir_def)
  moreover have "writer_dir w' = writer_dir w" "active_segment_size w' = length (active_data w')"
    using assms(2) by (auto simp: writer_open_def writer_dir_def)
  ultimately show ?thesis using assms(1) by (simp add: wal_inv_def)
qed

lemma wal_run_inv:
  assumes "wal_run crc w rs"
  shows "wal_inv crc w rs \<and> map rec_lsn rs = map of_nat [0..<length rs] \<and> next_lsn w = of_nat (length rs)"
  using assms
proof induction
  case (create w)
  then show ?case using wal_inv_create [OF create] by (auto simp: writer_create_def)
next
  case (append w rs r l w')
  then show ?case using writer_append_inv [of crc w rs r l w'] by auto
next
  case (reopen w rs w')
  show ?case
  proof (cases "rs = []")
    case True
    then show ?thesis using reopen reopen_empty by auto
  next
    case False
    have "rec_lsn (last rs) = last (map rec_lsn rs)" using False by (simp add: last_map)
    also have "\<dots> = of_nat (length rs - 1)" using reopen.IH False by (simp add: last_map)
    finally have "rec_lsn (last rs) + 1 = of_nat (length rs)"
      using False by (cases rs) (simp_all add: add.commute)
    then show ?thesis using reopen reopen_continues [OF _ False reopen.hyps(2)] by auto
  qed
qed

lemma wal_run_dir:
  assumes "wal_run crc w rs"
  obtains rss where "dir_holds crc (writer_dir w) rss" "concat rss = rs"
  using wal_run_inv [OF assms] by (auto simp: wal_inv_def)

lemma wal_run_scan:
  assumes "wal_run crc w rs" "length rs < MAX_RECOVERY_RECORDS"
  shows "collect_results (scan_forward crc start (writer_dir w)) = Inr (filter (\<lambda>r. \<not> rec_lsn r < start) rs)"
  using scan_forward_holds [of crc "writer_dir w" _ start] wal_run_dir [OF assms(1)] assms(2)
  by (metis collect_results_Inr)

lemma last_checkpoint_loop_map:
  "last_checkpoint_loop (map Inr rs) acc =
    (case filter (\<lambda>r. record_type r = RtCheckpoint) (rev rs) of [] \<Rightarrow> acc | r # _ \<Rightarrow> rec_lsn r)"
  by (induction rs arbitrary: acc) (auto simp: filter_empty_conv split: list.splits)

lemma find_last_checkpoint_run:
  assumes "wal_run crc w rs" "length rs < MAX_RECOVERY_RECORDS"
  shows "find_last_checkpoint crc (writer_dir w) =
    (case filter (\<lambda>r. record_type r = RtCheckpoint) (rev rs) of [] \<Rightarrow> LSN_INVALID | r # _ \<Rightarrow> rec_lsn r)"
proof -
  obtain rss where "dir_holds crc (writer_dir w) rss" "concat rss = rs" by (rule wal_run_dir [OF assms(1)])
  then have "scan_forward crc 0 (writer_dir w) = map Inr rs"
    using scan_forward_holds [of crc "writer_dir w" rss 0] assms(2) by simp
  then show ?thesis
    by (simp only: find_last_checkpoint_def last_checkpoint_loop_map) (simp add: writer_dir_def)
qed

section \<open>Truncation\<close>

lemma droppable_below:
  assumes "\<forall>r \<in> set rs. rec_ok crc r" "sorted (map rec_lsn rs)"
    and "highest_lsn crc (log_bytes crc rs) = Some h" "h < threshold"
  shows "filter (\<lambda>r. \<not> rec_lsn r < threshold) rs = []"
proof -
  have ne: "rs \<noteq> []" and h: "h = rec_lsn (last rs)"
    using assms(1,3) highest_lsn_log [of rs crc] by (auto split: if_splits)
  have "rec_lsn r \<le> h" if "r \<in> set rs" for r
    using that assms(2) ne unfolding h
    by (induction rs rule: rev_induct) (auto simp: sorted_append)
  then show ?thesis using assms(4) by (auto simp: filter_empty_conv intro: le_less_trans)
qed

lemma truncate_before_keeps:
  assumes "dir_holds crc dir rss" "\<forall>rs \<in> set rss. sorted (map rec_lsn rs)"
  shows "scan_items crc threshold (snd (truncate_before crc threshold dir)) = scan_items crc threshold dir"
proof -
  define drp where "drp = (\<lambda>(id :: nat, d).
      let h = (case highest_lsn crc d of Some l \<Rightarrow> l | None \<Rightarrow> LSN_INVALID) in lsn_is_valid h \<and> h < threshold)"
  have keep: "scan_items crc threshold (filter (\<lambda>s. \<not> drp s) segs @ tl) = scan_items crc threshold (segs @ tl)"
    if "dir_holds crc segs rss" "\<forall>rs \<in> set rss. sorted (map rec_lsn rs)" for segs tl rss
    using that
  proof (induction segs arbitrary: rss)
    case (Cons s segs)
    obtain i d where s: "s = (i, d)" by fastforce
    from Cons.prems(1) s obtain rs rss' where rss: "rss = rs # rss'" "d = log_bytes crc rs"
      "\<forall>r \<in> set rs. rec_ok crc r" "dir_holds crc segs rss'"
      by (auto simp: dir_holds_def)
    have IH: "scan_items crc threshold (filter (\<lambda>s. \<not> drp s) segs @ tl) = scan_items crc threshold (segs @ tl)"
      using Cons.IH [OF rss(4)] Cons.prems(2) rss(1) by simp
    have sc: "scan_data crc d = (rs, True)" using scan_data_log [OF rss(3), of "[]"] rss(2) by simp
    show ?case
    proof (cases "drp s")
      case True
      then obtain h where "highest_lsn crc d = Some h" "h < threshold"
        by (auto simp: drp_def s lsn_is_valid_def split: option.splits)
      then have "filter (\<lambda>r. \<not> rec_lsn r < threshold) rs = []"
        using droppable_below [OF rss(3)] Cons.prems(2) rss(1,2) by auto
      then show ?thesis using True IH sc by (simp add: s)
    qed (use IH sc in \<open>simp add: s\<close>)
  qed simp
  show ?thesis
  proof (cases "length dir \<le> 1")
    case False
    then have ne: "dir \<noteq> []" by auto
    obtain i d where l: "last dir = (i, d)" by fastforce
    have dl: "dir = butlast dir @ [(i, d)]" using ne l by (metis append_butlast_last_id)
    from assms(1) dl obtain rss' rs where "rss = rss' @ [rs]" "dir_holds crc (butlast dir) rss'"
      by (metis dir_holds_snocE)
    then have "scan_items crc threshold (filter (\<lambda>s. \<not> drp s) (butlast dir) @ [last dir]) =
        scan_items crc threshold (butlast dir @ [last dir])"
      using assms(2) by (intro keep) auto
    then show ?thesis using False ne by (simp add: truncate_before_def Let_def drp_def)
  qed (simp add: truncate_before_def)
qed

lemma sorted_concat: "sorted (concat xss) \<Longrightarrow> xs \<in> set xss \<Longrightarrow> sorted xs"
  by (induction xss) (auto simp: sorted_append)

lemma wal_run_truncate:
  assumes "wal_run crc w rs" "length rs < MAX_RECOVERY_RECORDS"
  shows "scan_forward crc threshold (snd (truncate_before crc threshold (writer_dir w))) =
    scan_forward crc threshold (writer_dir w)"
proof -
  obtain rss where rss: "dir_holds crc (writer_dir w) rss" "concat rss = rs" by (rule wal_run_dir [OF assms(1)])
  have "(of_nat i :: lsn) \<le> of_nat j" if "i \<le> j" "j < length rs" for i j
    using that assms(2) by (simp add: MAX_RECOVERY_RECORDS_def word_le_nat_alt unat_of_nat)
  then have "sorted (map rec_lsn rs)"
    using wal_run_inv [OF assms(1)] by (auto simp: sorted_iff_nth_mono)
  then have "sorted (concat (map (map rec_lsn) rss))" using rss(2) by (simp flip: map_concat)
  then have "\<forall>rs \<in> set rss. sorted (map rec_lsn rs)" using sorted_concat by fastforce
  then show ?thesis using truncate_before_keeps [OF rss(1)] by (simp add: scan_forward_def)
qed

text \<open>A log with one record, under a constant checksum, for examples.\<close>

definition sample_writer :: wal_writer where
  "sample_writer = \<lparr>closed_segments = [], active_segment_id = 0, active_data = sample_bytes,
    active_segment_size = 33, next_lsn = 1, max_segment_size = DEFAULT_MAX_SEGMENT_SIZE\<rparr>"

lemma sample_payload_ok [simp]: "payload_ok (rec_payload sample_record)"
  by (simp add: payload_ok_def sample_record_def)

lemma sample_run: "wal_run (\<lambda>_. 1) sample_writer [sample_record]"
proof -
  let ?w0 = "\<lparr>closed_segments = [], active_segment_id = 0, active_data = [], active_segment_size = 0,
    next_lsn = 0, max_segment_size = DEFAULT_MAX_SEGMENT_SIZE\<rparr>"
  have lsn: "sample_record\<lparr>rec_lsn := 0\<rparr> = sample_record" by (simp add: sample_record_def)
  have "wal_run (\<lambda>_. 1) ?w0 []" by (intro wal_run.create) (simp add: writer_create_def)
  moreover have "length sample_bytes = 33" by (simp add: sample_bytes_def)
  then have "writer_append (\<lambda>_. 1) sample_record ?w0 = Inr (0, sample_writer)"
    by (simp add: writer_append_def Let_def lsn sample_encode sample_writer_def)
  ultimately have "wal_run (\<lambda>_. 1) sample_writer ([] @ [sample_record\<lparr>rec_lsn := 0\<rparr>])"
    by (rule wal_run.append) simp
  then show ?thesis by (simp add: lsn)
qed

section \<open>Properties\<close>



text \<open>
  C8. A crash that cuts the log at any byte of its last segment loses only a suffix: the scan
  returns a prefix of the accepted records, namely all those whose bytes survive completely.
\<close>

theorem crash_keeps_prefix:
  assumes "wal_run crc w rs" "length rs < MAX_RECOVERY_RECORDS"
  shows "\<exists>m \<le> length rs. collect_results (scan_forward crc 0 (crash_dir w k)) = Inr (take m rs) \<and>
    length (log_bytes crc (take m rs)) \<le> surviving_bytes w k \<and>
    (m < length rs \<longrightarrow> surviving_bytes w k < length (log_bytes crc (take (Suc m) rs)))"
  using wal_run_inv [OF assms(1)] by (intro crash_reads_prefix [OF _ assms(2)]) simp

theorem crash_keeps_prefix_witness:
  "\<exists>m \<le> 1. collect_results (scan_forward (\<lambda>_. 1) 0 (crash_dir sample_writer 30)) = Inr (take m [sample_record])"
  using crash_keeps_prefix [OF sample_run, of 30] by (auto simp: MAX_RECOVERY_RECORDS_def)

text \<open>
  C29. Truncating the log below a threshold removes no record at or above the threshold: a scan
  from the threshold reads the same.
\<close>

theorem truncation_keeps_suffix:
  assumes "wal_run crc w rs" "length rs < MAX_RECOVERY_RECORDS"
  shows "scan_forward crc threshold (snd (truncate_before crc threshold (writer_dir w))) =
    scan_forward crc threshold (writer_dir w)"
  using assms by (rule wal_run_truncate)

theorem truncation_keeps_suffix_witness:
  "scan_forward (\<lambda>_. 1) 1 (snd (truncate_before (\<lambda>_. 1) 1 (writer_dir sample_writer))) =
     scan_forward (\<lambda>_. 1) 1 (writer_dir sample_writer)"
  using truncation_keeps_suffix [OF sample_run, of 1] by (simp add: MAX_RECOVERY_RECORDS_def)

text \<open>
  C30. The checkpoint search finds the LSN of the last checkpoint record of the log, and the
  invalid LSN when the log has none.
\<close>

theorem last_checkpoint_found:
  assumes "wal_run crc w rs" "length rs < MAX_RECOVERY_RECORDS"
  shows "find_last_checkpoint crc (writer_dir w) =
    (case filter (\<lambda>r. record_type r = RtCheckpoint) (rev rs) of [] \<Rightarrow> LSN_INVALID | r # _ \<Rightarrow> rec_lsn r)"
  using assms by (rule find_last_checkpoint_run)

theorem last_checkpoint_found_witness:
  "find_last_checkpoint (\<lambda>_. 1) (writer_dir sample_writer) = LSN_INVALID"
  using last_checkpoint_found [OF sample_run]
  by (simp add: MAX_RECOVERY_RECORDS_def record_type_def sample_record_def)



end
