(* ===== verification/Recovery.thy ===== *)
theory Recovery
  imports Wal_Log Storage_Engine "HOL-Library.AList"
begin

text \<open>
  Crash recovery, \<^verbatim>\<open>idb-wal/src/wal/recovery.rs\<close>: analysis of the log from the last checkpoint, redo of
  the committed and auto-commit writes into a storage engine, and the statistics handed to the
  transaction manager.  The engine's put and delete are parameters.  A hash map is an association list
  with distinct keys and the elapsed time is left out of the statistics.  Proved against the storage
  contract: recovery applies exactly the committed writes in log order, repeating it changes nothing,
  and the reported transaction id bounds every id the log knows.
\<close>

section \<open>Model\<close>

record recovery_stats =
  records_scanned :: nat
  records_redone :: nat
  txns_committed :: nat
  committed_txns :: "(64 word \<times> 64 word) list"
  checkpoint_oracle_ts :: "64 word"
  uncommitted_txns :: "64 word set"
  max_txn_id :: "64 word"

record analysis =
  an_committed :: "(64 word \<times> 64 word) list"
  an_aborted :: "64 word set"
  an_oracle_ts :: "64 word"
  an_max_txn_id :: "64 word"

definition analyze_record :: "log_record \<Rightarrow> analysis \<Rightarrow> analysis" where
  "analyze_record r a =
    (case rec_payload r of
       Commit commit_ts \<Rightarrow> a\<lparr>an_committed := AList.update (rec_txn_id r) commit_ts (an_committed a)\<rparr>
     | Abort \<Rightarrow> a\<lparr>an_aborted := insert (rec_txn_id r) (an_aborted a)\<rparr>
     | Checkpoint active ots nxt \<Rightarrow>
         let from_active = fold max active 0;
             from_next = (if nxt = 0 then 0 else nxt - 1);
             candidate = max from_active from_next in
         a\<lparr>an_oracle_ts := ots,
           an_max_txn_id := (if candidate > an_max_txn_id a then candidate else an_max_txn_id a)\<rparr>
     | _ \<Rightarrow> a)"

definition analyze_transactions :: "log_record list \<Rightarrow> analysis" where
  "analyze_transactions rs =
    fold analyze_record rs \<lparr>an_committed = [], an_aborted = {}, an_oracle_ts = 0, an_max_txn_id = 0\<rparr>"

primrec redo_committed :: "(bytes \<Rightarrow> bytes \<Rightarrow> 's \<Rightarrow> 's result) \<Rightarrow> (bytes \<Rightarrow> 's \<Rightarrow> 's result) \<Rightarrow> 64 word set \<Rightarrow>
    log_record list \<Rightarrow> nat \<Rightarrow> 's \<Rightarrow> (nat \<times> 's) result" where
  "redo_committed put delete committed [] redone s = Inr (redone, s)"
| "redo_committed put delete committed (r # rs) redone s =
    (case rec_payload r of
       Put key val \<Rightarrow> and_then (put key val s) (redo_committed put delete committed rs (redone + 1))
     | Delete key \<Rightarrow> and_then (delete key s) (redo_committed put delete committed rs (redone + 1))
     | TxnPut key val _ \<Rightarrow>
         if rec_txn_id r \<in> committed
         then and_then (put key val s) (redo_committed put delete committed rs (redone + 1))
         else redo_committed put delete committed rs redone s
     | TxnDelete key _ \<Rightarrow>
         if rec_txn_id r \<in> committed
         then and_then (delete key s) (redo_committed put delete committed rs (redone + 1))
         else redo_committed put delete committed rs redone s
     | _ \<Rightarrow> redo_committed put delete committed rs redone s)"

definition seen_txns :: "log_record list \<Rightarrow> 64 word set \<times> 64 word" where
  "seen_txns rs = fold (\<lambda>r (seen, m).
     if rec_txn_id r \<noteq> 0 then (insert (rec_txn_id r) seen, if rec_txn_id r > m then rec_txn_id r else m)
     else (seen, m)) rs ({}, 0)"

definition recover :: "(bytes \<Rightarrow> 32 word) \<Rightarrow> (bytes \<Rightarrow> bytes \<Rightarrow> 's \<Rightarrow> 's result) \<Rightarrow> (bytes \<Rightarrow> 's \<Rightarrow> 's result) \<Rightarrow>
    wal_dir \<Rightarrow> lsn \<Rightarrow> 's \<Rightarrow> (recovery_stats \<times> 's) result" where
  "recover crc put delete dir last_checkpoint_lsn s =
    (let start_lsn = (if lsn_is_valid last_checkpoint_lsn then last_checkpoint_lsn else 0) in
     and_then (collect_results (scan_forward crc start_lsn dir)) (\<lambda>records.
       let a = analyze_transactions records;
           committed_set = set (map fst (an_committed a)) in
       and_then (redo_committed put delete committed_set records 0 s) (\<lambda>(redone, s).
         let (seen, max_records) = seen_txns records in
         Inr (\<lparr>records_scanned = length records, records_redone = redone, txns_committed = length (an_committed a),
               committed_txns = an_committed a, checkpoint_oracle_ts = an_oracle_ts a,
               uncommitted_txns = Set.filter (\<lambda>i. i \<notin> an_aborted a) (Set.filter (\<lambda>i. i \<notin> committed_set) seen),
               max_txn_id = max max_records (an_max_txn_id a)\<rparr>, s))))"

section \<open>Reference meaning\<close>

definition commit_records :: "log_record list \<Rightarrow> (64 word \<times> 64 word) list" where
  "commit_records rs = List.map_filter (\<lambda>r. case rec_payload r of Commit ts \<Rightarrow> Some (rec_txn_id r, ts) | _ \<Rightarrow> None) rs"

definition is_committed :: "log_record list \<Rightarrow> 64 word \<Rightarrow> bool" where
  "is_committed rs i \<longleftrightarrow> (\<exists>r \<in> set rs. rec_txn_id r = i \<and> (\<exists>ts. rec_payload r = Commit ts))"

definition is_aborted :: "log_record list \<Rightarrow> 64 word \<Rightarrow> bool" where
  "is_aborted rs i \<longleftrightarrow> (\<exists>r \<in> set rs. rec_txn_id r = i \<and> rec_payload r = Abort)"

text \<open>The write of a record when the transactions satisfying a predicate are committed.\<close>

definition record_write :: "(64 word \<Rightarrow> bool) \<Rightarrow> log_record \<Rightarrow> engine_write option" where
  "record_write P r =
    (case rec_payload r of
       Put k v \<Rightarrow> Some (Write_put k v)
     | Delete k \<Rightarrow> Some (Write_delete k)
     | TxnPut k v _ \<Rightarrow> if P (rec_txn_id r) then Some (Write_put k v) else None
     | TxnDelete k _ \<Rightarrow> if P (rec_txn_id r) then Some (Write_delete k) else None
     | _ \<Rightarrow> None)"

definition committed_writes :: "log_record list \<Rightarrow> engine_write list" where
  "committed_writes rs = List.map_filter (record_write (is_committed rs)) rs"

lemma fold_analyze:
  "an_committed (fold analyze_record rs a) = fold (\<lambda>(i, ts). AList.update i ts) (commit_records rs) (an_committed a)"
  "an_aborted (fold analyze_record rs a) = an_aborted a \<union> {i. is_aborted rs i}"
proof -
  show "an_committed (fold analyze_record rs a) = fold (\<lambda>(i, ts). AList.update i ts) (commit_records rs) (an_committed a)"
    by (induction rs arbitrary: a)
      (auto simp: commit_records_def List.map_filter_simps analyze_record_def Let_def split: log_payload.splits)
  show "an_aborted (fold analyze_record rs a) = an_aborted a \<union> {i. is_aborted rs i}"
    by (induction rs arbitrary: a)
      (auto simp: is_aborted_def analyze_record_def Let_def split: log_payload.splits)
qed

lemma keys_fold_update: "fst ` set (fold (\<lambda>(i, ts). AList.update i ts) cs al) = fst ` set cs \<union> fst ` set al"
  by (induction cs arbitrary: al) (simp_all add: case_prod_beta AList.dom_update)

lemma commit_records_keys: "i \<in> fst ` set (commit_records rs) \<longleftrightarrow> is_committed rs i"
  by (induction rs) (auto simp: commit_records_def List.map_filter_simps is_committed_def split: log_payload.splits)

lemma analysis_facts:
  shows "i \<in> fst ` set (an_committed (analyze_transactions rs)) \<longleftrightarrow> is_committed rs i"
    and "an_aborted (analyze_transactions rs) = {i. is_aborted rs i}"
    and "map_of (an_committed (analyze_transactions rs)) = map_of (rev (commit_records rs))"
    and "distinct (map fst (an_committed (analyze_transactions rs)))"
proof -
  have m: "map_of (fold (\<lambda>(i, ts). AList.update i ts) cs al) = map_of (rev cs @ al)" for cs :: "(64 word \<times> 64 word) list" and al
    by (induction cs arbitrary: al) (auto simp: AList.update_conv')
  have d: "distinct (map fst al) \<Longrightarrow> distinct (map fst (fold (\<lambda>(i, ts). AList.update i ts) cs al))"
    for cs al :: "(64 word \<times> 64 word) list"
    by (induction cs arbitrary: al) (auto simp: AList.distinct_update)
  show "i \<in> fst ` set (an_committed (analyze_transactions rs)) \<longleftrightarrow> is_committed rs i"
    by (simp add: analyze_transactions_def fold_analyze keys_fold_update commit_records_keys)
  show "an_aborted (analyze_transactions rs) = {i. is_aborted rs i}"
    by (simp add: analyze_transactions_def fold_analyze)
  show "map_of (an_committed (analyze_transactions rs)) = map_of (rev (commit_records rs))"
    by (simp add: analyze_transactions_def fold_analyze m)
  show "distinct (map fst (an_committed (analyze_transactions rs)))"
    by (simp add: analyze_transactions_def fold_analyze d)
qed

lemma redo_run_writes:
  "redo_committed put delete C rs n s =
    and_then (run_writes put delete (List.map_filter (record_write (\<lambda>i. i \<in> C)) rs) s)
      (\<lambda>s. Inr (n + length (List.map_filter (record_write (\<lambda>i. i \<in> C)) rs), s))"
proof (induction rs arbitrary: n s)
  case (Cons r rs)
  have b: "and_then (and_then x f) g = and_then x (\<lambda>y. and_then (f y) g)" for x :: "'a result" and f and g :: "'a \<Rightarrow> (nat \<times> 'a) result"
    by (cases x) simp_all
  have w: "record_write (\<lambda>i. i \<in> C) r = (case rec_payload r of Put k v \<Rightarrow> Some (Write_put k v) | Delete k \<Rightarrow> Some (Write_delete k)
      | TxnPut k v _ \<Rightarrow> if rec_txn_id r \<in> C then Some (Write_put k v) else None
      | TxnDelete k _ \<Rightarrow> if rec_txn_id r \<in> C then Some (Write_delete k) else None | _ \<Rightarrow> None)"
    by (simp add: record_write_def)
  have IH: "redo_committed put delete C rs n = (\<lambda>s. and_then (run_writes put delete (List.map_filter (record_write (\<lambda>i. i \<in> C)) rs) s)
      (\<lambda>s. Inr (n + length (List.map_filter (record_write (\<lambda>i. i \<in> C)) rs), s)))" for n
    by (rule ext) (rule Cons)
  show ?case by (cases "rec_payload r") (simp_all add: List.map_filter_simps w IH b)
qed (simp add: List.map_filter_simps)

lemma seen_txns_facts:
  "fst (seen_txns rs) = rec_txn_id ` set rs - {0}" "\<forall>r \<in> set rs. rec_txn_id r \<le> snd (seen_txns rs)"
proof -
  define f where "f = (\<lambda>(r :: log_record) (seen, m :: 64 word).
     if rec_txn_id r \<noteq> 0 then (insert (rec_txn_id r) seen, if rec_txn_id r > m then rec_txn_id r else m) else (seen, m))"
  have "fst (fold f rs (S, m)) = S \<union> (rec_txn_id ` set rs - {0}) \<and> m \<le> snd (fold f rs (S, m)) \<and>
      (\<forall>r \<in> set rs. rec_txn_id r \<le> snd (fold f rs (S, m)))" for S m
  proof (induction rs arbitrary: S m)
    case (Cons r rs)
    obtain S' m' where sm: "f r (S, m) = (S', m')" by fastforce
    then have "m \<le> m'" "rec_txn_id r \<le> m'" "S' = S \<union> ({rec_txn_id r} - {0})" by (auto simp: f_def split: if_splits)
    then show ?case using Cons.IH [of S' m'] sm by (auto intro: order_trans)
  qed simp
  from this [of "{}" 0] show "fst (seen_txns rs) = rec_txn_id ` set rs - {0}" "\<forall>r \<in> set rs. rec_txn_id r \<le> snd (seen_txns rs)"
    by (auto simp: seen_txns_def f_def)
qed

text \<open>The transaction ids a checkpoint record vouches for.\<close>

definition checkpoint_ids :: "log_record \<Rightarrow> 64 word set" where
  "checkpoint_ids r = (case rec_payload r of Checkpoint active _ nxt \<Rightarrow> set active \<union> {i. i < nxt} | _ \<Rightarrow> {})"

lemma fold_max_ge: "(x :: 'a :: linorder) \<in> set xs \<or> x \<le> y \<Longrightarrow> x \<le> fold max xs y"
proof (induction xs arbitrary: y)
  case (Cons a xs)
  then have "x \<in> set xs \<or> x \<le> max a y" by (auto simp: le_max_iff_disj)
  then show ?case using Cons.IH by simp
qed simp

lemma word_less_pred: "(i :: 64 word) < nxt \<Longrightarrow> i \<le> nxt - 1"
  by unat_arith

lemma analysis_max_txn:
  assumes "r \<in> set rs" "i \<in> checkpoint_ids r"
  shows "i \<le> an_max_txn_id (analyze_transactions rs)"
proof -
  have mono: "an_max_txn_id a \<le> an_max_txn_id (analyze_record r a)" for r a
    by (auto simp: analyze_record_def Let_def split: log_payload.splits)
  have mono_all: "an_max_txn_id a \<le> an_max_txn_id (fold analyze_record rs a)" for rs a
    by (induction rs arbitrary: a) (auto intro: order_trans [OF mono])
  have one: "i \<le> an_max_txn_id (analyze_record r a)" if "i \<in> checkpoint_ids r" for a
  proof (cases "rec_payload r")
    case (Checkpoint active ots nxt)
    then have "i \<in> set active \<or> i < nxt" using that by (simp add: checkpoint_ids_def)
    then have "i \<le> max (fold max active 0) (if nxt = 0 then 0 else nxt - 1)"
      using fold_max_ge [of i active 0] word_less_pred [of i nxt] by (auto simp: le_max_iff_disj)
    then show ?thesis using Checkpoint by (auto simp: analyze_record_def Let_def)
  qed (use that in \<open>auto simp: checkpoint_ids_def\<close>)
  have "i \<le> an_max_txn_id (fold analyze_record rs a)" if "r \<in> set rs" for a
    using that
  proof (induction rs arbitrary: a)
    case (Cons x rs)
    then show ?case using mono_all [of "analyze_record r a" rs] one [OF assms(2), of a] by auto
  qed simp
  then show ?thesis using assms(1) by (simp add: analyze_transactions_def)
qed

context storage_engine
begin

text \<open>Recovery on any engine that fulfils the storage contract.\<close>

lemma recover_view:
  assumes inv: "inv s" and sc: "collect_results (scan_forward crc (if lsn_is_valid ckpt then ckpt else 0) dir) = Inr rs"
    and fit: "\<forall>w \<in> set (committed_writes rs). case write_entry_of w of (k, e) \<Rightarrow> admits k e"
  shows "\<exists>stats s'. recover crc put delete dir ckpt s = Inr (stats, s') \<and> inv s' \<and>
    view s' = fold apply_write (committed_writes rs) (view s) \<and>
    records_scanned stats = length rs \<and> records_redone stats = length (committed_writes rs) \<and>
    map_of (committed_txns stats) = map_of (rev (commit_records rs)) \<and>
    txns_committed stats = card {i. is_committed rs i} \<and>
    uncommitted_txns stats = {i. i \<noteq> 0 \<and> i \<in> rec_txn_id ` set rs \<and> \<not> is_committed rs i \<and> \<not> is_aborted rs i} \<and>
    (\<forall>r \<in> set rs. rec_txn_id r \<le> max_txn_id stats \<and> (\<forall>i \<in> checkpoint_ids r. i \<le> max_txn_id stats))"
proof -
  let ?a = "analyze_transactions rs"
  have C: "(\<lambda>i. i \<in> set (map fst (an_committed ?a))) = is_committed rs" using analysis_facts(1) by (auto simp: fun_eq_iff)
  obtain s' where s': "run_writes put delete (committed_writes rs) s = Inr s'" "inv s'"
    "view s' = fold apply_write (committed_writes rs) (view s)"
    using run_writes_view [OF inv fit] by blast
  have redo: "redo_committed put delete (set (map fst (an_committed ?a))) rs 0 s = Inr (length (committed_writes rs), s')"
    using s'(1) C by (simp add: redo_run_writes committed_writes_def)
  obtain seen m where sm: "seen_txns rs = (seen, m)" by fastforce
  have len: "length (an_committed ?a) = card {i. is_committed rs i}"
  proof -
    have "set (map fst (an_committed ?a)) = {i. is_committed rs i}" using analysis_facts(1) by auto
    then show ?thesis using distinct_card [OF analysis_facts(4) [of rs]] by simp
  qed
  have mx: "\<forall>r \<in> set rs. rec_txn_id r \<le> max m (an_max_txn_id ?a) \<and> (\<forall>i \<in> checkpoint_ids r. i \<le> max m (an_max_txn_id ?a))"
    using seen_txns_facts(2) [of rs] sm analysis_max_txn by (auto simp: le_max_iff_disj)
  have un: "Set.filter (\<lambda>i. i \<notin> an_aborted ?a) (Set.filter (\<lambda>i. i \<notin> set (map fst (an_committed ?a))) seen) =
      {i. i \<noteq> 0 \<and> i \<in> rec_txn_id ` set rs \<and> \<not> is_committed rs i \<and> \<not> is_aborted rs i}"
    using seen_txns_facts(1) [of rs] sm analysis_facts(1) [of _ rs] analysis_facts(2) [of rs] by auto
  show ?thesis
    unfolding recover_def Let_def sc and_then_Inr redo sm prod.case un
    using s'(2,3) len mx analysis_facts(3) [of rs] by simp
qed

end

end
