(* ===== verification/Lsm_Recovery.thy ===== *)
theory Lsm_Recovery
  imports Recovery Lsm_Properties
begin

text \<open>
  Crash recovery of an LSM engine from the write-ahead log: the log component, the recovery component and
  the storage engine composed.
\<close>

abbreviation scanned_from :: "lsn \<Rightarrow> log_record list \<Rightarrow> log_record list" where
  "scanned_from ckpt rs \<equiv> filter (\<lambda>r. \<not> rec_lsn r < (if lsn_is_valid ckpt then ckpt else 0)) rs"

lemma fits_admits: "list_all write_fits ws \<longleftrightarrow> (\<forall>w \<in> set ws. case write_entry_of w of (k, e) \<Rightarrow> entry_fits (k, e))"
  by (simp add: list_all_iff)

lemma recover_stats_same:
  assumes "recover c p1 d1 dir ckpt s1 = Inr (st1, s1')" "recover c p1 d1 dir ckpt s2 = Inr (st2, s2')"
  shows "st1 = st2"
  using assms
  by (auto simp: recover_def Let_def redo_run_writes and_then_def split: sum.splits prod.splits)

lemmas engine_recover = storage_engine.recover_view [OF lsm_eng.storage_engine_axioms]

text \<open>
  C9. Recovery brings an engine to exactly the committed state of the log.  From a log written by any run of
  appends and restarts, and any checkpoint position, recovery succeeds; every key then reads as the last
  auto-commit write or write of a committed transaction from the checkpoint on, and as before when there is
  none.  The statistics name the scanned and redone records, the commit timestamp of each committed
  transaction, and as uncommitted exactly the transactions with neither a commit nor an abort record.
\<close>

theorem recovery_applies_committed:
  assumes "engine_inv crc e" "wal_run c w rs" "length rs < MAX_RECOVERY_RECORDS"
    and "list_all write_fits (committed_writes (scanned_from ckpt rs))"
  shows "\<exists>stats e'. recover c (engine_put crc) (engine_delete crc) (writer_dir w) ckpt e = Inr (stats, e') \<and>
    (\<forall>k. engine_get crc k e' = Inr (fold apply_write (committed_writes (scanned_from ckpt rs)) (engine_view e) k)) \<and>
    records_scanned stats = length (scanned_from ckpt rs) \<and>
    records_redone stats = length (committed_writes (scanned_from ckpt rs)) \<and>
    map_of (committed_txns stats) = map_of (rev (commit_records (scanned_from ckpt rs))) \<and>
    uncommitted_txns stats = {i. i \<noteq> 0 \<and> i \<in> rec_txn_id ` set (scanned_from ckpt rs) \<and>
      \<not> is_committed (scanned_from ckpt rs) i \<and> \<not> is_aborted (scanned_from ckpt rs) i}"
proof -
  note sc = wal_run_scan [OF assms(2,3), of "if lsn_is_valid ckpt then ckpt else 0"]
  from engine_recover [OF assms(1) sc assms(4) [unfolded fits_admits]] obtain stats e' where
    r: "recover c (engine_put crc) (engine_delete crc) (writer_dir w) ckpt e = Inr (stats, e')" "engine_inv crc e'"
      "engine_view e' = fold apply_write (committed_writes (scanned_from ckpt rs)) (engine_view e)"
      "records_scanned stats = length (scanned_from ckpt rs)"
      "records_redone stats = length (committed_writes (scanned_from ckpt rs))"
      "map_of (committed_txns stats) = map_of (rev (commit_records (scanned_from ckpt rs)))"
      "uncommitted_txns stats = {i. i \<noteq> 0 \<and> i \<in> rec_txn_id ` set (scanned_from ckpt rs) \<and>
        \<not> is_committed (scanned_from ckpt rs) i \<and> \<not> is_aborted (scanned_from ckpt rs) i}"
    by blast
  then show ?thesis using lsm_eng.get_view [OF r(2)] by auto
qed

text \<open>An engine that holds one pair, for the witnesses.\<close>

lemma sample_engine:
  obtains e where "engine_inv crc e" "engine_view e = [[1] \<mapsto> [10]]"
proof -
  obtain e0 e where "engine_open crc 64 [] Map.empty = Inr e0" "run_writes (engine_put crc) (engine_delete crc) [Write_put [1] [10]] e0 = Inr e"
    "engine_inv crc e" "engine_view e = fold apply_write [Write_put [1] [10]] Map.empty"
    by (rule engine_history [of 64 "[Write_put [1] [10]]" crc]) (simp_all add: fits_eval)
  then show thesis using that by simp
qed

lemma sample_facts: "scanned_from ckpt [sample_record] \<in> {[], [sample_record]}" "scanned_from 0 [sample_record] = [sample_record]"
  "committed_writes [sample_record] = []" "commit_records [sample_record] = []"
  by (simp_all add: sample_record_def committed_writes_def record_write_def List.map_filter_simps commit_records_def)

theorem recovery_applies_committed_witness:
  "\<exists>e stats e'. engine_view e [1] = Some [10] \<and>
    recover (\<lambda>_. 1) (engine_put (\<lambda>_. 0)) (engine_delete (\<lambda>_. 0)) (writer_dir sample_writer) 0 e = Inr (stats, e') \<and>
    engine_get (\<lambda>_. 0) [1] e' = Inr (Some [10]) \<and> uncommitted_txns stats = {1}"
proof -
  obtain e where e: "engine_inv (\<lambda>_. 0) e" "engine_view e = [[1] \<mapsto> [10]]" by (rule sample_engine)
  have f: "list_all write_fits (committed_writes (scanned_from 0 [sample_record]))" by (simp add: sample_facts)
  from recovery_applies_committed [OF e(1) sample_run _ f] obtain stats e' where
    r: "recover (\<lambda>_. 1) (engine_put (\<lambda>_. 0)) (engine_delete (\<lambda>_. 0)) (writer_dir sample_writer) 0 e = Inr (stats, e')"
    "\<forall>k. engine_get (\<lambda>_. 0) k e' = Inr (fold apply_write (committed_writes (scanned_from 0 [sample_record])) (engine_view e) k)"
    "uncommitted_txns stats = {i. i \<noteq> 0 \<and> i \<in> rec_txn_id ` set (scanned_from 0 [sample_record]) \<and>
      \<not> is_committed (scanned_from 0 [sample_record]) i \<and> \<not> is_aborted (scanned_from 0 [sample_record]) i}"
    by (auto simp: MAX_RECOVERY_RECORDS_def)
  have "engine_get (\<lambda>_. 0) [1] e' = Inr (Some [10])" using r(2) e(2) by (simp add: sample_facts)
  moreover have "uncommitted_txns stats = {1}"
    unfolding r(3) sample_facts(2) by (auto simp: sample_record_def is_committed_def is_aborted_def)
  ultimately show ?thesis using e(2) r(1) by (intro exI [of _ e] exI [of _ stats] exI [of _ e']) simp
qed

text \<open>
  C11. Recovery is idempotent: running it again on the recovered engine, as after a crash during recovery,
  succeeds with the same statistics and changes no key.
\<close>

theorem recovery_idempotent:
  assumes "engine_inv crc e" "wal_run c w rs" "length rs < MAX_RECOVERY_RECORDS"
    and "list_all write_fits (committed_writes (scanned_from ckpt rs))"
  shows "\<exists>stats e1 e2. recover c (engine_put crc) (engine_delete crc) (writer_dir w) ckpt e = Inr (stats, e1) \<and>
    recover c (engine_put crc) (engine_delete crc) (writer_dir w) ckpt e1 = Inr (stats, e2) \<and>
    (\<forall>k. engine_get crc k e2 = engine_get crc k e1)"
proof -
  note sc = wal_run_scan [OF assms(2,3), of "if lsn_is_valid ckpt then ckpt else 0"]
  let ?ws = "committed_writes (scanned_from ckpt rs)"
  have fit: "\<forall>w \<in> set ?ws. case write_entry_of w of (k, e) \<Rightarrow> entry_fits (k, e)" using assms(4) unfolding fits_admits .
  obtain st1 e1 where r1: "recover c (engine_put crc) (engine_delete crc) (writer_dir w) ckpt e = Inr (st1, e1)"
    "engine_inv crc e1" "engine_view e1 = fold apply_write ?ws (engine_view e)"
    using engine_recover [OF assms(1) sc fit] by blast
  obtain st2 e2 where r2: "recover c (engine_put crc) (engine_delete crc) (writer_dir w) ckpt e1 = Inr (st2, e2)"
    "engine_inv crc e2" "engine_view e2 = fold apply_write ?ws (engine_view e1)"
    using engine_recover [OF r1(2) sc fit] by blast
  have "st2 = st1" by (rule recover_stats_same [OF r2(1) r1(1)])
  moreover have "engine_view e2 = engine_view e1" using r1(3) r2(3) fold_apply_write_idem by simp
  ultimately show ?thesis using r1 r2 lsm_eng.get_view [OF r1(2)] lsm_eng.get_view [OF r2(2)] by auto
qed

theorem recovery_idempotent_witness:
  "\<exists>e stats e1 e2. recover (\<lambda>_. 1) (engine_put (\<lambda>_. 0)) (engine_delete (\<lambda>_. 0)) (writer_dir sample_writer) 0 e = Inr (stats, e1) \<and>
    recover (\<lambda>_. 1) (engine_put (\<lambda>_. 0)) (engine_delete (\<lambda>_. 0)) (writer_dir sample_writer) 0 e1 = Inr (stats, e2) \<and>
    engine_get (\<lambda>_. 0) [1] e2 = engine_get (\<lambda>_. 0) [1] e1"
proof -
  obtain e where e: "engine_inv (\<lambda>_. 0) e" "engine_view e = [[1] \<mapsto> [10]]" by (rule sample_engine)
  have f: "list_all write_fits (committed_writes (scanned_from 0 [sample_record]))" by (simp add: sample_facts)
  have n: "length [sample_record] < MAX_RECOVERY_RECORDS" by (simp add: MAX_RECOVERY_RECORDS_def)
  show ?thesis using recovery_idempotent [OF e(1) sample_run n f] by blast
qed

text \<open>
  C12. The transaction id handed to the transaction manager after recovery bounds every id the log knows:
  those of the scanned records, those active at a scanned checkpoint, and all below the next id persisted
  there, so no id is ever reused.
\<close>

theorem recovered_txn_id_bound:
  assumes "engine_inv crc e" "wal_run c w rs" "length rs < MAX_RECOVERY_RECORDS"
    and "list_all write_fits (committed_writes (scanned_from ckpt rs))"
    and "recover c (engine_put crc) (engine_delete crc) (writer_dir w) ckpt e = Inr (stats, e')"
    and "r \<in> set (scanned_from ckpt rs)" "i = rec_txn_id r \<or> i \<in> checkpoint_ids r"
  shows "i \<le> max_txn_id stats"
proof -
  note sc = wal_run_scan [OF assms(2,3), of "if lsn_is_valid ckpt then ckpt else 0"]
  from engine_recover [OF assms(1) sc assms(4) [unfolded fits_admits]]
  have "\<forall>r \<in> set (scanned_from ckpt rs). rec_txn_id r \<le> max_txn_id stats \<and> (\<forall>i \<in> checkpoint_ids r. i \<le> max_txn_id stats)"
    using assms(5) by auto
  then show ?thesis using assms(6,7) by blast
qed

theorem recovered_txn_id_bound_witness:
  "\<exists>e stats e'. recover (\<lambda>_. 1) (engine_put (\<lambda>_. 0)) (engine_delete (\<lambda>_. 0)) (writer_dir sample_writer) 0 e = Inr (stats, e') \<and>
    1 \<le> max_txn_id stats"
proof -
  obtain e where e: "engine_inv (\<lambda>_. 0) e" "engine_view e = [[1] \<mapsto> [10]]" by (rule sample_engine)
  have f: "list_all write_fits (committed_writes (scanned_from 0 [sample_record]))" by (simp add: sample_facts)
  have n: "length [sample_record] < MAX_RECOVERY_RECORDS" by (simp add: MAX_RECOVERY_RECORDS_def)
  note sc = wal_run_scan [OF sample_run n, of "if lsn_is_valid 0 then 0 else 0"]
  obtain stats e' where r: "recover (\<lambda>_. 1) (engine_put (\<lambda>_. 0)) (engine_delete (\<lambda>_. 0)) (writer_dir sample_writer) 0 e = Inr (stats, e')"
    using engine_recover [OF e(1) sc f [unfolded fits_admits]] by blast
  have "sample_record \<in> set (scanned_from 0 [sample_record])" "1 = rec_txn_id sample_record \<or> 1 \<in> checkpoint_ids sample_record"
    by (simp_all add: sample_record_def)
  from recovered_txn_id_bound [OF e(1) sample_run n f r this] r show ?thesis by blast
qed

section \<open>Crashes\<close>

text \<open>
  C10. A crash loses only a suffix of the history and never a part of a transaction's outcome.  When the log
  is cut at any byte of its last segment, recovery of the engine from what is left succeeds, and every key
  reads as the committed writes of a prefix of the accepted records say; the prefix holds every record
  whose bytes survived, so a transaction whose commit record survived is recovered with all its writes.
\<close>

theorem crash_recovery_prefix:
  assumes "engine_inv crc e" "wal_run c w rs" "length rs < MAX_RECOVERY_RECORDS"
    and "\<forall>m \<le> length rs. list_all write_fits (committed_writes (take m rs))"
  shows "\<exists>m stats e'. m \<le> length rs \<and>
    recover c (engine_put crc) (engine_delete crc) (crash_dir w cut_at) LSN_INVALID e = Inr (stats, e') \<and>
    (\<forall>k. engine_get crc k e' = Inr (fold apply_write (committed_writes (take m rs)) (engine_view e) k)) \<and>
    (m < length rs \<longrightarrow> surviving_bytes w cut_at < length (log_bytes c (take (Suc m) rs)))"
proof -
  have inv: "wal_inv c w rs" using wal_run_inv [OF assms(2)] by simp
  obtain m where m: "m \<le> length rs" "collect_results (scan_forward c 0 (crash_dir w cut_at)) = Inr (take m rs)"
    "m < length rs \<longrightarrow> surviving_bytes w cut_at < length (log_bytes c (take (Suc m) rs))"
    using crash_reads_prefix [OF inv assms(3)] by blast
  have sc: "collect_results (scan_forward c (if lsn_is_valid LSN_INVALID then LSN_INVALID else 0) (crash_dir w cut_at)) = Inr (take m rs)"
    using m(2) by (simp add: lsn_is_valid_def)
  have fit: "\<forall>w \<in> set (committed_writes (take m rs)). case write_entry_of w of (k, e) \<Rightarrow> entry_fits (k, e)"
    using assms(4) m(1) by (simp add: fits_admits)
  obtain stats e' where r: "recover c (engine_put crc) (engine_delete crc) (crash_dir w cut_at) LSN_INVALID e = Inr (stats, e')"
    "engine_inv crc e'" "engine_view e' = fold apply_write (committed_writes (take m rs)) (engine_view e)"
    using engine_recover [OF assms(1) sc fit] by blast
  then show ?thesis using m lsm_eng.get_view [OF r(2)] by auto
qed

theorem crash_recovery_prefix_witness:
  "\<exists>e stats e'. engine_view e [1] = Some [10] \<and>
    recover (\<lambda>_. 1) (engine_put (\<lambda>_. 0)) (engine_delete (\<lambda>_. 0)) (crash_dir sample_writer 20) LSN_INVALID e = Inr (stats, e') \<and>
    engine_get (\<lambda>_. 0) [1] e' = Inr (Some [10])"
proof -
  obtain e where e: "engine_inv (\<lambda>_. 0) e" "engine_view e = [[1] \<mapsto> [10]]" by (rule sample_engine)
  have cw: "committed_writes (take m [sample_record]) = []" for m
    using sample_facts(3) by (cases m) (simp_all add: committed_writes_def List.map_filter_simps)
  obtain m stats e' where "recover (\<lambda>_. 1) (engine_put (\<lambda>_. 0)) (engine_delete (\<lambda>_. 0)) (crash_dir sample_writer 20) LSN_INVALID e = Inr (stats, e')"
    "\<forall>k. engine_get (\<lambda>_. 0) k e' = Inr (fold apply_write (committed_writes (take m [sample_record])) (engine_view e) k)"
    using crash_recovery_prefix [OF e(1) sample_run, of 20] by (auto simp: cw MAX_RECOVERY_RECORDS_def)
  then show ?thesis using e(2) by (intro exI [of _ e] exI [of _ stats] exI [of _ e']) (simp add: cw)
qed

end
