(* ===== verification/Lsm_Mvcc.thy ===== *)
theory Lsm_Mvcc
  imports Mvcc_Scan Lsm_Recovery
begin

text \<open>
  Multi-version reads over an LSM engine: the point read and the range scan of the version layer composed
  with the storage engine below them.
\<close>

lemmas engine_mvcc_get = storage_engine.mvcc_get_newest [OF lsm_eng.storage_engine_axioms]

lemmas engine_mvcc_scan = storage_engine.mvcc_scan_ok [OF lsm_eng.storage_engine_axioms]

text \<open>
  C13. A multi-version read returns the newest visible version.  For an engine whose keys are all versioned
  keys, whatever visibility rule the reader applies, the read succeeds; it returns the data of the version
  of the user key with the largest timestamp among those visible to the reader, and nothing when that
  version is a tombstone or no version is visible.
\<close>

theorem mvcc_get_newest_visible:
  assumes "engine_inv crc e" "mvcc_store (engine_view e)" "length uk < 2 ^ 32"
  shows "\<exists>r. mvcc_get engine_scan_range uk visible e = Inr (live_data r) \<and> newest_visible (engine_view e) uk visible r"
  by (rule engine_mvcc_get [OF assms])

text \<open>An engine that holds one version, for the witnesses.\<close>

abbreviation sample_version :: mvcc_value where
  "sample_version \<equiv> MValue 7 [10]"

lemma sample_version_engine:
  obtains e where "engine_inv crc e" "engine_view e = [mvcc_key [1] 5 \<mapsto> encode_mvcc_value sample_version]"
proof -
  let ?w = "Write_put (mvcc_key [1] 5) (encode_mvcc_value sample_version)"
  obtain e0 e where "engine_open crc 64 [] Map.empty = Inr e0" "run_writes (engine_put crc) (engine_delete crc) [?w] e0 = Inr e"
    "engine_inv crc e" "engine_view e = fold apply_write [?w] Map.empty"
    by (rule engine_history [of 64 "[?w]" crc]) (simp_all add: fits_eval mvcc_key_def encode_mvcc_value_def)
  then show thesis using that by simp
qed

lemma sample_version_at:
  "version_at [mvcc_key [1] 5 \<mapsto> encode_mvcc_value sample_version] uk ts =
    (if uk = [1] \<and> ts = 5 then Some sample_version else None)"
  using mvcc_key_inj1 [of "[1]" 5 uk ts] by (auto simp: version_at_def)

lemma sample_store: "mvcc_store [mvcc_key [1] 5 \<mapsto> encode_mvcc_value sample_version]"
proof -
  have "\<exists>uk ts. length uk < 2 ^ 32 \<and> mvcc_key [1] 5 = mvcc_key uk ts" by (intro exI [of _ "[1]"] exI [of _ 5]) simp
  then show ?thesis by (auto simp: mvcc_store_def split: if_splits)
qed

lemma sample_newest: "newest_visible [mvcc_key [1] 5 \<mapsto> encode_mvcc_value sample_version] uk (\<lambda>_ _. True) r \<longleftrightarrow>
    r = (if uk = [1] then Some sample_version else None)"
proof -
  let ?f = "[mvcc_key [1] 5 \<mapsto> encode_mvcc_value sample_version]"
  have "newest_visible ?f uk (\<lambda>_ _. True) (if uk = [1] then Some sample_version else None)"
    by (simp add: newest_visible_def visible_at_def sample_version_at)
  then show ?thesis using newest_visible_unique by blast
qed

theorem mvcc_get_newest_visible_witness:
  "\<exists>e. engine_inv (\<lambda>_. 0) e \<and> mvcc_get engine_scan_range [1] (\<lambda>_ _. True) e = Inr (Some [10])"
proof -
  obtain e where e: "engine_inv (\<lambda>_. 0) e" "engine_view e = [mvcc_key [1] 5 \<mapsto> encode_mvcc_value sample_version]"
    by (rule sample_version_engine)
  from mvcc_get_newest_visible [OF e(1), of "[1]" "\<lambda>_ _. True"] obtain r where
    "mvcc_get engine_scan_range [1] (\<lambda>_ _. True) e = Inr (live_data r)" "newest_visible (engine_view e) [1] (\<lambda>_ _. True) r"
    using sample_store e(2) by auto
  then show ?thesis using e sample_newest by auto
qed

lemma sorted_user_less_distinct: "sorted_wrt user_less ks \<Longrightarrow> distinct ks"
  by (induction ks) auto

lemma distinct_singleton: "distinct xs \<Longrightarrow> set xs = {y} \<Longrightarrow> xs = [y]"
  by (cases xs; cases "tl xs") auto

text \<open>
  C14. A multi-version range scan ends and is exact.  For an engine whose keys are all versioned keys, the
  scan of any inclusive range of user keys returns after finitely many buckets; it yields exactly the pairs
  of a user key in the range and the data of its newest visible version, leaving out the keys whose newest
  visible version is a tombstone, each key once, by increasing key length and in key order within a length.
\<close>

theorem mvcc_scan_exact:
  assumes "engine_inv crc e" "mvcc_store (engine_view e)"
  shows "\<exists>out. mvcc_scan engine_scan_range a b visible e = Some (Inr out) \<and>
    sorted_wrt user_less (map fst out) \<and>
    (\<forall>uk data. (uk, data) \<in> set out \<longleftrightarrow>
      a \<le> uk \<and> uk \<le> b \<and> (\<exists>w. newest_visible (engine_view e) uk visible (Some (MValue w data))))"
  using engine_mvcc_scan [OF assms, of a b visible] by (auto simp: scan_result_def live_in_range_def)

theorem mvcc_scan_exact_witness:
  "\<exists>e. engine_inv (\<lambda>_. 0) e \<and> mvcc_scan engine_scan_range [0] [5] (\<lambda>_ _. True) e = Some (Inr [([1], [10])])"
proof -
  obtain e where e: "engine_inv (\<lambda>_. 0) e" "engine_view e = [mvcc_key [1] 5 \<mapsto> encode_mvcc_value sample_version]"
    by (rule sample_version_engine)
  from mvcc_scan_exact [OF e(1), of "[0]" "[5]" "\<lambda>_ _. True"] obtain out where
    out: "mvcc_scan engine_scan_range [0] [5] (\<lambda>_ _. True) e = Some (Inr out)" "sorted_wrt user_less (map fst out)"
      "\<And>uk data. (uk, data) \<in> set out \<longleftrightarrow> [0] \<le> uk \<and> uk \<le> [5] \<and> (\<exists>w. newest_visible (engine_view e) uk (\<lambda>_ _. True) (Some (MValue w data)))"
    using sample_store e(2) by auto
  have mem: "x \<in> set out \<longleftrightarrow> x = ([1], [10])" for x
    using out(3) [of "fst x" "snd x"] e(2) sample_newest [of "fst x"] by (cases x) auto
  have "distinct (map fst out)" using out(2) by (rule sorted_user_less_distinct)
  then have "out = [([1], [10])]" using mem by (intro distinct_singleton) (auto simp: distinct_map)
  then show ?thesis using e(1) out(1) by blast
qed

end
