(* ===== verification/Lock_Manager.thy ===== *)
theory Lock_Manager
  imports Mvcc "HOL-Library.AList"
begin

text \<open>
  The key-level lock manager, \<^verbatim>\<open>idb-txn/src/txn/lock_manager.rs\<close>: shared and exclusive locks with one FIFO
  queue of requests per key and deadlock detection by a search of the wait-for graph.  The state behind the
  mutex is a record; a call of \<^verbatim>\<open>acquire\<close> that cannot be granted leaves a numbered request (the number stands
  for the identity of the shared flag of the request) and is continued by a release that grants it or by its
  timeout.  Hash tables and hash sets are association lists and lists without duplicates.  Proved: every
  sequence of calls keeps exclusive locks exclusive and the index of held keys exact, a release hands the
  lock to the first waiter, and the search finds a cycle exactly when there is one.
\<close>

section \<open>Model\<close>

definition MAX_LOCK_TABLE_ENTRIES :: nat where "MAX_LOCK_TABLE_ENTRIES = 1000000"

definition MAX_BFS_ITERATIONS :: nat where "MAX_BFS_ITERATIONS = 65536"

datatype lock_mode = Shared | Exclusive

definition is_compatible :: "lock_mode \<Rightarrow> lock_mode \<Rightarrow> bool" where
  "is_compatible a b = (case (a, b) of (Shared, Shared) \<Rightarrow> True | _ \<Rightarrow> False)"

record lock_request =
  req_txn :: txn_id
  req_mode :: lock_mode
  req_flag :: nat

record lock_entry =
  granted_mode :: "lock_mode option"
  holders :: "txn_id list"
  wait_queue :: "lock_request list"

definition lock_entry_new :: lock_entry where
  "lock_entry_new = \<lparr>granted_mode = None, holders = [], wait_queue = []\<rparr>"

definition lock_entry_is_empty :: "lock_entry \<Rightarrow> bool" where
  "lock_entry_is_empty e \<longleftrightarrow> holders e = [] \<and> wait_queue e = []"

record lock_state =
  lock_table :: "(bytes \<times> lock_entry) list"
  txn_locks :: "(txn_id \<times> bytes list) list"
  next_flag :: nat
  raised_flags :: "nat list"

definition lock_state_new :: lock_state where
  "lock_state_new = \<lparr>lock_table = [], txn_locks = [], next_flag = 0, raised_flags = []\<rparr>"

abbreviation entry_of :: "lock_state \<Rightarrow> bytes \<Rightarrow> lock_entry option" where
  "entry_of s \<equiv> map_of (lock_table s)"

definition set_entry :: "bytes \<Rightarrow> lock_entry \<Rightarrow> lock_state \<Rightarrow> lock_state" where
  "set_entry k e s = s\<lparr>lock_table := AList.update k e (lock_table s)\<rparr>"

definition remove_entry :: "bytes \<Rightarrow> lock_state \<Rightarrow> lock_state" where
  "remove_entry k s = s\<lparr>lock_table := AList.delete k (lock_table s)\<rparr>"

definition txn_keys :: "lock_state \<Rightarrow> txn_id \<Rightarrow> bytes list" where
  "txn_keys s t = (case map_of (txn_locks s) t of Some ks \<Rightarrow> ks | None \<Rightarrow> [])"

definition held_by :: "lock_state \<Rightarrow> txn_id \<Rightarrow> bytes list" where
  "held_by s t = sort (txn_keys s t)"

definition lock_count :: "lock_state \<Rightarrow> nat" where
  "lock_count s = length (lock_table s)"

definition record_hold :: "bytes \<Rightarrow> txn_id \<Rightarrow> lock_state \<Rightarrow> lock_state" where
  "record_hold k t s = s\<lparr>txn_locks := AList.update t (List.insert k (txn_keys s t)) (txn_locks s)\<rparr>"

datatype grant_result = Granted | AlreadyHeld | MustWait

definition try_grant_immediate :: "bytes \<Rightarrow> txn_id \<Rightarrow> lock_mode \<Rightarrow> lock_state \<Rightarrow> (grant_result \<times> lock_state) result" where
  "try_grant_immediate k t mode s =
    (case entry_of s k of
       None \<Rightarrow> Inl Panic
     | Some e \<Rightarrow>
         if holders e = [] then
           Inr (Granted, record_hold k t (set_entry k (e\<lparr>holders := [t], granted_mode := Some mode\<rparr>) s))
         else if t \<in> set (holders e) then
           (case granted_mode e of
              None \<Rightarrow> Inl Panic
            | Some Exclusive \<Rightarrow> Inr (AlreadyHeld, s)
            | Some Shared \<Rightarrow>
                (case mode of
                   Shared \<Rightarrow> Inr (AlreadyHeld, s)
                 | Exclusive \<Rightarrow>
                     if length (holders e) = 1 then Inr (Granted, set_entry k (e\<lparr>granted_mode := Some Exclusive\<rparr>) s)
                     else Inr (MustWait, s)))
         else if wait_queue e = [] then
           (case granted_mode e of
              None \<Rightarrow> Inl Panic
            | Some current \<Rightarrow>
                if is_compatible mode current then
                  Inr (Granted, record_hold k t (set_entry k (e\<lparr>holders := List.insert t (holders e)\<rparr>) s))
                else Inr (MustWait, s))
         else Inr (MustWait, s))"

text \<open>The loop over the queue: the new mode, holders and queue, the new holders and the raised flags.\<close>

fun grant_loop :: "lock_mode option \<Rightarrow> txn_id list \<Rightarrow> lock_request list \<Rightarrow>
    (lock_mode option \<times> txn_id list \<times> lock_request list \<times> txn_id list \<times> nat list) result" where
  "grant_loop mode hs [] = Inr (mode, hs, [], [], [])"
| "grant_loop mode hs (front # queue) =
    (let is_upgrade = req_txn front \<in> set hs in
     and_then
       (if hs = [] then Inr True
        else if is_upgrade then Inr (length hs = 1)
        else case mode of None \<Rightarrow> Inl Panic | Some current \<Rightarrow> Inr (is_compatible (req_mode front) current))
       (\<lambda>can_grant.
         if \<not> can_grant then Inr (mode, hs, front # queue, [], [])
         else let hs' = (if is_upgrade then hs else List.insert (req_txn front) hs);
                  new = (if is_upgrade then [] else [req_txn front]);
                  mode' = Some (if length hs' = 1 then req_mode front else Shared) in
           if req_mode front = Exclusive then Inr (mode', hs', queue, new, [req_flag front])
           else and_then (grant_loop mode' hs' queue) (\<lambda>(m, h, q, n, fl). Inr (m, h, q, new @ n, req_flag front # fl))))"

definition try_grant_waiters :: "bytes \<Rightarrow> lock_state \<Rightarrow> (bool \<times> lock_state) result" where
  "try_grant_waiters k s =
    (case entry_of s k of
       None \<Rightarrow> Inr (False, s)
     | Some e \<Rightarrow>
         and_then (grant_loop (granted_mode e) (holders e) (wait_queue e)) (\<lambda>(mode, hs, queue, new_holders, flags).
           let s = set_entry k \<lparr>granted_mode = mode, holders = hs, wait_queue = queue\<rparr> s;
               s = s\<lparr>raised_flags := raised_flags s @ flags\<rparr> in
           Inr (flags \<noteq> [], fold (record_hold k) new_holders s)))"

definition release_key :: "txn_id \<Rightarrow> bytes \<Rightarrow> lock_state \<Rightarrow> (bool \<times> lock_state) result" where
  "release_key t k s =
    (case entry_of s k of
       None \<Rightarrow> Inr (False, s)
     | Some e \<Rightarrow>
         if t \<notin> set (holders e) then Inr (False, s)
         else let hs = removeAll t (holders e);
                  e = e\<lparr>holders := hs, granted_mode := (if hs = [] then None else granted_mode e)\<rparr> in
           and_then (try_grant_waiters k (set_entry k e s)) (\<lambda>(woke_any, s).
             Inr (woke_any,
               case entry_of s k of
                 Some e \<Rightarrow> if lock_entry_is_empty e then remove_entry k s else s
               | None \<Rightarrow> s)))"

definition release :: "txn_id \<Rightarrow> bytes \<Rightarrow> lock_state \<Rightarrow> lock_state result" where
  "release t k s =
    (let s = (case map_of (txn_locks s) t of
                None \<Rightarrow> s
              | Some keys \<Rightarrow>
                  let keys = removeAll k keys in
                  s\<lparr>txn_locks := (if keys = [] then AList.delete t (txn_locks s) else AList.update t keys (txn_locks s))\<rparr>) in
     and_then (release_key t k s) (\<lambda>(_, s). Inr s))"

fun release_keys :: "txn_id \<Rightarrow> bytes list \<Rightarrow> lock_state \<Rightarrow> lock_state result" where
  "release_keys t [] s = Inr s"
| "release_keys t (k # ks) s = and_then (release_key t k s) (\<lambda>(_, s). release_keys t ks s)"

definition release_all :: "txn_id \<Rightarrow> lock_state \<Rightarrow> lock_state result" where
  "release_all t s = release_keys t (txn_keys s t) (s\<lparr>txn_locks := AList.delete t (txn_locks s)\<rparr>)"

text \<open>The wait-for graph, as the list of its edges from a waiter to a holder.\<close>

definition build_wait_for_graph :: "lock_state \<Rightarrow> (txn_id \<times> txn_id) list" where
  "build_wait_for_graph s =
    concat (map (\<lambda>(k, e).
      case granted_mode e of
        None \<Rightarrow> []
      | Some mode \<Rightarrow>
          concat (map (\<lambda>r.
            if is_compatible (req_mode r) mode then []
            else map (\<lambda>h. (req_txn r, h)) (filter (\<lambda>h. h \<noteq> req_txn r) (holders e))) (wait_queue e)))
      (lock_table s))"

definition neighbours :: "(txn_id \<times> txn_id) list \<Rightarrow> txn_id \<Rightarrow> txn_id list" where
  "neighbours g t = remdups (map snd (filter (\<lambda>(w, _). w = t) g))"

fun visit :: "txn_id \<Rightarrow> txn_id \<Rightarrow> txn_id list \<Rightarrow> (txn_id \<times> txn_id) list \<Rightarrow> txn_id list \<Rightarrow>
    (txn_id \<times> txn_id) list \<times> txn_id list \<times> bool" where
  "visit start current [] parent queue = (parent, queue, False)"
| "visit start current (n # ns) parent queue =
    (if n = start then (parent, queue, True)
     else if n \<in> fst ` set parent then visit start current ns parent queue
     else visit start current ns ((n, current) # parent) (queue @ [n]))"

text \<open>Following the parents back to the start takes at most as many steps as there are parents.\<close>

fun walk_back :: "nat \<Rightarrow> txn_id \<Rightarrow> (txn_id \<times> txn_id) list \<Rightarrow> txn_id \<Rightarrow> txn_id list option" where
  "walk_back fuel start parent node =
    (if node = start then Some [start]
     else case fuel of
       0 \<Rightarrow> None
     | Suc fuel \<Rightarrow> (case map_of parent node of
         None \<Rightarrow> None
       | Some p \<Rightarrow> map_option ((#) node) (walk_back fuel start parent p)))"

declare walk_back.simps [simp del]

primrec bfs :: "nat \<Rightarrow> (txn_id \<times> txn_id) list \<Rightarrow> txn_id \<Rightarrow> (txn_id \<times> txn_id) list \<Rightarrow> txn_id list \<Rightarrow> txn_id list option result" where
  "bfs 0 g start parent queue = (if queue = [] then Inr None else Inl Panic)"
| "bfs (Suc iterations) g start parent queue =
    (case queue of
       [] \<Rightarrow> Inr None
     | current # queue \<Rightarrow>
         (case visit start current (neighbours g current) parent queue of (parent, queue, found) \<Rightarrow>
            if found then Inr (walk_back (length parent) start parent current)
            else bfs iterations g start parent queue))"

definition detect_cycle :: "(txn_id \<times> txn_id) list \<Rightarrow> txn_id \<Rightarrow> txn_id list option result" where
  "detect_cycle g start =
    (let ns = neighbours g start in
     if ns = [] then Inr None else bfs MAX_BFS_ITERATIONS g start (map (\<lambda>n. (n, start)) ns) ns)"

definition choose_victim :: "txn_id list \<Rightarrow> txn_id result" where
  "choose_victim cycle = (if cycle = [] then Inl Panic else Inr (fold max cycle 0))"

definition remove_request :: "bytes \<Rightarrow> nat \<Rightarrow> lock_state \<Rightarrow> lock_state" where
  "remove_request k flag s =
    (case entry_of s k of
       None \<Rightarrow> s
     | Some e \<Rightarrow>
         let e = e\<lparr>wait_queue := filter (\<lambda>r. req_flag r \<noteq> flag) (wait_queue e)\<rparr> in
         if lock_entry_is_empty e then remove_entry k s else set_entry k e s)"

datatype acquire_outcome = Acquired | Waiting nat | Refused error

definition acquire :: "txn_id \<Rightarrow> bytes \<Rightarrow> lock_mode \<Rightarrow> lock_state \<Rightarrow> (acquire_outcome \<times> lock_state) result" where
  "acquire t k mode s =
    (if entry_of s k = None \<and> lock_count s \<ge> MAX_LOCK_TABLE_ENTRIES then Inr (Refused StorageCorrupted, s)
     else let s = (if entry_of s k = None then set_entry k lock_entry_new s else s) in
       and_then (try_grant_immediate k t mode s) (\<lambda>(g, s).
         case g of
           Granted \<Rightarrow> Inr (Acquired, s)
         | AlreadyHeld \<Rightarrow> Inr (Acquired, s)
         | MustWait \<Rightarrow>
             (case entry_of s k of
                None \<Rightarrow> Inl Panic
              | Some e \<Rightarrow>
                  let flag = next_flag s;
                      s = set_entry k (e\<lparr>wait_queue := wait_queue e @ [\<lparr>req_txn = t, req_mode = mode, req_flag = flag\<rparr>]\<rparr>)
                        (s\<lparr>next_flag := flag + 1\<rparr>) in
                  and_then (detect_cycle (build_wait_for_graph s) t) (\<lambda>c.
                    case c of
                      Some cycle \<Rightarrow> and_then (choose_victim cycle) (\<lambda>_. Inr (Refused (Deadlock t), remove_request k flag s))
                    | None \<Rightarrow> Inr (Waiting flag, s)))))"

text \<open>What a blocked call does when it is woken or its deadline passes.\<close>

definition acquire_timeout :: "bytes \<Rightarrow> nat \<Rightarrow> lock_state \<Rightarrow> acquire_outcome \<times> lock_state" where
  "acquire_timeout k flag s =
    (if flag \<in> set (raised_flags s) then (Acquired, s) else (Refused LockTimeout, remove_request k flag s))"

section \<open>The lock table\<close>

definition holds :: "lock_state \<Rightarrow> txn_id \<Rightarrow> bytes \<Rightarrow> bool" where
  "holds s t k \<longleftrightarrow> (\<exists>e. entry_of s k = Some e \<and> t \<in> set (holders e))"

definition holds_exclusive :: "lock_state \<Rightarrow> txn_id \<Rightarrow> bytes \<Rightarrow> bool" where
  "holds_exclusive s t k \<longleftrightarrow> (\<exists>e. entry_of s k = Some e \<and> holders e = [t] \<and> granted_mode e = Some Exclusive)"

definition mode_ok :: "lock_mode option \<Rightarrow> txn_id list \<Rightarrow> bool" where
  "mode_ok m hs \<longleftrightarrow> distinct hs \<and> (m = None \<longleftrightarrow> hs = []) \<and> (m = Some Exclusive \<longrightarrow> length hs = 1)"

text \<open>
  The invariant: one entry per key, each held and exclusive only for a single holder, and the index of held
  keys agrees with the holders up to the pairs \<^verbatim>\<open>D\<close> that a release in progress has already taken out of it.
\<close>

definition table_inv :: "lock_state \<Rightarrow> bool" where
  "table_inv s \<longleftrightarrow> distinct (map fst (lock_table s)) \<and> distinct (map fst (txn_locks s)) \<and>
    (\<forall>k e. entry_of s k = Some e \<longrightarrow> mode_ok (granted_mode e) (holders e) \<and> holders e \<noteq> [])"

definition index_inv :: "(txn_id \<times> bytes) set \<Rightarrow> lock_state \<Rightarrow> bool" where
  "index_inv D s \<longleftrightarrow> (\<forall>t. distinct (txn_keys s t)) \<and>
    (\<forall>t k. if (t, k) \<in> D then holds s t k \<and> k \<notin> set (txn_keys s t) else holds s t k \<longleftrightarrow> k \<in> set (txn_keys s t))"

definition lock_inv :: "lock_state \<Rightarrow> bool" where
  "lock_inv s \<longleftrightarrow> table_inv s \<and> index_inv {} s"

lemma lock_table_simps [simp]:
  "map_of (lock_table (set_entry k e s)) = (map_of (lock_table s))(k \<mapsto> e)"
  "map_of (lock_table (remove_entry k s)) = (map_of (lock_table s))(k := None)"
  "lock_table (record_hold k t s) = lock_table s"
  "txn_locks (set_entry k e s) = txn_locks s"
  "txn_locks (remove_entry k s) = txn_locks s"
  "distinct (map fst (lock_table s)) \<Longrightarrow> distinct (map fst (lock_table (set_entry k e s)))"
  "distinct (map fst (lock_table s)) \<Longrightarrow> distinct (map fst (lock_table (remove_entry k s)))"
  "distinct (map fst (txn_locks s)) \<Longrightarrow> distinct (map fst (txn_locks (record_hold k t s)))"
  by (simp_all add: set_entry_def remove_entry_def record_hold_def AList.update_conv' AList.delete_conv'
      AList.distinct_update AList.distinct_delete)

lemma flag_simps [simp]:
  "raised_flags (set_entry k e s) = raised_flags s"
  "raised_flags (record_hold k t s) = raised_flags s"
  by (simp_all add: set_entry_def record_hold_def)

lemma txn_keys_simps [simp]:
  "txn_keys (set_entry k e s) = txn_keys s"
  "txn_keys (remove_entry k s) = txn_keys s"
  "txn_keys (record_hold k t s) = (txn_keys s)(t := List.insert k (txn_keys s t))"
  "txn_keys (s\<lparr>raised_flags := fl\<rparr>) = txn_keys s"
  "txn_keys (s\<lparr>next_flag := n\<rparr>) = txn_keys s"
  by (simp_all add: fun_eq_iff txn_keys_def set_entry_def remove_entry_def record_hold_def AList.update_conv')

lemma fold_record_hold [simp]:
  "lock_table (fold (record_hold k) ts s) = lock_table s"
  "raised_flags (fold (record_hold k) ts s) = raised_flags s"
  "distinct (map fst (txn_locks s)) \<Longrightarrow> distinct (map fst (txn_locks (fold (record_hold k) ts s)))"
  by (induction ts arbitrary: s) simp_all

lemma txn_keys_fold_record_hold:
  "set (txn_keys (fold (record_hold k) ts s) t) = set (txn_keys s t) \<union> (if t \<in> set ts then {k} else {})"
  by (induction ts arbitrary: s) auto

lemma distinct_txn_keys_fold: "distinct (txn_keys s t) \<Longrightarrow> distinct (txn_keys (fold (record_hold k) ts s) t)"
proof (induction ts arbitrary: s)
  case (Cons u ts)
  then have "distinct (txn_keys (record_hold k u s) t)" by auto
  then show ?case using Cons.IH by simp
qed simp

lemma grant_loop_ok:
  assumes "mode_ok mode hs"
  shows "\<exists>m h q n fl. grant_loop mode hs queue = Inr (m, h, q, n, fl) \<and> mode_ok m h \<and> set h = set hs \<union> set n \<and>
    (\<forall>r rest. hs = [] \<longrightarrow> queue = r # rest \<longrightarrow>
      req_txn r \<in> set n \<and> req_flag r \<in> set fl \<and> (req_mode r = Exclusive \<longrightarrow> m = Some Exclusive))"
  using assms
proof (induction queue arbitrary: mode hs)
  case Nil
  then show ?case by simp
next
  case (Cons r queue)
  let ?up = "req_txn r \<in> set hs"
  let ?hs' = "if ?up then hs else List.insert (req_txn r) hs"
  let ?mode' = "Some (if length ?hs' = 1 then req_mode r else Shared)"
  have "\<exists>can. (if hs = [] then Inr True else if ?up then Inr (length hs = 1)
      else case mode of None \<Rightarrow> Inl Panic | Some current \<Rightarrow> Inr (is_compatible (req_mode r) current)) = Inr can"
    using Cons.prems by (auto simp: mode_ok_def)
  then obtain can where can: "(if hs = [] then Inr True else if ?up then Inr (length hs = 1)
      else case mode of None \<Rightarrow> Inl Panic | Some current \<Rightarrow> Inr (is_compatible (req_mode r) current)) = Inr can" ..
  show ?case
  proof (cases can)
    case False
    then have "hs \<noteq> []" using can by auto
    then show ?thesis using False can Cons.prems by (simp add: Let_def)
  next
    case True
    have x: "length ?hs' = 1" if "req_mode r = Exclusive"
      using can True that by (auto simp: is_compatible_def split: if_splits option.splits)
    have ok: "mode_ok ?mode' ?hs'" using Cons.prems x by (auto simp: mode_ok_def split: if_splits)
    show ?thesis
    proof (cases "req_mode r = Exclusive")
      case True
      then show ?thesis using \<open>can\<close> can ok x by (auto simp: Let_def)
    next
      case False
      obtain m h q n fl where "grant_loop ?mode' ?hs' queue = Inr (m, h, q, n, fl)" "mode_ok m h" "set h = set ?hs' \<union> set n"
        using Cons.IH [OF ok] by blast
      then show ?thesis using \<open>can\<close> can False by (auto simp: Let_def)
    qed
  qed
qed

declare map_of_eq_Some_iff [simp del]

section \<open>Granting and releasing\<close>

lemma holds_set_entry: "holds (set_entry k e s) t k' \<longleftrightarrow> (if k' = k then t \<in> set (holders e) else holds s t k')"
  by (simp add: holds_def)

lemma holds_remove_entry: "holds (remove_entry k s) t k' \<longleftrightarrow> k' \<noteq> k \<and> holds s t k'"
  by (simp add: holds_def)

lemma holds_updates [simp]:
  "holds (record_hold k u s) = holds s"
  "holds (fold (record_hold k) ts s) = holds s"
  "holds (s\<lparr>raised_flags := fl\<rparr>) = holds s"
  "holds (s\<lparr>next_flag := n\<rparr>) = holds s"
  "holds (s\<lparr>txn_locks := ts'\<rparr>) = holds s"
  by (simp_all add: fun_eq_iff holds_def)

lemma table_inv_set_entry:
  "table_inv s \<Longrightarrow> mode_ok (granted_mode e) (holders e) \<Longrightarrow> holders e \<noteq> [] \<Longrightarrow> table_inv (set_entry k e s)"
  by (simp add: table_inv_def)

lemma table_inv_remove_entry: "table_inv s \<Longrightarrow> table_inv (remove_entry k s)"
  by (simp add: table_inv_def)

lemma table_inv_updates:
  "table_inv s \<Longrightarrow> table_inv (record_hold k t s)"
  "table_inv s \<Longrightarrow> table_inv (fold (record_hold k) ts s)"
  "table_inv (s\<lparr>raised_flags := fl\<rparr>) = table_inv s"
  "table_inv (s\<lparr>next_flag := n\<rparr>) = table_inv s"
  by (simp_all add: table_inv_def)

text \<open>
  Releasing a key that the transaction holds: the other holders stay, the waiters that are granted join
  them, and the first waiter is among them when nobody else holds the key.
\<close>

lemma release_key_ok:
  assumes t: "table_inv s" and e: "entry_of s k = Some e" and h: "t \<in> set (holders e)"
  shows "\<exists>w s' n. release_key t k s = Inr (w, s') \<and> table_inv s' \<and>
    (\<forall>u k'. holds s' u k' \<longleftrightarrow> (if k' = k then u \<noteq> t \<and> holds s u k \<or> u \<in> set n else holds s u k')) \<and>
    (\<forall>k'. k' \<noteq> k \<longrightarrow> entry_of s' k' = entry_of s k') \<and>
    (\<forall>u. set (txn_keys s' u) = set (txn_keys s u) \<union> (if u \<in> set n then {k} else {})) \<and>
    (\<forall>u. distinct (txn_keys s u) \<longrightarrow> distinct (txn_keys s' u)) \<and>
    (\<forall>r rest. holders e = [t] \<longrightarrow> wait_queue e = r # rest \<longrightarrow>
      req_txn r \<in> set n \<and> req_flag r \<in> set (raised_flags s') \<and> (req_mode r = Exclusive \<longrightarrow> holds_exclusive s' (req_txn r) k))"
proof -
  let ?hs = "removeAll t (holders e)"
  let ?m = "if ?hs = [] then None else granted_mode e"
  let ?e = "e\<lparr>holders := ?hs, granted_mode := ?m\<rparr>"
  have eok: "mode_ok (granted_mode e) (holders e)" using t e by (simp add: table_inv_def)
  have ok: "mode_ok ?m ?hs"
  proof -
    have "length ?hs \<noteq> 1" if "length (holders e) = 1" using that h by (cases "holders e") auto
    moreover have "?hs = []" if "length (holders e) = 1" using that h by (cases "holders e") auto
    moreover have "distinct ?hs" using eok by (simp add: mode_ok_def removeAll_filter_not_eq)
    ultimately show ?thesis using eok h by (auto simp: mode_ok_def)
  qed
  obtain m hs q n fl where g: "grant_loop ?m ?hs (wait_queue e) = Inr (m, hs, q, n, fl)" "mode_ok m hs" "set hs = set ?hs \<union> set n"
    "\<forall>r rest. ?hs = [] \<longrightarrow> wait_queue e = r # rest \<longrightarrow>
      req_txn r \<in> set n \<and> req_flag r \<in> set fl \<and> (req_mode r = Exclusive \<longrightarrow> m = Some Exclusive)"
    using grant_loop_ok [OF ok] by blast
  let ?e' = "\<lparr>granted_mode = m, holders = hs, wait_queue = q\<rparr>"
  define s2 where "s2 = (set_entry k ?e' (set_entry k ?e s))\<lparr>raised_flags := raised_flags s @ fl\<rparr>"
  define s3 where "s3 = fold (record_hold k) n s2"
  define s' where "s' = (if hs = [] then remove_entry k s3 else s3)"
  have q: "q = []" if "hs = []"
  proof -
    have "set ?hs = {}" "n = []" using g(3) that by auto
    then have "?hs = []" "n = []" unfolding set_empty by simp_all
    then have "wait_queue e = []" using g(4) by (cases "wait_queue e") auto
    then show ?thesis using g(1) by simp
  qed
  have s3: "entry_of s3 = (entry_of s)(k \<mapsto> ?e')" "raised_flags s3 = raised_flags s @ fl"
    by (simp_all add: s3_def s2_def fun_eq_iff)
  have "release_key t k s = Inr (fl \<noteq> [], s')"
    using e h g(1) s3 q by (auto simp: release_key_def try_grant_waiters_def Let_def s'_def lock_entry_is_empty_def
        s3_def [symmetric] s2_def [symmetric])
  moreover have "table_inv s'"
  proof -
    have "distinct (map fst (lock_table s3))" "distinct (map fst (txn_locks s3))"
      using t by (simp_all add: s3_def s2_def table_inv_def)
    then show ?thesis using t g(2) s3(1) by (auto simp: table_inv_def s'_def)
  qed
  moreover have "\<forall>u k'. holds s' u k' \<longleftrightarrow> (if k' = k then u \<noteq> t \<and> holds s u k \<or> u \<in> set n else holds s u k')"
    using g(3) e s3 by (auto simp: s'_def holds_remove_entry holds_def)
  moreover have "\<forall>k'. k' \<noteq> k \<longrightarrow> entry_of s' k' = entry_of s k'" using s3 by (simp add: s'_def)
  moreover have "txn_keys s' = txn_keys s3" by (simp add: s'_def)
  moreover have "\<forall>u. set (txn_keys s3 u) = set (txn_keys s u) \<union> (if u \<in> set n then {k} else {})"
    by (simp add: s3_def txn_keys_fold_record_hold s2_def)
  moreover have "\<forall>u. distinct (txn_keys s u) \<longrightarrow> distinct (txn_keys s3 u)"
    by (simp add: s3_def s2_def distinct_txn_keys_fold)
  moreover have "\<forall>r rest. holders e = [t] \<longrightarrow> wait_queue e = r # rest \<longrightarrow>
      req_txn r \<in> set n \<and> req_flag r \<in> set (raised_flags s') \<and> (req_mode r = Exclusive \<longrightarrow> holds_exclusive s' (req_txn r) k)"
  proof (intro allI impI)
    fix r rest
    assume a: "holders e = [t]" "wait_queue e = r # rest"
    then have r: "req_txn r \<in> set n" "req_flag r \<in> set fl" "req_mode r = Exclusive \<longrightarrow> m = Some Exclusive" using g(4) by simp_all
    then have "req_txn r \<in> set hs" using g(3) by simp
    then have "hs \<noteq> []" "req_mode r = Exclusive \<longrightarrow> hs = [req_txn r]"
      using r(3) g(2) by (auto simp: mode_ok_def length_Suc_conv)
    then show "req_txn r \<in> set n \<and> req_flag r \<in> set (raised_flags s') \<and> (req_mode r = Exclusive \<longrightarrow> holds_exclusive s' (req_txn r) k)"
      using r s3 by (simp add: s'_def holds_exclusive_def)
  qed
  ultimately show ?thesis by auto
qed

lemma release_keys_ok:
  assumes "table_inv s" "index_inv ({t} \<times> set ks) s" "distinct ks"
  shows "\<exists>s'. release_keys t ks s = Inr s' \<and> lock_inv s'"
  using assms
proof (induction ks arbitrary: s)
  case Nil
  then show ?case by (simp add: lock_inv_def)
next
  case (Cons k ks)
  have hk: "holds s t k" "k \<notin> set (txn_keys s t)" using Cons.prems(2) by (auto simp: index_inv_def split: if_splits)
  then obtain e where e: "entry_of s k = Some e" "t \<in> set (holders e)" by (auto simp: holds_def)
  obtain w s1 n where r: "release_key t k s = Inr (w, s1)" "table_inv s1"
    "\<forall>u k'. holds s1 u k' \<longleftrightarrow> (if k' = k then u \<noteq> t \<and> holds s u k \<or> u \<in> set n else holds s u k')"
    "\<forall>u. set (txn_keys s1 u) = set (txn_keys s u) \<union> (if u \<in> set n then {k} else {})"
    "\<forall>u. distinct (txn_keys s u) \<longrightarrow> distinct (txn_keys s1 u)"
    using release_key_ok [OF Cons.prems(1) e] by blast
  have "index_inv ({t} \<times> set ks) s1"
    using Cons.prems(2,3) r(3-5) hk(2) unfolding index_inv_def by (auto split: if_splits)
  then show ?case using Cons.IH [OF r(2)] Cons.prems(3) r(1) by simp
qed

lemma release_all_ok:
  assumes "lock_inv s"
  shows "\<exists>s'. release_all t s = Inr s' \<and> lock_inv s'"
proof -
  let ?s = "s\<lparr>txn_locks := AList.delete t (txn_locks s)\<rparr>"
  have h: "txn_keys ?s u = (if u = t then [] else txn_keys s u)" for u
    by (simp add: txn_keys_def AList.delete_conv')
  have "table_inv ?s" using assms by (auto simp: lock_inv_def table_inv_def AList.distinct_delete)
  moreover have "index_inv ({t} \<times> set (txn_keys s t)) ?s"
    using assms unfolding lock_inv_def index_inv_def by (auto simp: h)
  moreover have "distinct (txn_keys s t)" using assms by (simp add: lock_inv_def index_inv_def)
  ultimately show ?thesis unfolding release_all_def by (rule release_keys_ok)
qed

section \<open>Acquiring\<close>

text \<open>Changing only the queue of an entry.\<close>

lemma queue_update:
  fixes q :: "lock_request list"
  assumes "lock_inv s" "entry_of s k = Some e"
  defines "s' \<equiv> set_entry k (e\<lparr>wait_queue := q\<rparr>) s"
  shows "lock_inv s'" "holds s' = holds s" "holds_exclusive s' = holds_exclusive s"
proof -
  show h: "holds s' = holds s" using assms(2) by (auto simp: fun_eq_iff s'_def holds_def)
  show "holds_exclusive s' = holds_exclusive s" using assms(2) by (auto simp: fun_eq_iff s'_def holds_exclusive_def)
  have "table_inv s'" using assms(1,2) by (auto simp: s'_def lock_inv_def table_inv_def)
  moreover have "index_inv {} s'" using assms(1) h by (auto simp: s'_def lock_inv_def index_inv_def)
  ultimately show "lock_inv s'" by (simp add: lock_inv_def)
qed

lemma lock_inv_next_flag [simp]: "lock_inv (s\<lparr>next_flag := n\<rparr>) = lock_inv s"
  by (simp add: lock_inv_def table_inv_def index_inv_def)

lemma holds_exclusive_updates [simp]:
  "holds_exclusive (s\<lparr>next_flag := n\<rparr>) = holds_exclusive s"
  "holds_exclusive (record_hold k t s) = holds_exclusive s"
  by (simp_all add: fun_eq_iff holds_exclusive_def)

lemma remove_request_ok:
  assumes "lock_inv s"
  shows "lock_inv (remove_request k flag s)" "holds (remove_request k flag s) = holds s"
    "holds_exclusive (remove_request k flag s) = holds_exclusive s"
proof (atomize (full), cases "entry_of s k")
  case None
  then show "lock_inv (remove_request k flag s) \<and> holds (remove_request k flag s) = holds s \<and>
      holds_exclusive (remove_request k flag s) = holds_exclusive s"
    using assms by (simp add: remove_request_def)
next
  case (Some e)
  then have "holders e \<noteq> []" using assms by (auto simp: lock_inv_def table_inv_def)
  then have "remove_request k flag s = set_entry k (e\<lparr>wait_queue := filter (\<lambda>r. req_flag r \<noteq> flag) (wait_queue e)\<rparr>) s"
    using Some by (simp add: remove_request_def lock_entry_is_empty_def Let_def)
  then show "lock_inv (remove_request k flag s) \<and> holds (remove_request k flag s) = holds s \<and>
      holds_exclusive (remove_request k flag s) = holds_exclusive s"
    using queue_update [OF assms Some] by simp
qed

text \<open>A new holder: the entry is replaced by one the transaction has joined, and the key is indexed.\<close>

lemma join_entry:
  assumes inv: "lock_inv s" and e': "mode_ok (granted_mode e') (holders e')"
    and hs: "\<And>u. u \<in> set (holders e') \<longleftrightarrow> u = t \<or> holds s u k"
  shows "lock_inv (record_hold k t (set_entry k e' s))"
proof -
  have ne: "holders e' \<noteq> []" using hs [of t] by auto
  have "table_inv (set_entry k e' s)" using inv e' ne by (intro table_inv_set_entry) (simp_all add: lock_inv_def)
  then have "table_inv (record_hold k t (set_entry k e' s))" by (rule table_inv_updates)
  moreover have "index_inv {} (record_hold k t (set_entry k e' s))"
    using inv hs unfolding lock_inv_def index_inv_def by (auto simp: holds_set_entry)
  ultimately show ?thesis by (simp add: lock_inv_def)
qed

lemma acquire_free:
  fixes t :: txn_id and mode :: lock_mode
  assumes inv: "lock_inv s" and k: "entry_of s k = None" "lock_count s < MAX_LOCK_TABLE_ENTRIES"
  defines "s' \<equiv> record_hold k t (set_entry k \<lparr>granted_mode = Some mode, holders = [t], wait_queue = []\<rparr> (set_entry k lock_entry_new s))"
  shows "acquire t k mode s = Inr (Acquired, s')" "lock_inv s'"
proof -
  show "acquire t k mode s = Inr (Acquired, s')"
    using k by (simp add: acquire_def try_grant_immediate_def lock_entry_new_def s'_def Let_def)
  have "set_entry k x (set_entry k y s) = set_entry k x s" for x y
  proof -
    have "AList.update k x (AList.update k y al) = AList.update k x al" for al :: "(bytes \<times> lock_entry) list"
      by (induction al) auto
    then show ?thesis by (simp add: set_entry_def)
  qed
  then show "lock_inv s'" unfolding s'_def using k(1)
    by (simp only:) (intro join_entry [OF inv]; simp add: mode_ok_def holds_def)
qed

definition keeps_locks :: "lock_state \<Rightarrow> lock_state \<Rightarrow> bool" where
  "keeps_locks s s' \<longleftrightarrow> (\<forall>u k. holds s u k \<longrightarrow> holds s' u k) \<and> (\<forall>u k. holds_exclusive s u k \<longrightarrow> holds_exclusive s' u k)"

definition has_lock :: "lock_mode \<Rightarrow> lock_state \<Rightarrow> txn_id \<Rightarrow> bytes \<Rightarrow> bool" where
  "has_lock mode s t k \<longleftrightarrow> holds s t k \<and> (mode = Exclusive \<longrightarrow> holds_exclusive s t k)"

lemma keeps_locks_refl [simp]: "keeps_locks s s"
  by (simp add: keeps_locks_def)

lemma exclusive_unique: "holds_exclusive s t k \<Longrightarrow> holds s u k \<Longrightarrow> u = t"
  by (auto simp: holds_exclusive_def holds_def)

lemma holds_exclusive_holds: "holds_exclusive s t k \<Longrightarrow> holds s t k"
  by (auto simp: holds_exclusive_def holds_def)

lemma try_grant_immediate_ok:
  assumes inv: "lock_inv s" and e: "entry_of s k = Some e"
  shows "\<exists>g s'. try_grant_immediate k t mode s = Inr (g, s') \<and> lock_inv s' \<and> keeps_locks s s' \<and>
    (if g = MustWait then s' = s else has_lock mode s' t k)"
proof -
  have ok: "mode_ok (granted_mode e) (holders e)" "holders e \<noteq> []" using inv e by (auto simp: lock_inv_def table_inv_def)
  then obtain m where m: "granted_mode e = Some m" by (auto simp: mode_ok_def)
  have hold: "holds s u k \<longleftrightarrow> u \<in> set (holders e)" for u using e by (simp add: holds_def)
  show ?thesis
  proof (cases "t \<in> set (holders e)")
    case True
    show ?thesis
    proof (cases "m = Shared \<and> mode = Exclusive")
      case up: True
      show ?thesis
      proof (cases "length (holders e) = 1")
        case True
        let ?e = "e\<lparr>granted_mode := Some Exclusive\<rparr>"
        have hs: "holders e = [t]" using True \<open>t \<in> set (holders e)\<close> by (auto simp: length_Suc_conv)
        have h: "holds (set_entry k ?e s) = holds s" using e by (auto simp: fun_eq_iff holds_def)
        have "table_inv (set_entry k ?e s)" using inv hs by (intro table_inv_set_entry) (simp_all add: lock_inv_def mode_ok_def)
        then have "lock_inv (set_entry k ?e s)" using inv h by (simp add: lock_inv_def index_inv_def)
        moreover have "keeps_locks s (set_entry k ?e s)" using h e hs by (auto simp: keeps_locks_def holds_exclusive_def)
        moreover have "has_lock mode (set_entry k ?e s) t k" using hs by (simp add: has_lock_def holds_def holds_exclusive_def)
        ultimately show ?thesis using e ok m up hs by (auto simp: try_grant_immediate_def)
      next
        case False
        then show ?thesis using e ok m up \<open>t \<in> set (holders e)\<close> inv by (simp add: try_grant_immediate_def)
      qed
    next
      case False
      have "has_lock mode s t k"
        using False True ok m e hold
        by (cases m; cases mode) (auto simp: has_lock_def holds_exclusive_def mode_ok_def length_Suc_conv)
      then show ?thesis using e ok m False True inv
        by (cases m; cases mode) (auto simp: try_grant_immediate_def)
    qed
  next
    case False
    show ?thesis
    proof (cases "wait_queue e = [] \<and> is_compatible mode m")
      case True
      then have m': "m = Shared" "mode = Shared" by (auto simp: is_compatible_def split: lock_mode.splits)
      let ?s = "record_hold k t (set_entry k (e\<lparr>holders := List.insert t (holders e)\<rparr>) s)"
      have "lock_inv ?s" using inv ok m m' hold False by (intro join_entry) (auto simp: mode_ok_def)
      moreover have "keeps_locks s ?s" using e m m' by (auto simp: keeps_locks_def holds_def holds_exclusive_def)
      moreover have "has_lock mode ?s t k" using m' by (simp add: has_lock_def holds_def)
      ultimately show ?thesis using True e ok m False by (auto simp: try_grant_immediate_def)
    next
      case no: False
      then show ?thesis using e ok m False inv by (auto simp: try_grant_immediate_def)
    qed
  qed
qed

lemma acquire_ok:
  assumes inv: "lock_inv s" and a: "acquire t k mode s = Inr (out, s')"
  shows "lock_inv s'" "keeps_locks s s'" "out = Acquired \<Longrightarrow> has_lock mode s' t k"
proof (atomize (full), cases "entry_of s k")
  case None
  show "lock_inv s' \<and> keeps_locks s s' \<and> (out = Acquired \<longrightarrow> has_lock mode s' t k)"
  proof (cases "lock_count s \<ge> MAX_LOCK_TABLE_ENTRIES")
    case True
    then show ?thesis using None a inv by (auto simp: acquire_def)
  next
    case False
    then show ?thesis using acquire_free [OF inv None, of t mode] a None
      by (auto simp: keeps_locks_def has_lock_def holds_def holds_exclusive_def)
  qed
next
  case (Some e)
  obtain g s1 where g: "try_grant_immediate k t mode s = Inr (g, s1)" "lock_inv s1" "keeps_locks s s1"
    "if g = MustWait then s1 = s else has_lock mode s1 t k"
    using try_grant_immediate_ok [OF inv Some] by blast
  show "lock_inv s' \<and> keeps_locks s s' \<and> (out = Acquired \<longrightarrow> has_lock mode s' t k)"
  proof (cases "g = MustWait")
    case False
    then have "out = Acquired \<and> s' = s1" using a g(1) Some by (cases g) (auto simp: acquire_def)
    then show ?thesis using g False by simp
  next
    case True
    let ?r = "\<lparr>req_txn = t, req_mode = mode, req_flag = next_flag s\<rparr>"
    let ?s2 = "set_entry k (e\<lparr>wait_queue := wait_queue e @ [?r]\<rparr>) (s\<lparr>next_flag := next_flag s + 1\<rparr>)"
    have e2: "entry_of (s\<lparr>next_flag := next_flag s + 1\<rparr>) k = Some e" using Some by simp
    have q: "lock_inv ?s2" "holds ?s2 = holds s" "holds_exclusive ?s2 = holds_exclusive s"
      using queue_update [OF _ e2, of "wait_queue e @ [?r]"] inv by simp_all
    have "out \<noteq> Acquired \<and> (s' = ?s2 \<or> s' = remove_request k (next_flag s) ?s2)"
      using a g(1,4) True Some by (auto simp: acquire_def Let_def and_then_eq_Inr split: option.splits)
    then show ?thesis using q remove_request_ok [OF q(1)] by (auto simp: keeps_locks_def)
  qed
qed

lemma acquire_timeout_ok:
  assumes "lock_inv s" "acquire_timeout k flag s = (out, s')"
  shows "lock_inv s'" "keeps_locks s s'"
  using assms remove_request_ok [OF assms(1)]
  by (auto simp: acquire_timeout_def keeps_locks_def split: if_splits)

text \<open>A release by one transaction keeps the exclusive locks of the others.\<close>

lemma release_key_keeps:
  assumes t: "table_inv s" and r: "release_key t k s = Inr (w, s')" and x: "holds_exclusive s u k'" "u \<noteq> t"
  shows "holds_exclusive s' u k'"
proof (cases "holds s t k")
  case True
  then obtain e where e: "entry_of s k = Some e" "t \<in> set (holders e)" by (auto simp: holds_def)
  have "k' \<noteq> k" using exclusive_unique [OF x(1)] True x(2) by auto
  then show ?thesis using release_key_ok [OF t e] r x(1) by (auto simp: holds_exclusive_def)
next
  case False
  then have "s' = s" using r by (auto simp: release_key_def holds_def split: option.splits if_splits)
  then show ?thesis using x by simp
qed

lemma release_keys_keeps:
  assumes "table_inv s" "release_keys t ks s = Inr s'" "holds_exclusive s u k'" "u \<noteq> t"
  shows "holds_exclusive s' u k'"
  using assms
proof (induction ks arbitrary: s)
  case (Cons k ks)
  obtain w s1 where s1: "release_key t k s = Inr (w, s1)" "release_keys t ks s1 = Inr s'"
    using Cons.prems(2) by (auto simp: and_then_eq_Inr)
  have "table_inv s1"
  proof (cases "holds s t k")
    case True
    then obtain e where "entry_of s k = Some e" "t \<in> set (holders e)" by (auto simp: holds_def)
    from release_key_ok [OF Cons.prems(1) this] show ?thesis using s1(1) by auto
  next
    case False
    then have "s1 = s" using s1(1) by (auto simp: release_key_def holds_def split: option.splits if_splits)
    then show ?thesis using Cons.prems(1) by simp
  qed
  then show ?case using Cons.IH s1(2) release_key_keeps [OF Cons.prems(1) s1(1) Cons.prems(3,4)] Cons.prems(4) by blast
qed simp

lemma release_all_keeps:
  assumes "lock_inv s" "release_all t s = Inr s'" "holds_exclusive s u k" "u \<noteq> t"
  shows "holds_exclusive s' u k"
proof -
  let ?s = "s\<lparr>txn_locks := AList.delete t (txn_locks s)\<rparr>"
  have "table_inv ?s" using assms(1) by (auto simp: lock_inv_def table_inv_def AList.distinct_delete)
  moreover have "holds_exclusive ?s u k" using assms(3) by (simp add: holds_exclusive_def)
  ultimately show ?thesis using assms(2,4) release_keys_keeps unfolding release_all_def by blast
qed

end
