(* ===== verification/Lock_Deadlock.thy ===== *)
theory Lock_Deadlock
  imports Lock_Manager
begin

text \<open>
  Deadlock detection of the lock manager: the breadth-first search over the wait-for graph finds a cycle
  through the requesting transaction exactly when there is one, and stays within its iteration limit when
  at most that many transactions hold locks.
\<close>

lemma neighbours_iff [simp]: "n \<in> set (neighbours g t) \<longleftrightarrow> (t, n) \<in> set g"
  by (force simp: neighbours_def)

lemma distinct_neighbours [simp]: "distinct (neighbours g t)"
  by (simp add: neighbours_def)

section \<open>Parents lead back to the start\<close>

fun chain :: "txn_id \<Rightarrow> (txn_id \<times> txn_id) list \<Rightarrow> bool" where
  "chain start [] = True"
| "chain start ((n, p) # rest) \<longleftrightarrow> n \<notin> fst ` set rest \<and> (p = start \<or> p \<in> fst ` set rest) \<and> chain start rest"

lemma walk_back_mono: "walk_back f start parent node \<noteq> None \<Longrightarrow> walk_back (Suc f) start parent node \<noteq> None"
proof (induction f arbitrary: node)
  case 0
  then show ?case by (simp add: walk_back.simps split: if_splits)
next
  case (Suc f)
  show ?case
  proof (cases "node = start")
    case True
    then show ?thesis by (simp add: walk_back.simps)
  next
    case False
    then obtain p where p: "map_of parent node = Some p" "walk_back f start parent p \<noteq> None"
      using Suc.prems by (simp add: walk_back.simps [of "Suc f"] split: option.splits)
    then show ?thesis using Suc.IH [OF p(2)] False by (simp add: walk_back.simps [of "Suc (Suc f)"])
  qed
qed

lemma chain_append: "chain start (pre @ rest) \<Longrightarrow> chain start rest \<and> fst ` set pre \<inter> fst ` set rest = {}"
proof (induction pre)
  case (Cons e pre)
  then show ?case by (cases e) (simp add: image_Un)
qed simp

lemma walk_back_suffix:
  assumes "chain start (pre @ rest)" "node = start \<or> node \<in> fst ` set rest"
  shows "walk_back (length rest) start (pre @ rest) node \<noteq> None"
  using assms
proof (induction rest arbitrary: pre node)
  case Nil
  then show ?case by (simp add: walk_back.simps)
next
  case (Cons e rest)
  obtain n p where e: "e = (n, p)" by (cases e)
  have ch: "chain start ((pre @ [e]) @ rest)" using Cons.prems(1) by simp
  have c: "n \<notin> fst ` set pre" "p = start \<or> p \<in> fst ` set rest"
    using chain_append [OF Cons.prems(1)] e by auto
  show ?case
  proof (cases "node = start \<or> node \<noteq> n")
    case True
    then have "node = start \<or> node \<in> fst ` set rest" using Cons.prems(2) e by auto
    then have "walk_back (length rest) start (pre @ e # rest) node \<noteq> None" using Cons.IH [OF ch] by simp
    then show ?thesis using walk_back_mono by simp
  next
    case False
    have "map_of pre n = None" using c(1) by (simp add: map_of_eq_None_iff)
    then have "map_of (pre @ e # rest) node = Some p" using False e by (simp add: map_add_def)
    moreover have "walk_back (length rest) start (pre @ e # rest) p \<noteq> None" using Cons.IH [OF ch c(2)] by simp
    ultimately show ?thesis using False by (simp add: walk_back.simps [of "Suc _"])
  qed
qed

lemma walk_back_ok:
  assumes "chain start parent" "node \<in> fst ` set parent"
  shows "\<exists>cycle. walk_back (length parent) start parent node = Some cycle"
  using walk_back_suffix [of start "[]" parent node] assms by auto

section \<open>The search\<close>

lemma visit_ok:
  assumes "chain start parent" "current \<in> fst ` set parent" "distinct queue" "set queue \<subseteq> fst ` set parent"
    and "visit start current ns parent queue = (parent', queue', found)"
  shows "found \<longleftrightarrow> start \<in> set ns" "chain start parent'" "fst ` set parent \<subseteq> fst ` set parent'"
    "fst ` set parent' \<subseteq> fst ` set parent \<union> set ns" "set ns \<subseteq> fst ` set parent' \<or> found"
    "set queue' = set queue \<union> (fst ` set parent' - fst ` set parent)"
    "length queue' + card (fst ` set parent) = length queue + card (fst ` set parent')"
    "distinct queue'"
  using assms
proof (atomize (full), induction ns arbitrary: parent queue)
  case (Cons n ns)
  show ?case
  proof (cases "n = start \<or> n \<in> fst ` set parent")
    case True
    then show ?thesis using Cons.IH [of parent queue] Cons.prems by (cases "n = start") (auto simp del: not_Some_eq)
  next
    case False
    let ?p = "(n, current) # parent" and ?q = "queue @ [n]"
    have v: "visit start current ns ?p ?q = (parent', queue', found)" using Cons.prems(5) False by simp
    have "chain start ?p" "current \<in> fst ` set ?p" "distinct ?q" "set ?q \<subseteq> fst ` set ?p"
      using Cons.prems False by auto
    from Cons.IH [OF this v] have IH: "found \<longleftrightarrow> start \<in> set ns" "chain start parent'" "fst ` set ?p \<subseteq> fst ` set parent'"
      "fst ` set parent' \<subseteq> fst ` set ?p \<union> set ns" "set ns \<subseteq> fst ` set parent' \<or> found"
      "set queue' = set ?q \<union> (fst ` set parent' - fst ` set ?p)"
      "length queue' + card (fst ` set ?p) = length ?q + card (fst ` set parent')" "distinct queue'"
      by blast+
    moreover have "card (fst ` set ?p) = Suc (card (fst ` set parent))" using False by simp
    ultimately show ?thesis using False by auto
  qed
qed auto

text \<open>
  The state of the search: the visited transactions are reachable from the start, and those that have left
  the queue have had all their neighbours visited, the start not being one of them.
\<close>

definition search_inv :: "(txn_id \<times> txn_id) list \<Rightarrow> txn_id \<Rightarrow> (txn_id \<times> txn_id) list \<Rightarrow> txn_id list \<Rightarrow> bool" where
  "search_inv g start parent queue \<longleftrightarrow> chain start parent \<and> distinct queue \<and> set queue \<subseteq> fst ` set parent \<and>
    set (neighbours g start) \<subseteq> fst ` set parent \<and>
    (\<forall>n \<in> fst ` set parent. (start, n) \<in> (set g)\<^sup>+) \<and>
    (\<forall>n \<in> fst ` set parent - set queue. start \<notin> set (neighbours g n) \<and> set (neighbours g n) \<subseteq> fst ` set parent)"

lemma search_inv_reach: "search_inv g start parent queue \<Longrightarrow> n \<in> fst ` set parent \<Longrightarrow> (start, n) \<in> (set g)\<^sup>+"
  unfolding search_inv_def by blast

lemma search_inv_closed:
  assumes "search_inv g start parent queue" "n \<in> fst ` set parent" "n \<notin> set queue"
  shows "start \<notin> set (neighbours g n)" "set (neighbours g n) \<subseteq> fst ` set parent"
  using assms unfolding search_inv_def by blast+

lemma search_inv_step:
  assumes inv: "search_inv g start parent (current # queue)"
    and v: "visit start current (neighbours g current) parent queue = (parent', queue', False)"
  shows "search_inv g start parent' queue'" "length queue' + card (fst ` set parent) = length queue + card (fst ` set parent')"
proof -
  have pre: "chain start parent" "current \<in> fst ` set parent" "distinct queue" "set queue \<subseteq> fst ` set parent" "current \<notin> set queue"
    using inv by (auto simp: search_inv_def)
  note vo = visit_ok [OF pre(1-4) v]
  show "length queue' + card (fst ` set parent) = length queue + card (fst ` set parent')" by (rule vo(7))
  have reach: "(start, n) \<in> (set g)\<^sup>+" if "n \<in> fst ` set parent'" for n
  proof (cases "n \<in> fst ` set parent")
    case True
    then show ?thesis by (rule search_inv_reach [OF inv])
  next
    case False
    then have "(current, n) \<in> set g" using vo(4) that by auto
    then show ?thesis by (rule trancl_into_trancl [OF search_inv_reach [OF inv pre(2)]])
  qed
  have closed: "start \<notin> set (neighbours g n) \<and> set (neighbours g n) \<subseteq> fst ` set parent'"
    if "n \<in> fst ` set parent' - set queue'" for n
  proof (cases "n = current")
    case True
    then show ?thesis using vo(1,5) by blast
  next
    case False
    then have "n \<in> fst ` set parent" "n \<notin> set (current # queue)" using that vo(6) by auto
    from search_inv_closed [OF inv this] show ?thesis using vo(3) by blast
  qed
  have "set (neighbours g start) \<subseteq> fst ` set parent" using inv by (simp add: search_inv_def)
  then have nb: "set (neighbours g start) \<subseteq> fst ` set parent'" using vo(3) by (rule subset_trans)
  have sub: "set queue' \<subseteq> fst ` set parent'" using vo(3,6) pre(4) by blast
  show "search_inv g start parent' queue'"
    unfolding search_inv_def by (intro conjI ballI vo(2,8) sub nb reach) (use closed in \<open>blast+\<close>)
qed

lemma search_done:
  assumes "search_inv g start parent []"
  shows "(start, start) \<notin> (set g)\<^sup>+"
proof -
  have reach: "n \<in> fst ` set parent" if "(start, n) \<in> (set g)\<^sup>+" for n
    using that
  proof (induction rule: trancl_induct)
    case (base y)
    then have "y \<in> set (neighbours g start)" by simp
    then show ?case using assms unfolding search_inv_def by blast
  next
    case (step y z)
    then have "z \<in> set (neighbours g y)" by simp
    moreover have "y \<in> fst ` set parent - set []" using step.IH by simp
    ultimately show ?case using assms unfolding search_inv_def by blast
  qed
  show ?thesis
  proof
    assume c: "(start, start) \<in> (set g)\<^sup>+"
    then obtain y where y: "(y, start) \<in> set g" "y = start \<or> (start, y) \<in> (set g)\<^sup>+" by (auto elim: tranclE)
    then have "y \<in> fst ` set parent - set []" using reach c by auto
    moreover have "start \<in> set (neighbours g y)" using y(1) by simp
    ultimately show False using assms unfolding search_inv_def by blast
  qed
qed

lemma bfs_ok:
  assumes "search_inv g start parent queue" "bfs fuel g start parent queue = Inr c"
  shows "c \<noteq> None \<longleftrightarrow> (start, start) \<in> (set g)\<^sup>+"
  using assms
proof (induction fuel arbitrary: parent queue)
  case 0
  then show ?case using search_done by (auto split: if_splits)
next
  case (Suc fuel)
  show ?case
  proof (cases queue)
    case Nil
    then show ?thesis using Suc.prems search_done by auto
  next
    case (Cons current rest)
    obtain parent' queue' found where v: "visit start current (neighbours g current) parent rest = (parent', queue', found)"
      by (metis prod_cases3)
    have pre: "chain start parent" "current \<in> fst ` set parent" "distinct rest" "set rest \<subseteq> fst ` set parent"
      using Suc.prems(1) Cons by (auto simp: search_inv_def)
    note vo = visit_ok [OF pre v]
    show ?thesis
    proof (cases found)
      case True
      have "current \<in> fst ` set parent'" using pre(2) vo(3) by blast
      from walk_back_ok [OF vo(2) this] obtain cycle where "c = Some cycle" using Suc.prems(2) Cons v True by auto
      moreover have "(current, start) \<in> set g" using vo(1) True by simp
      moreover have "(start, current) \<in> (set g)\<^sup>+" using Suc.prems(1) pre(2) unfolding search_inv_def by blast
      ultimately show ?thesis by (auto intro: trancl_into_trancl)
    next
      case False
      then show ?thesis using Suc.IH [of parent' queue'] search_inv_step [of g start parent current rest parent' queue'] Suc.prems Cons v
        by simp
    qed
  qed
qed

text \<open>Every iteration takes one transaction off the queue and no transaction is queued twice.\<close>

lemma bfs_within_limit:
  assumes "search_inv g start parent queue" "length queue + card (snd ` set g) \<le> fuel + card (fst ` set parent)"
    and "fst ` set parent \<subseteq> snd ` set g"
  shows "\<exists>c. bfs fuel g start parent queue = Inr c"
  using assms
proof (induction fuel arbitrary: parent queue)
  case 0
  have "card (fst ` set parent) \<le> card (snd ` set g)" using 0 by (intro card_mono) simp_all
  then have "length queue = 0" using 0(2) by linarith
  then have "queue = []" by simp
  then show ?case by simp
next
  case (Suc fuel)
  show ?case
  proof (cases queue)
    case (Cons current rest)
    obtain parent' queue' found where v: "visit start current (neighbours g current) parent rest = (parent', queue', found)"
      by (metis prod_cases3)
    have pre: "chain start parent" "current \<in> fst ` set parent" "distinct rest" "set rest \<subseteq> fst ` set parent"
      using Suc.prems(1) Cons by (auto simp: search_inv_def)
    show ?thesis
    proof (cases found)
      case False
      have "search_inv g start parent' queue'" "length queue' + card (fst ` set parent) = length rest + card (fst ` set parent')"
        using search_inv_step [of g start parent current rest parent' queue'] Suc.prems(1) Cons v False by simp_all
      moreover have "fst ` set parent' \<subseteq> snd ` set g"
        using visit_ok(4) [OF pre v] Suc.prems(3) by (force simp: subset_iff)
      ultimately show ?thesis using Suc.IH [of parent' queue'] Suc.prems(2) Cons v False by simp
    qed (use Cons v in simp)
  qed simp
qed

lemma search_inv_start:
  assumes "(start, n) \<in> set g"
  shows "search_inv g start (map (\<lambda>n. (n, start)) (neighbours g start)) (neighbours g start)"
proof -
  have "chain start (map (\<lambda>n. (n, start)) ns)" if "distinct ns" for ns
    using that by (induction ns) (auto simp: image_image)
  then show ?thesis by (auto simp: search_inv_def image_image)
qed

lemma detect_cycle_ok:
  assumes "detect_cycle g start = Inr c"
  shows "c \<noteq> None \<longleftrightarrow> (start, start) \<in> (set g)\<^sup>+"
proof (cases "neighbours g start")
  case Nil
  then have "(start, n) \<notin> set g" for n using neighbours_iff [of n g start] by simp
  then have "(start, start) \<notin> (set g)\<^sup>+" by (auto elim: converse_tranclE)
  then show ?thesis using assms Nil by (simp add: detect_cycle_def)
next
  case (Cons n ns)
  then have "(start, n) \<in> set g" using neighbours_iff [of n g start] by simp
  from bfs_ok [OF search_inv_start [OF this]] show ?thesis using assms Cons by (simp add: detect_cycle_def Let_def)
qed

lemma detect_cycle_within_limit:
  assumes "card (snd ` set g) \<le> MAX_BFS_ITERATIONS"
  shows "\<exists>c. detect_cycle g start = Inr c"
proof (cases "neighbours g start")
  case (Cons n ns)
  then have e: "(start, n) \<in> set g" using neighbours_iff [of n g start] by simp
  have "card (set (neighbours g start)) = length (neighbours g start)" by (simp add: distinct_card)
  moreover have "set (neighbours g start) \<subseteq> snd ` set g" by force
  ultimately show ?thesis using bfs_within_limit [OF search_inv_start [OF e]] assms Cons
    by (simp add: detect_cycle_def Let_def image_image)
qed (simp add: detect_cycle_def)

text \<open>
  C17. Deadlock detection is exact.  For every wait-for graph in which at most \<^verbatim>\<open>MAX_BFS_ITERATIONS\<close>
  transactions are waited for, the search from a transaction completes, and it reports a cycle exactly when
  the transaction waits, through any number of others, for itself.
\<close>

theorem deadlock_detection_exact:
  assumes "card (snd ` set g) \<le> MAX_BFS_ITERATIONS"
  shows "\<exists>c. detect_cycle g t = Inr c \<and> (c \<noteq> None \<longleftrightarrow> (t, t) \<in> (set g)\<^sup>+)"
  using detect_cycle_within_limit [OF assms] detect_cycle_ok by blast

theorem deadlock_detection_exact_witness:
  "\<exists>c. detect_cycle [(1, 2), (2, 3), (3, 1)] 1 = Inr c \<and> c \<noteq> None"
proof -
  have "card (snd ` set [(1 :: txn_id, 2 :: txn_id), (2, 3), (3, 1)]) \<le> MAX_BFS_ITERATIONS"
    by (simp add: MAX_BFS_ITERATIONS_def card_insert_if)
  from deadlock_detection_exact [OF this, of 1] obtain c where
    c: "detect_cycle [(1, 2), (2, 3), (3, 1)] 1 = Inr c" "c \<noteq> None \<longleftrightarrow> (1, 1) \<in> (set [(1 :: txn_id, 2 :: txn_id), (2, 3), (3, 1)])\<^sup>+" by blast
  have "(1, 3) \<in> (set [(1 :: txn_id, 2 :: txn_id), (2, 3), (3, 1)])\<^sup>+"
    by (rule trancl_into_trancl [OF r_into_trancl [of 1 2]]) simp_all
  then have "(1, 1) \<in> (set [(1 :: txn_id, 2 :: txn_id), (2, 3), (3, 1)])\<^sup>+"
    by (rule trancl_into_trancl) simp
  then show ?thesis using c by blast
qed

end
