(* ===== verification/Lock_Properties.thy ===== *)
theory Lock_Properties
  imports Lock_Deadlock
begin

text \<open>
  Reachable states of the lock manager, for any interleaving of the calls of its clients: exclusion, hand-over
  to the waiters, and the deadlocks that the wait-for graph does not show.
\<close>

section \<open>Single releases\<close>

lemma release_ok:
  assumes inv: "lock_inv s"
  shows "\<exists>s'. release t k s = Inr s' \<and> lock_inv s'"
proof -
  define ks where "ks = removeAll k (txn_keys s t)"
  define s1 where "s1 = (case map_of (txn_locks s) t of
      None \<Rightarrow> s
    | Some keys \<Rightarrow>
        let keys = removeAll k keys in
        s\<lparr>txn_locks := (if keys = [] then AList.delete t (txn_locks s) else AList.update t keys (txn_locks s))\<rparr>)"
  have h: "txn_keys s1 u = (if u = t then ks else txn_keys s u)" for u
    by (auto simp: s1_def ks_def txn_keys_def Let_def AList.delete_conv' AList.update_conv' split: option.split)
  have lt: "lock_table s1 = lock_table s" by (auto simp: s1_def Let_def split: option.split)
  have ho: "holds s1 = holds s" by (simp add: fun_eq_iff holds_def lt)
  have t1: "table_inv s1" using inv lt
    by (auto simp: lock_inv_def table_inv_def s1_def Let_def AList.distinct_delete AList.distinct_update split: option.split)
  have d: "distinct ks" using inv by (simp add: lock_inv_def index_inv_def ks_def removeAll_filter_not_eq)
  have rel: "release t k s = release_keys t [k] s1"
    by (simp add: release_def s1_def [symmetric] and_then_def split: sum.split)
  show ?thesis
  proof (cases "holds s t k")
    case True
    have "index_inv ({t} \<times> set [k]) s1"
      using inv True d unfolding lock_inv_def index_inv_def ho h by (auto simp: ks_def)
    from release_keys_ok [OF t1 this] show ?thesis unfolding rel by simp
  next
    case False
    then have "index_inv {} s1" using inv d unfolding lock_inv_def index_inv_def ho h by (auto simp: ks_def)
    moreover have "release_key t k s1 = Inr (False, s1)"
      using False ho by (auto simp: release_key_def holds_def lt split: option.split)
    ultimately show ?thesis unfolding rel using t1 by (simp add: lock_inv_def)
  qed
qed

section \<open>Reachable states\<close>

inductive lock_reachable :: "lock_state \<Rightarrow> bool" where
  init: "lock_reachable lock_state_new"
| acquire: "lock_reachable s \<Longrightarrow> acquire t k mode s = Inr (out, s') \<Longrightarrow> lock_reachable s'"
| timeout: "lock_reachable s \<Longrightarrow> acquire_timeout k flag s = (out, s') \<Longrightarrow> lock_reachable s'"
| release: "lock_reachable s \<Longrightarrow> release t k s = Inr s' \<Longrightarrow> lock_reachable s'"
| release_all: "lock_reachable s \<Longrightarrow> release_all t s = Inr s' \<Longrightarrow> lock_reachable s'"

lemma lock_inv_new [simp]: "lock_inv lock_state_new"
  by (simp add: lock_inv_def table_inv_def index_inv_def lock_state_new_def txn_keys_def holds_def)

lemma lock_reachable_inv: "lock_reachable s \<Longrightarrow> lock_inv s"
proof (induction rule: lock_reachable.induct)
  case (acquire s t k mode out s')
  then show ?case using acquire_ok(1) by blast
next
  case (timeout s k flag out s')
  then show ?case using acquire_timeout_ok(1) by blast
next
  case (release s t k s')
  then show ?case using release_ok [of s t k] by auto
next
  case (release_all s t s')
  then show ?case using release_all_ok [of s t] by auto
qed simp

text \<open>Releasing other keys leaves the entry of a key alone.\<close>

lemma try_grant_waiters_frame:
  assumes "try_grant_waiters k s = Inr (w, s')"
  shows "set (raised_flags s) \<subseteq> set (raised_flags s')" "k' \<noteq> k \<Longrightarrow> entry_of s' k' = entry_of s k'"
proof (atomize (full), cases "entry_of s k")
  case None
  then show "set (raised_flags s) \<subseteq> set (raised_flags s') \<and> (k' \<noteq> k \<longrightarrow> entry_of s' k' = entry_of s k')"
    using assms by (simp add: try_grant_waiters_def)
next
  case (Some e)
  then obtain m hs q n fl where g: "grant_loop (granted_mode e) (holders e) (wait_queue e) = Inr (m, hs, q, n, fl)"
    using assms by (cases "grant_loop (granted_mode e) (holders e) (wait_queue e)") (auto simp: try_grant_waiters_def)
  have "s' = fold (record_hold k) n ((set_entry k \<lparr>granted_mode = m, holders = hs, wait_queue = q\<rparr> s)\<lparr>raised_flags := raised_flags s @ fl\<rparr>)"
    using assms Some g by (simp add: try_grant_waiters_def Let_def)
  then show "set (raised_flags s) \<subseteq> set (raised_flags s') \<and> (k' \<noteq> k \<longrightarrow> entry_of s' k' = entry_of s k')" by simp
qed

lemma release_key_frame:
  assumes "release_key t k s = Inr (w, s')"
  shows "set (raised_flags s) \<subseteq> set (raised_flags s')" "k' \<noteq> k \<Longrightarrow> entry_of s' k' = entry_of s k'"
proof (atomize (full), cases "holds s t k")
  case True
  then obtain e where e: "entry_of s k = Some e" "t \<in> set (holders e)" by (auto simp: holds_def)
  let ?hs = "removeAll t (holders e)"
  let ?s1 = "set_entry k (e\<lparr>holders := ?hs, granted_mode := (if ?hs = [] then None else granted_mode e)\<rparr>) s"
  obtain s2 where g: "try_grant_waiters k ?s1 = Inr (w, s2)" "s' = s2 \<or> s' = remove_entry k s2"
    using assms e by (simp add: release_key_def Let_def and_then_eq_Inr) (force split: option.splits if_splits)
  note f = try_grant_waiters_frame [OF g(1)]
  then show "set (raised_flags s) \<subseteq> set (raised_flags s') \<and> (k' \<noteq> k \<longrightarrow> entry_of s' k' = entry_of s k')"
    using g(2) by (auto simp: remove_entry_def AList.delete_conv')
next
  case False
  then have "s' = s" using assms by (auto simp: release_key_def holds_def split: option.splits if_splits)
  then show "set (raised_flags s) \<subseteq> set (raised_flags s') \<and> (k' \<noteq> k \<longrightarrow> entry_of s' k' = entry_of s k')" by simp
qed

lemmas release_key_flags = release_key_frame(1)
lemmas release_key_other = release_key_frame(2)

lemma release_keys_other:
  "release_keys t ks s = Inr s' \<Longrightarrow> k \<notin> set ks \<Longrightarrow> entry_of s' k = entry_of s k \<and> set (raised_flags s) \<subseteq> set (raised_flags s')"
proof (induction ks arbitrary: s)
  case (Cons a ks)
  then obtain w s1 where "release_key t a s = Inr (w, s1)" "release_keys t ks s1 = Inr s'" by (auto simp: and_then_eq_Inr)
  then show ?case using Cons.IH Cons.prems(2) release_key_other release_key_flags by fastforce
qed simp

definition handed_over :: "lock_state \<Rightarrow> bytes \<Rightarrow> lock_request \<Rightarrow> bool" where
  "handed_over s k r \<longleftrightarrow> req_flag r \<in> set (raised_flags s) \<and> has_lock (req_mode r) s (req_txn r) k"

lemma handed_over_cong:
  "handed_over s k r \<Longrightarrow> entry_of s' k = entry_of s k \<Longrightarrow> set (raised_flags s) \<subseteq> set (raised_flags s') \<Longrightarrow> handed_over s' k r"
  by (auto simp: handed_over_def has_lock_def holds_def holds_exclusive_def)

lemma release_key_handover:
  assumes "table_inv s" "entry_of s k = Some e" "holders e = [t]" "wait_queue e = r # rest" "release_key t k s = Inr (w, s')"
  shows "handed_over s' k r"
proof -
  obtain w' s'' n where "release_key t k s = Inr (w', s'')"
    "\<forall>u k'. holds s'' u k' \<longleftrightarrow> (if k' = k then u \<noteq> t \<and> holds s u k \<or> u \<in> set n else holds s u k')"
    "\<forall>r rest. holders e = [t] \<longrightarrow> wait_queue e = r # rest \<longrightarrow>
      req_txn r \<in> set n \<and> req_flag r \<in> set (raised_flags s'') \<and> (req_mode r = Exclusive \<longrightarrow> holds_exclusive s'' (req_txn r) k)"
    using release_key_ok [OF assms(1,2), of t] assms(3) by auto
  then show ?thesis using assms(3-5) by (auto simp: handed_over_def has_lock_def)
qed

lemma release_keys_handover:
  assumes "table_inv s" "entry_of s k = Some e" "holders e = [t]" "wait_queue e = r # rest"
    and "release_keys t ks s = Inr s'" "k \<in> set ks" "distinct ks"
  shows "handed_over s' k r"
  using assms
proof (induction ks arbitrary: s)
  case (Cons a ks)
  obtain w s1 where s1: "release_key t a s = Inr (w, s1)" "release_keys t ks s1 = Inr s'"
    using Cons.prems(5) by (auto simp: and_then_eq_Inr)
  show ?case
  proof (cases "a = k")
    case True
    then have "handed_over s1 k r" using release_key_handover [OF Cons.prems(1-4)] s1(1) by simp
    then show ?thesis using handed_over_cong release_keys_other [OF s1(2), of k] Cons.prems(7) True by auto
  next
    case False
    have "table_inv s1"
    proof (cases "holds s t a")
      case True
      then obtain e' where "entry_of s a = Some e'" "t \<in> set (holders e')" by (auto simp: holds_def)
      from release_key_ok [OF Cons.prems(1) this] show ?thesis using s1(1) by auto
    next
      case False
      then have "s1 = s" using s1(1) by (auto simp: release_key_def holds_def split: option.splits if_splits)
      then show ?thesis using Cons.prems(1) by simp
    qed
    moreover have "entry_of s1 k = Some e" using release_key_other [OF s1(1), of k] False Cons.prems(2) by simp
    ultimately show ?thesis using Cons.IH [OF _ _ Cons.prems(3,4) s1(2)] Cons.prems(6,7) False by simp
  qed
qed simp

lemma release_all_handover:
  assumes "lock_inv s" "entry_of s k = Some e" "holders e = [t]" "wait_queue e = r # rest" "release_all t s = Inr s'"
  shows "handed_over s' k r"
proof -
  let ?s = "s\<lparr>txn_locks := AList.delete t (txn_locks s)\<rparr>"
  have "table_inv ?s" using assms(1) by (auto simp: lock_inv_def table_inv_def AList.distinct_delete)
  moreover have "holds s t k" using assms(2,3) by (simp add: holds_def)
  then have "k \<in> set (txn_keys s t)" "distinct (txn_keys s t)"
    using assms(1) unfolding lock_inv_def index_inv_def by simp_all
  ultimately show ?thesis using assms(2-5) release_keys_handover [of ?s k e t r rest] unfolding release_all_def by simp
qed

section \<open>Properties\<close>


text \<open>States for the witnesses: one transaction holds a key that a second one waits for.\<close>

lemma bfs_Nil: "bfs n g start parent [] = Inr None"
  by (cases n) simp_all

lemma bfs_Cons:
  assumes "0 < n"
  shows "bfs n g start parent (c # queue) =
    (case visit start c (neighbours g c) parent queue of (parent, queue, found) \<Rightarrow>
       if found then Inr (walk_back (length parent) start parent c) else bfs (n - 1) g start parent queue)"
  using gr0_implies_Suc [OF assms] by (auto split: prod.split)

lemmas bfs_eval = bfs_Nil bfs_Cons

lemmas lock_eval = acquire_def try_grant_immediate_def lock_state_new_def lock_entry_new_def set_entry_def record_hold_def
  txn_keys_def lock_count_def MAX_LOCK_TABLE_ENTRIES_def is_compatible_def Let_def detect_cycle_def build_wait_for_graph_def
  neighbours_def bfs_eval MAX_BFS_ITERATIONS_def

abbreviation request :: "txn_id \<Rightarrow> lock_mode \<Rightarrow> nat \<Rightarrow> lock_request" where
  "request t mode flag \<equiv> \<lparr>req_txn = t, req_mode = mode, req_flag = flag\<rparr>"

definition contended :: lock_state where
  "contended = \<lparr>lock_table = [([7], \<lparr>granted_mode = Some Exclusive, holders = [1], wait_queue = [request 2 Exclusive 0]\<rparr>)],
    txn_locks = [(1, [[7]])], next_flag = 1, raised_flags = []\<rparr>"

lemma contended_reachable: "lock_reachable contended"
proof -
  let ?s = "\<lparr>lock_table = [([7], \<lparr>granted_mode = Some Exclusive, holders = [1], wait_queue = []\<rparr>)],
    txn_locks = [(1, [[7]])], next_flag = 0, raised_flags = []\<rparr>"
  have "acquire 1 [7] Exclusive lock_state_new = Inr (Acquired, ?s)" by (simp add: lock_eval)
  from lock_reachable.acquire [OF lock_reachable.init this] have "lock_reachable ?s" .
  moreover have "acquire 2 [7] Exclusive ?s = Inr (Waiting 0, contended)" by (simp add: lock_eval contended_def)
  ultimately show ?thesis by (rule lock_reachable.acquire)
qed




text \<open>
  Who keeps a waiting request from being granted: a holder whose lock is incompatible, or any request in
  front of it in the queue, since requests are granted in order.
\<close>

definition blocked_by :: "lock_state \<Rightarrow> (txn_id \<times> txn_id) set" where
  "blocked_by s = {(w, b). \<exists>k e pre r post mode. entry_of s k = Some e \<and> granted_mode e = Some mode \<and>
    wait_queue e = pre @ r # post \<and> req_txn r = w \<and>
    (b \<in> set (holders e) \<and> b \<noteq> w \<and> \<not> is_compatible (req_mode r) mode \<or> b \<in> req_txn ` set pre)}"

lemma blocked_by_holder:
  assumes "entry_of s k = Some e" "granted_mode e = Some mode" "wait_queue e = pre @ r # post"
    and "b \<in> set (holders e)" "b \<noteq> req_txn r" "\<not> is_compatible (req_mode r) mode"
  shows "(req_txn r, b) \<in> blocked_by s"
  using assms unfolding blocked_by_def by blast

lemma blocked_by_queue:
  assumes "entry_of s k = Some e" "granted_mode e = Some mode" "wait_queue e = pre @ r # post" "b \<in> req_txn ` set pre"
  shows "(req_txn r, b) \<in> blocked_by s"
  using assms unfolding blocked_by_def by blast

definition queue_deadlock :: lock_state where
  "queue_deadlock = \<lparr>lock_table =
      [([7], \<lparr>granted_mode = Some Shared, holders = [1], wait_queue = [request 2 Exclusive 0, request 3 Shared 1]\<rparr>),
       ([8], \<lparr>granted_mode = Some Exclusive, holders = [3], wait_queue = [request 1 Exclusive 2]\<rparr>)],
    txn_locks = [(1, [[7]]), (3, [[8]])], next_flag = 3, raised_flags = []\<rparr>"

text \<open>
  C18. A deadlock through the queue is not detected.  There is a run of five acquisitions, none of which is
  refused, after which three transactions wait for each other in a circle: the second for a shared lock of
  the first, the third behind the second in the queue of that key, and the first for a lock of the third.
  The wait-for graph has no edge from a transaction to those queued in front of it, so the search from each of
  the three finds nothing and only a timeout ends the wait.
\<close>

theorem queue_deadlock_undetected:
  "lock_reachable queue_deadlock \<and> {(1, 3), (3, 2), (2, 1)} \<subseteq> blocked_by queue_deadlock \<and>
    detect_cycle (build_wait_for_graph queue_deadlock) 1 = Inr None \<and>
    detect_cycle (build_wait_for_graph queue_deadlock) 2 = Inr None \<and>
    detect_cycle (build_wait_for_graph queue_deadlock) 3 = Inr None"
proof (intro conjI)
  let ?e7 = "\<lparr>granted_mode = Some Shared, holders = [1 :: txn_id], wait_queue = []\<rparr>"
  let ?e8 = "\<lparr>granted_mode = Some Exclusive, holders = [3 :: txn_id], wait_queue = []\<rparr>"
  let ?s1 = "\<lparr>lock_table = [([7], ?e7)], txn_locks = [(1, [[7]])], next_flag = 0, raised_flags = []\<rparr>"
  let ?s2 = "\<lparr>lock_table = [([7], ?e7), ([8], ?e8)], txn_locks = [(1, [[7]]), (3, [[8]])], next_flag = 0, raised_flags = []\<rparr>"
  let ?s3 = "\<lparr>lock_table = [([7], ?e7\<lparr>wait_queue := [request 2 Exclusive 0]\<rparr>), ([8], ?e8)],
    txn_locks = [(1, [[7]]), (3, [[8]])], next_flag = 1, raised_flags = []\<rparr>"
  let ?s4 = "\<lparr>lock_table = [([7], ?e7\<lparr>wait_queue := [request 2 Exclusive 0, request 3 Shared 1]\<rparr>), ([8], ?e8)],
    txn_locks = [(1, [[7]]), (3, [[8]])], next_flag = 2, raised_flags = []\<rparr>"
  have "acquire 1 [7] Shared lock_state_new = Inr (Acquired, ?s1)" by (simp add: lock_eval)
  from lock_reachable.acquire [OF lock_reachable.init this] have 1: "lock_reachable ?s1" .
  have "acquire 3 [8] Exclusive ?s1 = Inr (Acquired, ?s2)" by (simp add: lock_eval)
  from lock_reachable.acquire [OF 1 this] have 2: "lock_reachable ?s2" .
  have "acquire 2 [7] Exclusive ?s2 = Inr (Waiting 0, ?s3)" by (simp add: lock_eval)
  from lock_reachable.acquire [OF 2 this] have 3: "lock_reachable ?s3" .
  have "acquire 3 [7] Shared ?s3 = Inr (Waiting 1, ?s4)" by (simp add: lock_eval)
  from lock_reachable.acquire [OF 3 this] have 4: "lock_reachable ?s4" .
  have "acquire 1 [8] Exclusive ?s4 = Inr (Waiting 2, queue_deadlock)" by (simp add: lock_eval queue_deadlock_def)
  from lock_reachable.acquire [OF 4 this] show "lock_reachable queue_deadlock" .
  have "(3, 2) \<in> blocked_by queue_deadlock"
    using blocked_by_queue [of queue_deadlock "[7]" _ Shared "[request 2 Exclusive 0]" "request 3 Shared 1" "[]" 2]
    by (simp add: queue_deadlock_def)
  moreover have "(2, 1) \<in> blocked_by queue_deadlock"
    using blocked_by_holder [of queue_deadlock "[7]" _ Shared "[]" "request 2 Exclusive 0" "[request 3 Shared 1]" 1]
    by (simp add: queue_deadlock_def is_compatible_def)
  moreover have "(1, 3) \<in> blocked_by queue_deadlock"
    using blocked_by_holder [of queue_deadlock "[8]" _ Exclusive "[]" "request 1 Exclusive 2" "[]" 3]
    by (simp add: queue_deadlock_def is_compatible_def)
  ultimately show "{(1, 3), (3, 2), (2, 1)} \<subseteq> blocked_by queue_deadlock" by simp
qed (simp_all add: lock_eval queue_deadlock_def)

end
