(* ===== verification/Txn_Manager.thy ===== *)
theory Txn_Manager
  imports Recovery Lock_Manager
begin

text \<open>
  The transaction manager and the isolation levels, \<^verbatim>\<open>idb-txn/src/txn/mod.rs\<close> and
  \<^verbatim>\<open>idb-txn/src/txn/isolation/\<close>: transaction ids and timestamps, the active, committed and aborted
  transactions, the visibility watermark of checkpoints, and the two policies that decide what a transaction
  reads and whether it may write.  The lock manager is a separate component; each method of the manager runs
  under its mutex and is one function on its state.
\<close>

section \<open>Model\<close>

definition TS_INVALID :: timestamp where "TS_INVALID = U64_MAX"

definition ts_is_valid :: "timestamp \<Rightarrow> bool" where "ts_is_valid ts \<longleftrightarrow> ts \<noteq> TS_INVALID"

definition AUTO_COMMIT :: txn_id where "AUTO_COMMIT = 0"

definition TXN_INVALID :: txn_id where "TXN_INVALID = U64_MAX"

definition txn_is_valid :: "txn_id \<Rightarrow> bool" where "txn_is_valid t \<longleftrightarrow> t \<noteq> TXN_INVALID"

definition MAX_ACTIVE_TRANSACTIONS :: nat where "MAX_ACTIVE_TRANSACTIONS = 65536"

datatype txn_state = Active | Committed | Aborted

datatype txn_mode = ReadOnly | ReadWrite

datatype isolation_policy = SnapshotIsolation | ReadCommitted

record transaction =
  tx_id :: txn_id
  tx_state :: txn_state
  tx_mode :: txn_mode
  tx_start_lsn :: lsn
  tx_last_lsn :: lsn
  tx_begin_ts :: timestamp
  tx_commit_ts :: "timestamp option"
  tx_read_ts :: timestamp

definition transaction_new :: "txn_id \<Rightarrow> txn_mode \<Rightarrow> lsn \<Rightarrow> timestamp \<Rightarrow> timestamp \<Rightarrow> transaction" where
  "transaction_new i mode start begin_ts read_ts =
    \<lparr>tx_id = i, tx_state = Active, tx_mode = mode, tx_start_lsn = start, tx_last_lsn = start,
     tx_begin_ts = begin_ts, tx_commit_ts = None, tx_read_ts = read_ts\<rparr>"

record txn_manager =
  next_txn_id :: txn_id
  active_txns :: "(txn_id \<times> transaction) list"
  next_ts :: timestamp
  mgr_committed :: "(txn_id \<times> timestamp) list"
  mgr_uncommitted :: "txn_id set"
  mgr_aborted :: "txn_id set"
  checkpoint_ts :: timestamp
  policy :: isolation_policy

definition manager_with_policy :: "isolation_policy \<Rightarrow> txn_manager" where
  "manager_with_policy p =
    \<lparr>next_txn_id = 1, active_txns = [], next_ts = 1, mgr_committed = [], mgr_uncommitted = {}, mgr_aborted = {},
     checkpoint_ts = 0, policy = p\<rparr>"

definition manager_new :: txn_manager where
  "manager_new = manager_with_policy SnapshotIsolation"

definition oracle_next :: "txn_manager \<Rightarrow> (timestamp \<times> txn_manager) result" where
  "oracle_next m = (if \<not> next_ts m < U64_MAX then Inl Panic else Inr (next_ts m, m\<lparr>next_ts := next_ts m + 1\<rparr>))"

definition ts_oracle_peek :: "txn_manager \<Rightarrow> timestamp" where
  "ts_oracle_peek m = next_ts m"

definition mgr_begin :: "txn_mode \<Rightarrow> lsn \<Rightarrow> txn_manager \<Rightarrow> (txn_id \<times> txn_manager) result" where
  "mgr_begin mode start m =
    (if length (active_txns m) \<ge> MAX_ACTIVE_TRANSACTIONS then Inl (TxnLimit MAX_ACTIVE_TRANSACTIONS)
     else let i = next_txn_id m; m = m\<lparr>next_txn_id := i + 1\<rparr> in
       and_then (oracle_next m) (\<lambda>(begin_ts, m).
         Inr (i, m\<lparr>active_txns := AList.update i (transaction_new i mode start begin_ts begin_ts) (active_txns m)\<rparr>)))"

definition active_txn :: "txn_id \<Rightarrow> txn_manager \<Rightarrow> transaction result" where
  "active_txn t m = (case map_of (active_txns m) t of None \<Rightarrow> Inl (TxnNotActive t) | Some tx \<Rightarrow> Inr tx)"

definition mgr_commit :: "txn_id \<Rightarrow> txn_manager \<Rightarrow> txn_manager result" where
  "mgr_commit t m =
    and_then (active_txn t m) (\<lambda>tx. Inr (m\<lparr>active_txns := AList.delete t (active_txns m)\<rparr>))"

definition mgr_abort :: "txn_id \<Rightarrow> txn_manager \<Rightarrow> txn_manager result" where
  "mgr_abort t m =
    and_then (active_txn t m) (\<lambda>tx.
      Inr (m\<lparr>mgr_aborted := insert t (mgr_aborted m), active_txns := AList.delete t (active_txns m)\<rparr>))"

definition update_last_lsn :: "txn_id \<Rightarrow> lsn \<Rightarrow> txn_manager \<Rightarrow> txn_manager result" where
  "update_last_lsn t l m =
    and_then (active_txn t m) (\<lambda>tx. Inr (m\<lparr>active_txns := AList.update t (tx\<lparr>tx_last_lsn := l\<rparr>) (active_txns m)\<rparr>))"

definition mgr_last_lsn :: "txn_id \<Rightarrow> txn_manager \<Rightarrow> lsn result" where
  "mgr_last_lsn t m = and_then (active_txn t m) (\<lambda>tx. Inr (tx_last_lsn tx))"

definition mgr_mode :: "txn_id \<Rightarrow> txn_manager \<Rightarrow> txn_mode result" where
  "mgr_mode t m = and_then (active_txn t m) (\<lambda>tx. Inr (tx_mode tx))"

definition active_txn_ids :: "txn_manager \<Rightarrow> txn_id list" where
  "active_txn_ids m = map fst (active_txns m)"

definition active_count :: "txn_manager \<Rightarrow> nat" where
  "active_count m = length (active_txns m)"

definition active_read_timestamps :: "txn_manager \<Rightarrow> timestamp list" where
  "active_read_timestamps m = map (\<lambda>(_, tx). tx_begin_ts tx) (active_txns m)"

definition next_txn_id_peek :: "txn_manager \<Rightarrow> txn_id" where
  "next_txn_id_peek m = next_txn_id m"

definition mgr_snapshot :: "txn_id \<Rightarrow> txn_manager \<Rightarrow> timestamp result" where
  "mgr_snapshot t m = and_then (active_txn t m) (\<lambda>tx. Inr (tx_read_ts tx))"

definition mgr_begin_ts :: "txn_id \<Rightarrow> txn_manager \<Rightarrow> timestamp result" where
  "mgr_begin_ts t m = and_then (active_txn t m) (\<lambda>tx. Inr (tx_begin_ts tx))"

definition prune_committed_below :: "timestamp \<Rightarrow> txn_manager \<Rightarrow> nat \<times> txn_manager" where
  "prune_committed_below bound m =
    (let kept = filter (\<lambda>(_, commit_ts). commit_ts > bound) (mgr_committed m) in
     (length (mgr_committed m) - length kept, m\<lparr>mgr_committed := kept\<rparr>))"

definition known_not_committed :: "txn_manager \<Rightarrow> txn_id set" where
  "known_not_committed m = mgr_uncommitted m \<union> mgr_aborted m"

definition remove_aborted_txns :: "txn_id set \<Rightarrow> txn_manager \<Rightarrow> txn_manager" where
  "remove_aborted_txns ids m = m\<lparr>mgr_aborted := mgr_aborted m - ids\<rparr>"

definition load_uncommitted_txns :: "txn_id set \<Rightarrow> txn_manager \<Rightarrow> txn_manager" where
  "load_uncommitted_txns txns m = m\<lparr>mgr_uncommitted := txns\<rparr>"

definition advance_next_txn_id_past :: "txn_id \<Rightarrow> txn_manager \<Rightarrow> txn_manager" where
  "advance_next_txn_id_past max_seen m = m\<lparr>next_txn_id := max (next_txn_id m) (max_seen + 1)\<rparr>"

definition assign_commit_ts :: "txn_id \<Rightarrow> txn_manager \<Rightarrow> (timestamp \<times> txn_manager) result" where
  "assign_commit_ts t m =
    and_then (active_txn t m) (\<lambda>tx.
      and_then (oracle_next m) (\<lambda>(commit_ts, m).
        Inr (commit_ts,
          m\<lparr>active_txns := AList.update t (tx\<lparr>tx_commit_ts := Some commit_ts\<rparr>) (active_txns m),
            mgr_committed := AList.update t commit_ts (mgr_committed m)\<rparr>)))"

definition set_checkpoint_ts :: "timestamp \<Rightarrow> txn_manager \<Rightarrow> txn_manager" where
  "set_checkpoint_ts ts m = m\<lparr>checkpoint_ts := ts\<rparr>"

definition advance_oracle :: "txn_manager \<Rightarrow> txn_manager result" where
  "advance_oracle m = and_then (oracle_next m) (\<lambda>(_, m). Inr m)"

lemma word64_less_Suc:
  fixes n x :: "64 word"
  assumes "n < U64_MAX"
  shows "x < n + 1 \<longleftrightarrow> x \<le> n"
proof -
  have "n + 1 \<noteq> 0" using assms by (auto simp: eq_neg_iff_add_eq_0 [symmetric])
  then have "unat (n + 1) = Suc (unat n)" using unatSuc [of n] by (simp add: add.commute)
  then show ?thesis by (simp add: word_less_nat_alt word_le_nat_alt less_Suc_eq_le)
qed

lemma oracle_next_eq: "oracle_next m = Inr (ts, m') \<longleftrightarrow> next_ts m < U64_MAX \<and> ts = next_ts m \<and> m' = m\<lparr>next_ts := next_ts m + 1\<rparr>"
  by (auto simp: oracle_next_def)

text \<open>The loop \<^verbatim>\<open>while peek <= bound { advance }\<close>.\<close>

function advance_oracle_past :: "timestamp \<Rightarrow> txn_manager \<Rightarrow> txn_manager result" where
  "advance_oracle_past bound m =
    (if ts_oracle_peek m \<le> bound then and_then (advance_oracle m) (advance_oracle_past bound) else Inr m)"
  by pat_completeness auto

termination advance_oracle_past
proof (relation "measure (\<lambda>(bound, m). 2 ^ 64 - unat (next_ts m))")
  fix bound m x
  assume "advance_oracle m = Inr x"
  then have n: "next_ts m < U64_MAX" "next_ts x = next_ts m + 1"
    by (auto simp: advance_oracle_def and_then_eq_Inr oracle_next_eq)
  have "next_ts m < next_ts x" unfolding n(2) word64_less_Suc [OF n(1)] by simp
  then have "unat (next_ts m) < unat (next_ts x)" by (rule unat_mono)
  then show "((bound, x), bound, m) \<in> measure (\<lambda>(bound, m). 2 ^ 64 - unat (next_ts m))"
    by (simp add: diff_less_mono2)
qed simp

definition load_committed_txns :: "(txn_id \<times> timestamp) list \<Rightarrow> txn_manager \<Rightarrow> txn_manager result" where
  "load_committed_txns recovered m =
    (let max_ts = fold (\<lambda>(_, ts) a. if ts > a then ts else a) recovered 0;
         max_txn_id = fold (\<lambda>(i, _) a. if i > a then i else a) recovered 0 in
     and_then (advance_oracle_past max_ts (m\<lparr>mgr_committed := recovered\<rparr>)) (\<lambda>m.
       Inr (m\<lparr>next_txn_id := max (next_txn_id m) (max_txn_id + 1), checkpoint_ts := max_ts\<rparr>)))"

section \<open>Isolation policies\<close>

definition fresh_read_ts :: "txn_manager \<Rightarrow> timestamp" where
  "fresh_read_ts m =
    (let oracle_ts = ts_oracle_peek m; ckpt_ts = checkpoint_ts m in
     if ckpt_ts > oracle_ts then ckpt_ts else oracle_ts)"

definition si_read_view :: "txn_id \<Rightarrow> txn_manager \<Rightarrow> timestamp result" where
  "si_read_view t m = (if t = AUTO_COMMIT then Inr (fresh_read_ts m) else mgr_snapshot t m)"

definition rc_read_view :: "txn_id \<Rightarrow> txn_manager \<Rightarrow> timestamp result" where
  "rc_read_view t m = Inr (fresh_read_ts m)"

definition read_view :: "isolation_policy \<Rightarrow> txn_id \<Rightarrow> txn_manager \<Rightarrow> timestamp result" where
  "read_view p = (case p of SnapshotIsolation \<Rightarrow> si_read_view | ReadCommitted \<Rightarrow> rc_read_view)"

text \<open>Both policies decide visibility by \<^verbatim>\<open>is_visible\<close>.\<close>

definition policy_visible :: "isolation_policy \<Rightarrow> txn_manager \<Rightarrow> txn_id \<Rightarrow> timestamp \<Rightarrow> txn_id \<Rightarrow> timestamp \<Rightarrow> bool" where
  "policy_visible p m t read_ts version_txn version_ts =
    is_visible version_txn version_ts t read_ts (map_of (mgr_committed m)) (checkpoint_ts m) (known_not_committed m)"

fun si_on_write :: "(txn_id \<times> timestamp) list \<Rightarrow> timestamp \<Rightarrow> txn_manager \<Rightarrow> unit result" where
  "si_on_write [] begin_ts m = Inr ()"
| "si_on_write ((v_txn, _) # versions) begin_ts m =
    (case map_of (mgr_committed m) v_txn of
       Some commit_ts \<Rightarrow> if commit_ts > begin_ts then Inl (WriteConflict v_txn) else si_on_write versions begin_ts m
     | None \<Rightarrow> si_on_write versions begin_ts m)"

definition rc_on_write :: "(txn_id \<times> timestamp) list \<Rightarrow> timestamp \<Rightarrow> txn_manager \<Rightarrow> unit result" where
  "rc_on_write versions begin_ts m = Inr ()"

definition on_write :: "isolation_policy \<Rightarrow> (txn_id \<times> timestamp) list \<Rightarrow> timestamp \<Rightarrow> txn_manager \<Rightarrow> unit result" where
  "on_write p = (case p of SnapshotIsolation \<Rightarrow> si_on_write | ReadCommitted \<Rightarrow> rc_on_write)"

definition validate_commit :: "isolation_policy \<Rightarrow> txn_id \<Rightarrow> txn_manager \<Rightarrow> (timestamp \<times> txn_manager) result" where
  "validate_commit p t m = assign_commit_ts t m"

end
