(* ===== verification/Txn_Database.thy ===== *)
theory Txn_Database
  imports Txn_Manager Mvcc_Scan
begin

text \<open>
  The transactional layer: \<^verbatim>\<open>TxnEngine\<close> (\<^verbatim>\<open>idb-txn/src/txn/engine.rs\<close>), which wraps any storage engine with versions,
  locks and the log, and the transaction operations of \<^verbatim>\<open>Database\<close> (\<^verbatim>\<open>src/database.rs\<close>).  The state is the engine,
  the log writer, the transaction manager and the lock manager; an operation returns its result together with
  the state it leaves, so that an early return keeps the effects made before it.  The operations of the engine
  and the checksum are parameters.  A write takes its lock first; a write whose lock is not free waits and is
  continued after a release grants it.
\<close>

section \<open>State\<close>

record 's db =
  db_engine :: 's
  db_wal :: wal_writer
  db_checkpoint_lsn :: lsn
  db_mgr :: txn_manager
  db_locks :: lock_state

text \<open>The operator \<^verbatim>\<open>?\<close> in an operation that has already changed the state to \<^verbatim>\<open>db\<close>.\<close>

definition try_db :: "'a result \<Rightarrow> 's db \<Rightarrow> ('a \<Rightarrow> 'b result \<times> 's db) \<Rightarrow> 'b result \<times> 's db" where
  "try_db r db f = (case r of Inl e \<Rightarrow> (Inl e, db) | Inr x \<Rightarrow> f x)"

section \<open>TxnEngine\<close>

fun scan_versions_loop :: "bytes \<Rightarrow> (bytes \<times> bytes) list \<Rightarrow> (txn_id \<times> timestamp) list result" where
  "scan_versions_loop user_key [] = Inr []"
| "scan_versions_loop user_key ((encoded_key, encoded_value) # entries) =
    and_then (decode_mvcc_key encoded_key) (\<lambda>(found_key, version_ts).
      if found_key \<noteq> user_key then Inr []
      else and_then (decode_mvcc_value encoded_value) (\<lambda>mvcc_val.
        and_then (scan_versions_loop user_key entries) (\<lambda>versions. Inr ((writer mvcc_val, version_ts) # versions))))"

definition scan_versions :: "(bound \<Rightarrow> bound \<Rightarrow> 's \<Rightarrow> (bytes \<times> bytes) list result) \<Rightarrow> bytes \<Rightarrow> 's \<Rightarrow> (txn_id \<times> timestamp) list result" where
  "scan_versions scan user_key s =
    and_then (encode_mvcc_key_start user_key) (\<lambda>start.
    and_then (encode_mvcc_key_end user_key) (\<lambda>stop.
    and_then (scan (Included start) (Included stop) s) (scan_versions_loop user_key)))"

definition check_write :: "(bound \<Rightarrow> bound \<Rightarrow> 's \<Rightarrow> (bytes \<times> bytes) list result) \<Rightarrow> bytes \<Rightarrow> timestamp \<Rightarrow> 's db \<Rightarrow> unit result" where
  "check_write scan user_key begin_ts db =
    and_then (scan_versions scan user_key (db_engine db)) (\<lambda>versions.
      on_write (policy (db_mgr db)) versions begin_ts (db_mgr db))"

definition lock_for_write :: "txn_id \<Rightarrow> bytes \<Rightarrow> 's db \<Rightarrow> acquire_outcome result \<times> 's db" where
  "lock_for_write t key db =
    try_db (acquire t key Exclusive (db_locks db)) db (\<lambda>(out, locks). (Inr out, db\<lparr>db_locks := locks\<rparr>))"

definition txn_engine_get :: "(bound \<Rightarrow> bound \<Rightarrow> 's \<Rightarrow> (bytes \<times> bytes) list result) \<Rightarrow> txn_id \<Rightarrow> bytes \<Rightarrow> 's db \<Rightarrow> bytes option result" where
  "txn_engine_get scan t key db =
    (let m = db_mgr db in
     and_then (read_view (policy m) t m) (\<lambda>read_ts.
       mvcc_get scan key (policy_visible (policy m) m t read_ts) (db_engine db)))"

text \<open>The part common to \<^verbatim>\<open>put\<close> and \<^verbatim>\<open>delete\<close>: both write a version under the transaction.\<close>

definition txn_engine_write :: "(bytes \<Rightarrow> 32 word) \<Rightarrow> (bound \<Rightarrow> bound \<Rightarrow> 's \<Rightarrow> (bytes \<times> bytes) list result) \<Rightarrow>
    (bytes \<Rightarrow> bytes \<Rightarrow> 's \<Rightarrow> 's result) \<Rightarrow> txn_id \<Rightarrow> bytes \<Rightarrow> mvcc_value \<Rightarrow> 's db \<Rightarrow> unit result \<times> 's db" where
  "txn_engine_write crc scan put t key val db =
    try_db (mgr_mode t (db_mgr db)) db (\<lambda>mode.
    if mode = ReadOnly then (Inl (TxnReadOnly t), db)
    else try_db (mgr_begin_ts t (db_mgr db)) db (\<lambda>begin_ts.
    try_db (check_write scan key begin_ts db) db (\<lambda>_.
    try_db (encode_mvcc_key key begin_ts) db (\<lambda>mvcc_key.
    let mvcc_val = encode_mvcc_value val in
    try_db (mgr_last_lsn t (db_mgr db)) db (\<lambda>prev_lsn.
    try_db (writer_append crc (mk_txn_put t prev_lsn mvcc_key mvcc_val None) (db_wal db)) db (\<lambda>(l, wal).
    let db = db\<lparr>db_wal := wal\<rparr> in
    try_db (update_last_lsn t l (db_mgr db)) db (\<lambda>mgr.
    let db = db\<lparr>db_mgr := mgr\<rparr> in
    try_db (put mvcc_key mvcc_val (db_engine db)) db (\<lambda>s. (Inr (), db\<lparr>db_engine := s\<rparr>)))))))))"

definition txn_engine_put :: "(bytes \<Rightarrow> 32 word) \<Rightarrow> (bound \<Rightarrow> bound \<Rightarrow> 's \<Rightarrow> (bytes \<times> bytes) list result) \<Rightarrow>
    (bytes \<Rightarrow> bytes \<Rightarrow> 's \<Rightarrow> 's result) \<Rightarrow> txn_id \<Rightarrow> bytes \<Rightarrow> bytes \<Rightarrow> 's db \<Rightarrow> unit result \<times> 's db" where
  "txn_engine_put crc scan put t key data db = txn_engine_write crc scan put t key (MValue t data) db"

definition txn_engine_delete :: "(bytes \<Rightarrow> 32 word) \<Rightarrow> (bound \<Rightarrow> bound \<Rightarrow> 's \<Rightarrow> (bytes \<times> bytes) list result) \<Rightarrow>
    (bytes \<Rightarrow> bytes \<Rightarrow> 's \<Rightarrow> 's result) \<Rightarrow> txn_id \<Rightarrow> bytes \<Rightarrow> 's db \<Rightarrow> unit result \<times> 's db" where
  "txn_engine_delete crc scan put t key db = txn_engine_write crc scan put t key (MTombstone t) db"

definition txn_engine_scan_range :: "(bound \<Rightarrow> bound \<Rightarrow> 's \<Rightarrow> (bytes \<times> bytes) list result) \<Rightarrow> txn_id \<Rightarrow> bound \<Rightarrow> bound \<Rightarrow>
    's db \<Rightarrow> (bytes \<times> bytes) list result option" where
  "txn_engine_scan_range scan t start_bound end_bound db =
    (let m = db_mgr db in
     case read_view (policy m) t m of
       Inl e \<Rightarrow> Some (Inl e)
     | Inr read_ts \<Rightarrow>
         let start = (case start_bound of Included k \<Rightarrow> k | Excluded k \<Rightarrow> k @ [0] | Unbounded \<Rightarrow> []);
             stop = (case end_bound of Included k \<Rightarrow> k | Excluded k \<Rightarrow> k | Unbounded \<Rightarrow> replicate 32 0xFF) in
         mvcc_scan scan start stop (policy_visible (policy m) m t read_ts) (db_engine db))"

section \<open>Database\<close>

definition begin_txn :: "(bytes \<Rightarrow> 32 word) \<Rightarrow> txn_mode \<Rightarrow> 's db \<Rightarrow> txn_id result \<times> 's db" where
  "begin_txn crc mode db =
    try_db (mgr_begin mode LSN_INVALID (db_mgr db)) db (\<lambda>(t, mgr).
    let db = db\<lparr>db_mgr := mgr\<rparr> in
    if mode = ReadWrite then
      try_db (writer_append crc (mk_begin t) (db_wal db)) db (\<lambda>(begin_lsn, wal).
      let db = db\<lparr>db_wal := wal\<rparr> in
      try_db (update_last_lsn t begin_lsn (db_mgr db)) db (\<lambda>mgr. (Inr t, db\<lparr>db_mgr := mgr\<rparr>)))
    else (Inr t, db))"

definition commit_txn :: "(bytes \<Rightarrow> 32 word) \<Rightarrow> txn_id \<Rightarrow> 's db \<Rightarrow> unit result \<times> 's db" where
  "commit_txn crc t db =
    try_db (mgr_last_lsn t (db_mgr db)) db (\<lambda>prev_lsn.
    try_db (mgr_mode t (db_mgr db)) db (\<lambda>mode.
    try_db (validate_commit (policy (db_mgr db)) t (db_mgr db)) db (\<lambda>(commit_ts, mgr).
    let db = db\<lparr>db_mgr := mgr\<rparr> in
    try_db (if mode = ReadWrite
            then and_then (writer_append crc (mk_commit t prev_lsn commit_ts) (db_wal db)) (\<lambda>(_, wal). Inr wal)
            else Inr (db_wal db)) db (\<lambda>wal.
    let db = db\<lparr>db_wal := wal\<rparr> in
    try_db (release_all t (db_locks db)) db (\<lambda>locks.
    let db = db\<lparr>db_locks := locks\<rparr> in
    try_db (mgr_commit t (db_mgr db)) db (\<lambda>mgr. (Inr (), db\<lparr>db_mgr := mgr\<rparr>)))))))"

definition txn_abort :: "(bytes \<Rightarrow> 32 word) \<Rightarrow> txn_id \<Rightarrow> 's db \<Rightarrow> unit result \<times> 's db" where
  "txn_abort crc t db =
    try_db (mgr_last_lsn t (db_mgr db)) db (\<lambda>prev_lsn.
    try_db (writer_append crc (mk_abort t prev_lsn) (db_wal db)) db (\<lambda>(_, wal).
    let db = db\<lparr>db_wal := wal\<rparr> in
    try_db (release_all t (db_locks db)) db (\<lambda>locks.
    let db = db\<lparr>db_locks := locks\<rparr> in
    try_db (mgr_abort t (db_mgr db)) db (\<lambda>mgr. (Inr (), db\<lparr>db_mgr := mgr\<rparr>)))))"

text \<open>\<^verbatim>\<open>txn_put\<close> and \<^verbatim>\<open>txn_delete\<close>: no result yet while the lock is waited for.\<close>

definition locked_write :: "txn_id \<Rightarrow> bytes \<Rightarrow> ('s db \<Rightarrow> unit result \<times> 's db) \<Rightarrow> 's db \<Rightarrow> unit result option \<times> 's db" where
  "locked_write t key write db =
    (case lock_for_write t key db of
       (Inl e, db) \<Rightarrow> (Some (Inl e), db)
     | (Inr Acquired, db) \<Rightarrow> (case write db of (r, db) \<Rightarrow> (Some r, db))
     | (Inr (Refused e), db) \<Rightarrow> (Some (Inl e), db)
     | (Inr (Waiting _), db) \<Rightarrow> (None, db))"

definition txn_put :: "(bytes \<Rightarrow> 32 word) \<Rightarrow> (bound \<Rightarrow> bound \<Rightarrow> 's \<Rightarrow> (bytes \<times> bytes) list result) \<Rightarrow>
    (bytes \<Rightarrow> bytes \<Rightarrow> 's \<Rightarrow> 's result) \<Rightarrow> txn_id \<Rightarrow> bytes \<Rightarrow> bytes \<Rightarrow> 's db \<Rightarrow> unit result option \<times> 's db" where
  "txn_put crc scan put t key data db = locked_write t key (txn_engine_put crc scan put t key data) db"

definition txn_delete :: "(bytes \<Rightarrow> 32 word) \<Rightarrow> (bound \<Rightarrow> bound \<Rightarrow> 's \<Rightarrow> (bytes \<times> bytes) list result) \<Rightarrow>
    (bytes \<Rightarrow> bytes \<Rightarrow> 's \<Rightarrow> 's result) \<Rightarrow> txn_id \<Rightarrow> bytes \<Rightarrow> 's db \<Rightarrow> unit result option \<times> 's db" where
  "txn_delete crc scan put t key db = locked_write t key (txn_engine_delete crc scan put t key) db"

definition txn_get :: "(bound \<Rightarrow> bound \<Rightarrow> 's \<Rightarrow> (bytes \<times> bytes) list result) \<Rightarrow> txn_id \<Rightarrow> bytes \<Rightarrow> 's db \<Rightarrow> bytes option result" where
  "txn_get scan t key db = txn_engine_get scan t key db"

definition db_get :: "(bound \<Rightarrow> bound \<Rightarrow> 's \<Rightarrow> (bytes \<times> bytes) list result) \<Rightarrow> bytes \<Rightarrow> 's db \<Rightarrow> bytes option result" where
  "db_get scan key db = txn_engine_get scan AUTO_COMMIT key db"

definition truncate_wal :: "(bytes \<Rightarrow> 32 word) \<Rightarrow> lsn \<Rightarrow> wal_writer \<Rightarrow> wal_writer" where
  "truncate_wal crc l w = w\<lparr>closed_segments := butlast (snd (truncate_before crc l (writer_dir w)))\<rparr>"

definition checkpoint :: "(bytes \<Rightarrow> 32 word) \<Rightarrow> ('s \<Rightarrow> 's result) \<Rightarrow> 's db \<Rightarrow> unit result \<times> 's db" where
  "checkpoint crc flush db =
    try_db (flush (db_engine db)) db (\<lambda>s.
    let db = db\<lparr>db_engine := s\<rparr>;
        oracle_ts = ts_oracle_peek (db_mgr db);
        record = mk_checkpoint (active_txn_ids (db_mgr db)) oracle_ts (next_txn_id_peek (db_mgr db)) in
    try_db (writer_append crc record (db_wal db)) db (\<lambda>(checkpoint_lsn, wal).
    let wal = truncate_wal crc checkpoint_lsn wal;
        mgr = set_checkpoint_ts oracle_ts (db_mgr db);
        actives = active_read_timestamps mgr;
        oldest_active = (if actives = [] then oracle_ts else Min (set actives));
        bound = min oldest_active oracle_ts in
    (Inr (), db\<lparr>db_wal := wal, db_checkpoint_lsn := checkpoint_lsn, db_mgr := snd (prune_committed_below bound mgr)\<rparr>)))"

end
