(* ===== verification/Spec2Isabelle.thy ===== *)
theory Spec2Isabelle
  imports Tuple_Encoding Lsm_Restart Lsm_Mvcc Lock_Properties Txn_Database
begin

text \<open>
  InterchangeDB: verification development.
\<close>

end
